(* ===== verification/Prelude.thy ===== *)
theory Prelude
  imports Main "HOL-Library.Product_Lexorder"
begin

text \<open>
  Shared vocabulary of the development: Python text as code points, database rows kept in
  lists and addressed by a key, integer sums over rows, and the locale that turns a one-step
  invariant into an invariant of every reachable state.
\<close>

section \<open>Collections of facts\<close>

named_theorems row_simps \<open>reading, replacing and summing the rows of a table\<close>
named_theorems money_simps \<open>fixed-point money arithmetic\<close>

section \<open>Python text\<close>

text \<open>
  A Python \<^verbatim>\<open>str\<close> is a sequence of code points. User text is \<open>ustr\<close>; identifiers and enum
  values that the code compares with ASCII literals are HOL strings, injected by \<open>ulit\<close>.
\<close>

type_synonym ustr = "nat list"
type_synonym bytes = "nat list"

definition ulit :: "string \<Rightarrow> ustr" where
  "ulit s = map of_char s"

text \<open>The code points that \<^verbatim>\<open>str.isspace\<close> and \<^verbatim>\<open>str.strip()\<close> treat as white space.\<close>

definition py_space :: "nat \<Rightarrow> bool" where
  "py_space c \<longleftrightarrow> (9 \<le> c \<and> c \<le> 13) \<or> (28 \<le> c \<and> c \<le> 32) \<or> c = 133 \<or> c = 160 \<or> c = 5760
     \<or> (8192 \<le> c \<and> c \<le> 8202) \<or> c = 8232 \<or> c = 8233 \<or> c = 8239 \<or> c = 8287 \<or> c = 12288"

definition py_strip :: "ustr \<Rightarrow> ustr" where
  "py_strip s = rev (dropWhile py_space (rev (dropWhile py_space s)))"

text \<open>
  \<^verbatim>\<open>len(s.encode("utf-8"))\<close>: a lone surrogate raises UnicodeEncodeError, which is \<open>None\<close>.
\<close>

definition utf8_width :: "nat \<Rightarrow> nat option" where
  "utf8_width c = (if c < 128 then Some 1 else if c < 2048 then Some 2
     else if 55296 \<le> c \<and> c \<le> 57343 then None
     else if c < 65536 then Some 3 else Some 4)"

fun utf8_len :: "ustr \<Rightarrow> nat option" where
  "utf8_len [] = Some 0"
| "utf8_len (c # s) = (case (utf8_width c, utf8_len s) of
     (Some a, Some b) \<Rightarrow> Some (a + b) | _ \<Rightarrow> None)"

definition ascii_alnum :: "nat \<Rightarrow> bool" where
  "ascii_alnum c \<longleftrightarrow> (48 \<le> c \<and> c \<le> 57) \<or> (65 \<le> c \<and> c \<le> 90) \<or> (97 \<le> c \<and> c \<le> 122)"

text \<open>The class \<^verbatim>\<open>[A-Za-z0-9_-]\<close> of the repository's identifier patterns.\<close>

definition id_char :: "nat \<Rightarrow> bool" where
  "id_char c \<longleftrightarrow> ascii_alnum c \<or> c = 95 \<or> c = 45"

text \<open>\<^verbatim>\<open>s.split(d)\<close> with a one-character separator, and \<^verbatim>\<open>sep.join(xs)\<close>.\<close>

fun split_on :: "nat \<Rightarrow> ustr \<Rightarrow> ustr list" where
  "split_on d [] = [[]]"
| "split_on d (c # s) = (if c = d then [] # split_on d s else (c # hd (split_on d s)) # tl (split_on d s))"

fun join :: "ustr \<Rightarrow> ustr list \<Rightarrow> ustr" where
  "join sep [] = []"
| "join sep [x] = x"
| "join sep (x # y # r) = x @ sep @ join sep (y # r)"

lemma split_on_nonempty [simp]: "split_on d s \<noteq> []"
  by (cases s) auto

lemma split_on_plain: "d \<notin> set x \<Longrightarrow> split_on d x = [x]"
  by (induction x) auto

lemma split_on_append: "d \<notin> set x \<Longrightarrow> split_on d (x @ d # s) = x # split_on d s"
  by (induction x) auto

lemma split_join: "xs \<noteq> [] \<Longrightarrow> \<forall>x \<in> set xs. d \<notin> set x \<Longrightarrow> split_on d (join [d] xs) = xs"
  by (induction "[d]" xs rule: join.induct) (auto simp: split_on_plain split_on_append)

lemma utf8_len_append:
  "utf8_len (s @ t) = (case (utf8_len s, utf8_len t) of
     (Some a, Some b) \<Rightarrow> Some (a + b) | _ \<Rightarrow> None)"
  by (induction s) (auto split: option.splits)

lemma utf8_width_bounds: "utf8_width c = Some n \<Longrightarrow> 1 \<le> n \<and> n \<le> 4"
  by (auto simp: utf8_width_def split: if_splits)

lemma utf8_len_bounds: "utf8_len s = Some n \<Longrightarrow> length s \<le> n \<and> n \<le> 4 * length s"
  by (induction s arbitrary: n) (force split: option.splits dest: utf8_width_bounds)+

lemma py_strip_length: "length (py_strip s) \<le> length s"
proof -
  have "length (dropWhile py_space xs) \<le> length xs" for xs by (rule length_dropWhile_le)
  then show ?thesis unfolding py_strip_def by (metis length_rev order_trans)
qed

lemma py_strip_ends:
  "py_strip s \<noteq> [] \<Longrightarrow> \<not> py_space (last (py_strip s)) \<and> \<not> py_space (hd (py_strip s))"
proof -
  assume ne: "py_strip s \<noteq> []"
  let ?d = "dropWhile py_space s"
  let ?e = "dropWhile py_space (rev ?d)"
  have e: "?e \<noteq> []" using ne unfolding py_strip_def by blast
  have lst: "\<not> py_space (last (py_strip s))"
    using hd_dropWhile [OF e] unfolding py_strip_def last_rev .
  have d: "?d \<noteq> []" using e by fastforce
  have "takeWhile py_space (rev ?d) @ ?e = rev ?d" by (rule takeWhile_dropWhile_id)
  then have "?d = rev ?e @ rev (takeWhile py_space (rev ?d))"
    by (metis rev_append rev_rev_ident)
  then have "hd ?d = hd (rev ?e)" using e by (metis hd_append rev_is_Nil_conv)
  then have "\<not> py_space (hd (py_strip s))"
    using hd_dropWhile [OF d] by (simp add: py_strip_def)
  with lst show ?thesis by simp
qed

section \<open>Tables\<close>

text \<open>
  A database table is the list of its rows. \<open>get_row\<close> is the lookup by a unique key,
  \<open>put_row\<close> is \<^verbatim>\<open>save()\<close> of an existing row.
\<close>

definition get_row :: "('r \<Rightarrow> 'k) \<Rightarrow> 'r list \<Rightarrow> 'k \<Rightarrow> 'r option" where
  "get_row key t k = find (\<lambda>r. key r = k) t"

definition put_row :: "('r \<Rightarrow> 'k) \<Rightarrow> 'r \<Rightarrow> 'r list \<Rightarrow> 'r list" where
  "put_row key r t = map (\<lambda>x. if key x = key r then r else x) t"

abbreviation keyed :: "('r \<Rightarrow> 'k) \<Rightarrow> 'r list \<Rightarrow> bool" where
  "keyed key t \<equiv> distinct (map key t)"

definition row_sum :: "('r \<Rightarrow> int) \<Rightarrow> 'r list \<Rightarrow> int" where
  "row_sum w t = sum_list (map w t)"

lemma row_sum_Nil [simp]: "row_sum w [] = 0"
  by (simp add: row_sum_def)

lemma row_sum_Cons [simp]: "row_sum w (r # t) = w r + row_sum w t"
  by (simp add: row_sum_def)

lemma row_sum_append [simp]: "row_sum w (s @ t) = row_sum w s + row_sum w t"
  by (simp add: row_sum_def)

lemma get_row_Some:
  "get_row key t k = Some r \<Longrightarrow> r \<in> set t \<and> key r = k"
  by (auto simp: get_row_def find_Some_iff)

lemma get_row_None: "get_row key t k = None \<longleftrightarrow> k \<notin> key ` set t"
  by (auto simp: get_row_def find_None_iff)

lemma get_row_keyed:
  "keyed key t \<Longrightarrow> r \<in> set t \<Longrightarrow> get_row key t (key r) = Some r"
proof (induction t)
  case (Cons x t)
  then show ?case
    by (cases "key x = key r") (auto simp: get_row_def image_iff)
qed simp

lemma get_row_append:
  "get_row key (t @ [r]) k =
     (case get_row key t k of Some x \<Rightarrow> Some x | None \<Rightarrow> if key r = k then Some r else None)"
  by (induction t) (auto simp: get_row_def)

lemma map_key_put_row [simp]: "map key (put_row key r t) = map key t"
  by (auto simp: put_row_def)

lemma image_key_put_row [simp]: "key ` set (put_row key r t) = key ` set t"
  by (metis list.set_map map_key_put_row)

lemma length_put_row [simp]: "length (put_row key r t) = length t"
  by (simp add: put_row_def)

lemma get_put_row:
  "get_row key (put_row key r t) k =
     (if k = key r then (if k \<in> key ` set t then Some r else None) else get_row key t k)"
  by (induction t) (auto simp: get_row_def put_row_def)

lemma put_row_id: "key r \<notin> key ` set t \<Longrightarrow> put_row key r t = t"
  by (induction t) (auto simp: put_row_def)

lemma put_row_Cons:
  "put_row key r (x # t) = (if key x = key r then r else x) # put_row key r t"
  by (simp add: put_row_def)

lemma set_put_row_sub: "set (put_row key r t) \<subseteq> insert r (set t)"
  by (auto simp: put_row_def)

lemma put_row_member: "x \<in> set (put_row key r t) \<Longrightarrow> x = r \<or> x \<in> set t \<and> key x \<noteq> key r"
  by (auto simp: put_row_def)

lemma set_put_row:
  "keyed key t \<Longrightarrow> get_row key t (key r) = Some r0 \<Longrightarrow>
     set (put_row key r t) = insert r (set t - {r0})"
proof (induction t)
  case (Cons x t)
  show ?case
  proof (cases "key x = key r")
    case True
    with Cons.prems have "r0 = x" "key r \<notin> key ` set t" by (auto simp: get_row_def)
    moreover from this have "x \<notin> set t" using True by (metis imageI)
    ultimately show ?thesis using True by (auto simp: put_row_Cons put_row_id)
  next
    case False
    with Cons.prems have "get_row key t (key r) = Some r0" by (simp add: get_row_def)
    with Cons False get_row_Some [OF this] show ?thesis by (auto simp: put_row_Cons)
  qed
qed (simp add: get_row_def)

lemma row_sum_put_row:
  "keyed key t \<Longrightarrow> get_row key t (key r) = Some r0 \<Longrightarrow>
     row_sum w (put_row key r t) = row_sum w t - w r0 + w r"
proof (induction t)
  case (Cons x t)
  show ?case
  proof (cases "key x = key r")
    case True
    with Cons.prems have "r0 = x" "key r \<notin> key ` set t" by (auto simp: get_row_def)
    with Cons.prems True show ?thesis by (simp add: put_row_Cons put_row_id)
  next
    case False
    with Cons show ?thesis by (simp add: put_row_Cons get_row_def)
  qed
qed (simp add: get_row_def)

lemma row_sum_cong: "(\<And>r. r \<in> set t \<Longrightarrow> v r = w r) \<Longrightarrow> row_sum v t = row_sum w t"
  by (induction t) auto

lemma row_sum_mono: "(\<And>r. r \<in> set t \<Longrightarrow> v r \<le> w r) \<Longrightarrow> row_sum v t \<le> row_sum w t"
  by (induction t) (auto intro: add_mono)

lemma row_sum_nonneg: "(\<And>r. r \<in> set t \<Longrightarrow> 0 \<le> w r) \<Longrightarrow> 0 \<le> row_sum w t"
  by (induction t) auto

lemma row_sum_add: "row_sum (\<lambda>r. v r + w r) t = row_sum v t + row_sum w t"
  by (induction t) auto

lemma row_sum_zero: "(\<And>r. r \<in> set t \<Longrightarrow> w r = 0) \<Longrightarrow> row_sum w t = 0"
  by (induction t) auto

lemma row_sum_member_le:
  "r \<in> set t \<Longrightarrow> (\<And>x. x \<in> set t \<Longrightarrow> 0 \<le> w x) \<Longrightarrow> w r \<le> row_sum w t"
proof (induction t)
  case (Cons x t)
  then have "0 \<le> row_sum w t" by (intro row_sum_nonneg) auto
  with Cons show ?case by (cases "r = x") force+
qed simp

lemmas row_rules [row_simps] =
  get_put_row row_sum_put_row get_row_append get_row_None

section \<open>Reachable states\<close>

text \<open>
  A component whose state changes only through its operations. The provider proves that every
  operation keeps the invariant; the client gets it for every state the program can reach.
\<close>

inductive run_of :: "('s \<Rightarrow> 'e \<Rightarrow> 's \<Rightarrow> bool) \<Rightarrow> 's \<Rightarrow> 'e list \<Rightarrow> 's \<Rightarrow> bool"
  for step :: "'s \<Rightarrow> 'e \<Rightarrow> 's \<Rightarrow> bool" where
  run_nil: "run_of step s [] s"
| run_cons: "step s e t \<Longrightarrow> run_of step t es u \<Longrightarrow> run_of step s (e # es) u"

inductive_cases run_consE: "run_of step s (e # es) u"

lemma run_of_append:
  assumes "run_of step s xs t" "run_of step t ys u"
  shows "run_of step s (xs @ ys) u"
  using assms by (induction rule: run_of.induct) (auto intro: run_of.intros)

locale stateful_component =
  fixes initial :: "'s \<Rightarrow> bool"
    and step :: "'s \<Rightarrow> 'e \<Rightarrow> 's \<Rightarrow> bool"
    and inv :: "'s \<Rightarrow> bool"
  assumes inv_initial: "initial s \<Longrightarrow> inv s"
    and inv_step: "inv s \<Longrightarrow> step s e s' \<Longrightarrow> inv s'"
begin

lemma run_preserves: "run_of step s es t \<Longrightarrow> inv s \<Longrightarrow> inv t"
  by (induction rule: run_of.induct) (auto intro: inv_step)

lemma reachable_inv: "initial s \<Longrightarrow> run_of step s es t \<Longrightarrow> inv t"
  by (blast intro: run_preserves inv_initial)

end

end
