(* ===== verification/Py_Decimal.thy ===== *)
theory Py_Decimal
  imports Complex_Main Prelude
begin

text \<open>
  The part of Python's \<^verbatim>\<open>decimal\<close> module that the account service uses: the default context
  (28 significant digits, ROUND_HALF_EVEN) applied to the exact rational result of an
  arithmetic operation, and \<^verbatim>\<open>quantize\<close> to nine decimal places. Stored money
  (\<^verbatim>\<open>DecimalField(max_digits=18, decimal_places=9)\<close>) is an integer number of
  nanodollars.
\<close>

section \<open>The 28-digit context\<close>

function ndigits :: "int \<Rightarrow> nat" where
  "ndigits n = (if n < 10 then 1 else Suc (ndigits (n div 10)))"
  by pat_completeness auto
termination
  by (relation "measure nat") auto

declare ndigits.simps [simp del]

text \<open>The exponent of the leading digit: \<open>10 ^ adjusted q \<le> q < 10 ^ (adjusted q + 1)\<close>.\<close>

definition adjusted :: "rat \<Rightarrow> int" where
  "adjusted q = (let (p, d) = quotient_of q; k = int (ndigits p) - int (ndigits d)
     in if 10 powi k \<le> q then k else k - 1)"

definition round_half_even :: "rat \<Rightarrow> int" where
  "round_half_even q = (let f = \<lfloor>q\<rfloor>; d = q - of_int f
     in if d < 1 / 2 then f else if 1 / 2 < d then f + 1 else if even f then f else f + 1)"

definition dec28 :: "rat \<Rightarrow> rat" where
  "dec28 q = (if q = 0 then 0
     else let s = 10 powi (27 - adjusted \<bar>q\<bar>)
          in sgn q * of_int (round_half_even (\<bar>q\<bar> * s)) / s)"

definition dec_add :: "rat \<Rightarrow> rat \<Rightarrow> rat" where "dec_add a b = dec28 (a + b)"
definition dec_sub :: "rat \<Rightarrow> rat \<Rightarrow> rat" where "dec_sub a b = dec28 (a - b)"
definition dec_mul :: "rat \<Rightarrow> rat \<Rightarrow> rat" where "dec_mul a b = dec28 (a * b)"
definition dec_div :: "rat \<Rightarrow> rat \<Rightarrow> rat" where "dec_div a b = dec28 (a / b)"

section \<open>Nanodollars\<close>

definition usd :: "int \<Rightarrow> rat" where
  "usd n = of_int n / 10 ^ 9"

text \<open>\<^verbatim>\<open>quantize(Decimal("0.000000001"))\<close>: ROUND_DOWN truncates towards zero, ROUND_UP away from it.\<close>

definition quantize_down :: "rat \<Rightarrow> int" where
  "quantize_down q = (if 0 \<le> q then \<lfloor>q * 10 ^ 9\<rfloor> else \<lceil>q * 10 ^ 9\<rceil>)"

definition quantize_up :: "rat \<Rightarrow> int" where
  "quantize_up q = (if 0 \<le> q then \<lceil>q * 10 ^ 9\<rceil> else \<lfloor>q * 10 ^ 9\<rfloor>)"

section \<open>Laws\<close>

lemma ndigits_bounds: "0 < n \<Longrightarrow> 10 ^ (ndigits n - 1) \<le> n \<and> n < 10 ^ ndigits n"
proof (induction n rule: ndigits.induct)
  case (1 n)
  show ?case
  proof (cases "n < 10")
    case True
    then show ?thesis using "1.prems" by (simp add: ndigits.simps [of n])
  next
    case False
    define m r where "m = n div 10" and "r = n mod 10"
    have m: "0 < m" "n = 10 * m + r" "0 \<le> r" "r < 10" using False by (auto simp: m_def r_def)
    have ih: "10 ^ (ndigits m - 1) \<le> m" "m < 10 ^ ndigits m"
      using "1.IH" [OF False] m(1) by (auto simp: m_def)
    have s: "ndigits n = Suc (ndigits m)" using False by (simp add: ndigits.simps [of n] m_def)
    have pos: "0 < ndigits m" by (simp add: ndigits.simps [of m])
    have "10 ^ ndigits m = 10 * (10 ^ (ndigits m - 1) :: int)"
      using pos by (cases "ndigits m") auto
    then have lo: "10 ^ ndigits m \<le> n" using ih(1) m by linarith
    have "n < 10 * (m + 1)" unfolding distrib_left using m(2,4) by simp
    also have "\<dots> \<le> 10 * 10 ^ ndigits m" using ih(2) by simp
    finally show ?thesis using lo s by simp
  qed
qed

lemma ndigits_pos: "0 < ndigits n"
  by (simp add: ndigits.simps [of n])

lemma powi_mono10: "a \<le> b \<Longrightarrow> (10::rat) powi a \<le> 10 powi b"
  by (rule power_int_increasing) auto

lemma powi_less10: "a < b \<Longrightarrow> (10::rat) powi a < 10 powi b"
  by (rule power_int_strict_increasing) auto

lemma powi_less10D: "(10::rat) powi a < 10 powi b \<Longrightarrow> a < b"
  using powi_mono10 [of b a] by (meson linorder_not_le)

lemma adjusted_bounds:
  assumes "0 < q"
  shows "10 powi adjusted q \<le> q" and "q < 10 powi (adjusted q + 1)"
proof -
  obtain p d where pd: "quotient_of q = (p, d)" by (cases "quotient_of q")
  then have q: "q = of_int p / of_int d" and d: "0 < d"
    by (auto intro: quotient_of_div quotient_of_denom_pos)
  with assms have p: "0 < p" by (simp add: zero_less_divide_iff)
  define a b where "a = int (ndigits p)" and "b = int (ndigits d)"
  have bnd: "(10::rat) powi (int (ndigits x) - 1) \<le> of_int x \<and> of_int x < (10::rat) powi int (ndigits x)"
    if x: "0 < x" for x
  proof -
    have n: "10 ^ (ndigits x - 1) \<le> x" "x < 10 ^ ndigits x" using ndigits_bounds [OF x] by auto
    have e: "int (ndigits x) - 1 = int (ndigits x - 1)" using ndigits_pos [of x] by linarith
    have "of_int (10 ^ (ndigits x - 1)) \<le> (of_int x :: rat)" "of_int x < (of_int (10 ^ ndigits x) :: rat)"
      using n by (simp_all only: of_int_le_iff of_int_less_iff)
    then show ?thesis unfolding e by simp
  qed
  have pb: "10 powi (a - 1) \<le> (of_int p :: rat)" "of_int p < (10::rat) powi a"
    and db: "10 powi (b - 1) \<le> (of_int d :: rat)" "of_int d < (10::rat) powi b"
    using bnd [OF p] bnd [OF d] by (auto simp: a_def b_def)
  have d': "0 < (of_int d :: rat)" using d by simp
  have lo: "10 powi (a - b - 1) < q"
  proof -
    have "(10::rat) powi (a - b - 1) * of_int d < 10 powi (a - b - 1) * 10 powi b"
      using db by (intro mult_strict_left_mono) auto
    also have "\<dots> = 10 powi (a - 1)" by (simp flip: power_int_add)
    finally show ?thesis using pb d' by (simp add: q pos_less_divide_eq)
  qed
  have hi: "q < 10 powi (a - b + 1)"
  proof -
    have "(10::rat) powi a = 10 powi (a - b + 1) * 10 powi (b - 1)" by (simp flip: power_int_add)
    also have "\<dots> \<le> 10 powi (a - b + 1) * of_int d" using db by (intro mult_left_mono) auto
    finally show ?thesis using pb d' by (simp add: q pos_divide_less_eq)
  qed
  have adj: "adjusted q = (if 10 powi (a - b) \<le> q then a - b else a - b - 1)"
    by (simp add: adjusted_def pd a_def b_def)
  show "10 powi adjusted q \<le> q" and "q < 10 powi (adjusted q + 1)"
    using lo hi by (auto simp: adj)
qed

lemma adjusted_unique:
  assumes "10 powi k \<le> q" "q < 10 powi (k + 1)"
  shows "adjusted q = k"
proof -
  have "0 < (10::rat) powi k" by simp
  with assms(1) have q: "0 < q" by (rule less_le_trans [rotated])
  have "(10::rat) powi k < 10 powi (adjusted q + 1)"
    using assms(1) adjusted_bounds(2) [OF q] by (rule le_less_trans)
  moreover have "(10::rat) powi adjusted q < 10 powi (k + 1)"
    using adjusted_bounds(1) [OF q] assms(2) by (rule le_less_trans)
  ultimately show ?thesis by (auto dest!: powi_less10D)
qed

lemma adjusted_scale:
  assumes "0 < q"
  shows "adjusted (q / 10 ^ j) = adjusted q - int j"
proof (rule adjusted_unique)
  have s: "(10::rat) powi (k - int j) = 10 powi k / 10 ^ j" for k by (simp add: power_int_diff)
  have e: "adjusted q - int j + 1 = adjusted q + 1 - int j" by simp
  show "10 powi (adjusted q - int j) \<le> q / 10 ^ j"
    unfolding s using adjusted_bounds(1) [OF assms] by (intro divide_right_mono) auto
  show "q / 10 ^ j < 10 powi (adjusted q - int j + 1)"
    unfolding e s using adjusted_bounds(2) [OF assms] by (intro divide_strict_right_mono) auto
qed

lemma round_half_even_int [simp]: "round_half_even (of_int n) = n"
  by (simp add: round_half_even_def)

lemma round_half_even_err: "\<bar>of_int (round_half_even q) - q\<bar> \<le> 1 / 2"
proof -
  have "of_int \<lfloor>q\<rfloor> \<le> q" "q < of_int \<lfloor>q\<rfloor> + 1" by linarith+
  then show ?thesis unfolding round_half_even_def Let_def by auto
qed

lemma round_half_even_le: "q \<le> of_int n \<Longrightarrow> round_half_even q \<le> n"
proof -
  assume h: "q \<le> of_int n"
  show ?thesis
  proof (cases "q = of_int n")
    case False
    then have "\<lfloor>q\<rfloor> < n" using h by (simp add: floor_less_iff)
    then show ?thesis by (auto simp: round_half_even_def Let_def)
  qed simp
qed

lemma round_half_even_ge: "of_int n \<le> q \<Longrightarrow> n \<le> round_half_even q"
  using le_floor_iff [of n q] by (auto simp: round_half_even_def Let_def)

lemma dec28_0 [simp]: "dec28 0 = 0"
  by (simp add: dec28_def)

lemma dec28_pos_eq:
  "0 < q \<Longrightarrow> dec28 q = of_int (round_half_even (q * 10 powi (27 - adjusted q))) / 10 powi (27 - adjusted q)"
  by (simp add: dec28_def Let_def)

lemma dec28_minus: "dec28 (- q) = - dec28 q"
  by (simp add: dec28_def Let_def sgn_if)

lemma dec28_scale: "dec28 (q / 10 ^ j) = dec28 q / 10 ^ j"
proof -
  have pos: "dec28 (x / 10 ^ j) = dec28 x / 10 ^ j" if x: "0 < x" for x :: rat
  proof -
    have e: "27 - (adjusted x - int j) = 27 - adjusted x + int j" by simp
    have s: "(10::rat) powi (27 - adjusted x + int j) = 10 powi (27 - adjusted x) * 10 ^ j"
      by (simp add: power_int_add)
    have "0 < x / 10 ^ j" using x by simp
    then show ?thesis
      unfolding dec28_pos_eq [OF x] dec28_pos_eq [OF \<open>0 < x / 10 ^ j\<close>] adjusted_scale [OF x] e s
      by simp
  qed
  consider "q = 0" | "0 < q" | "0 < - q" by linarith
  then show ?thesis
  proof cases
    case 3
    have "dec28 (- (q / 10 ^ j)) = dec28 (- q) / 10 ^ j" using pos [OF 3] by simp
    then show ?thesis by (simp add: dec28_minus)
  qed (simp_all add: pos)
qed

lemma dec28_err:
  assumes "0 \<le> q"
  shows "\<bar>dec28 q - q\<bar> \<le> q / (2 * 10 ^ 27)"
proof (cases "q = 0")
  case False
  with assms have pos: "0 < q" by simp
  define s where "s = (10::rat) powi (27 - adjusted q)"
  have s: "0 < s" by (simp add: s_def)
  have "dec28 q - q = (of_int (round_half_even (q * s)) - q * s) / s"
    using s by (simp add: dec28_pos_eq [OF pos] s_def field_simps)
  then have "\<bar>dec28 q - q\<bar> = \<bar>of_int (round_half_even (q * s)) - q * s\<bar> / s" using s by simp
  also have "\<dots> \<le> (1 / 2) / s"
    using round_half_even_err [of "q * s"] s by (intro divide_right_mono) auto
  also have "\<dots> \<le> q / (2 * 10 ^ 27)"
  proof -
    have "10 ^ 27 = s * 10 powi adjusted q"
      by (simp add: s_def flip: power_int_add)
    also have "\<dots> \<le> s * q" using adjusted_bounds(1) [OF pos] s by (intro mult_left_mono) auto
    finally show ?thesis using s by (simp add: field_simps)
  qed
  finally show ?thesis .
qed simp

lemma dec28_nonneg: "0 \<le> q \<Longrightarrow> 0 \<le> dec28 q"
proof (cases "q = 0")
  case False
  assume "0 \<le> q"
  with False have pos: "0 < q" by simp
  have "0 \<le> round_half_even (q * 10 powi (27 - adjusted q))"
    using pos by (intro round_half_even_ge) simp
  then show ?thesis by (simp add: dec28_pos_eq [OF pos])
qed simp

lemma dec28_exact:
  assumes n: "\<bar>n\<bar> < 10 ^ 28"
  shows "dec28 (of_int n / 10 ^ j) = of_int n / 10 ^ j"
proof -
  have main: "dec28 (of_int m / 10 ^ j) = of_int m / 10 ^ j" if m: "0 < m" "m < 10 ^ 28" for m :: int
  proof -
    define q where "q = (of_int m :: rat) / 10 ^ j"
    have pos: "0 < q" using m by (simp add: q_def)
    have "10 powi adjusted q \<le> q" by (rule adjusted_bounds [OF pos])
    also have "(of_int m :: rat) < of_int (10 ^ 28)" using m(2) by (simp only: of_int_less_iff)
    then have "q < 10 powi (28 - int j)"
      by (simp add: q_def power_int_diff divide_strict_right_mono)
    finally have "adjusted q < 28 - int j" by (rule powi_less10D)
    then have "27 - adjusted q = int j + int (nat (27 - adjusted q - int j))" by simp
    then obtain t where t: "27 - adjusted q = int j + int t" by blast
    have sc: "(10::rat) powi (27 - adjusted q) = 10 ^ j * 10 ^ t"
      unfolding t by (simp add: power_int_add)
    have "q * 10 powi (27 - adjusted q) = of_int (m * 10 ^ t)"
      unfolding sc by (simp add: q_def)
    then have "dec28 q = of_int (m * 10 ^ t) / 10 powi (27 - adjusted q)"
      using round_half_even_int [of "m * 10 ^ t"] by (simp only: dec28_pos_eq [OF pos])
    also have "\<dots> = q" unfolding sc by (simp add: q_def)
    finally show ?thesis by (simp add: q_def)
  qed
  consider "n = 0" | "0 < n" | "n < 0" by linarith
  then show ?thesis
  proof cases
    case 3
    then show ?thesis using main [of "- n"] n dec28_minus [of "of_int n / 10 ^ j"] by simp
  qed (use n main in auto)
qed

lemma dec28_usd: "\<bar>n\<bar> < 10 ^ 28 \<Longrightarrow> dec28 (usd n) = usd n"
  unfolding usd_def by (rule dec28_exact)

lemma dec28_le_one:
  assumes "0 \<le> q" "q \<le> 1"
  shows "dec28 q \<le> 1"
proof (cases "q = 0 \<or> q = 1")
  case True
  then show ?thesis using dec28_exact [of 1 0] by auto
next
  case False
  with assms have pos: "0 < q" and lt: "q < 1" by auto
  define k where "k = adjusted q"
  have "(10::rat) powi k < 10 powi 0" using adjusted_bounds(1) [OF pos] lt by (simp add: k_def)
  then have "k < 0" by (rule powi_less10D)
  then have k: "k + 1 \<le> 0" by simp
  have "q * 10 powi (27 - k) \<le> 10 powi (k + 1) * 10 powi (27 - k)"
    using adjusted_bounds(2) [OF pos] by (intro mult_right_mono) (auto simp: k_def)
  also have "\<dots> = of_int (10 ^ 28)" by (simp flip: power_int_add)
  finally have "round_half_even (q * 10 powi (27 - k)) \<le> 10 ^ 28" by (rule round_half_even_le)
  then have "of_int (round_half_even (q * 10 powi (27 - k))) \<le> (of_int (10 ^ 28) :: rat)"
    by (simp only: of_int_le_iff)
  then have "dec28 q \<le> of_int (10 ^ 28) / 10 powi (27 - k)"
    by (simp add: dec28_pos_eq [OF pos] k_def divide_right_mono)
  also have "\<dots> = 10 powi (k + 1)" by (simp add: power_int_diff power_int_add field_simps)
  also have "\<dots> \<le> 1" using powi_mono10 [OF k] by simp
  finally show ?thesis .
qed

text \<open>
  An equal share, rounded by the context and then truncated to nanodollars, never adds up to
  more than the amount that is shared: the rounding error is below one part in \<open>10 ^ 27\<close>,
  while the exact quotient is at least \<open>1 / n\<close> away from the next integer.
\<close>

lemma share_times_population:
  assumes R: "0 \<le> R" "R < 10 ^ 27" and n: "0 < n"
  shows "\<lfloor>dec28 (of_int R / of_int n)\<rfloor> * n \<le> R"
proof (rule ccontr)
  let ?x = "of_int R / of_int n :: rat"
  let ?m = "\<lfloor>dec28 ?x\<rfloor>"
  assume "\<not> ?m * n \<le> R"
  then have "R + 1 \<le> ?m * n" by simp
  then have "(of_int (R + 1) :: rat) \<le> of_int (?m * n)" by (simp only: of_int_le_iff)
  then have "?x + 1 / of_int n \<le> of_int ?m" using n by (simp add: field_simps)
  also have "of_int ?m \<le> dec28 ?x" by simp
  also have "dec28 ?x \<le> ?x + ?x / (2 * 10 ^ 27)"
    using dec28_err [of ?x] R n by (auto simp: abs_le_iff)
  finally have "1 / of_int n \<le> ?x / (2 * 10 ^ 27)" by simp
  then have "(2 * 10 ^ 27 :: rat) \<le> of_int R" using n by (simp add: field_simps)
  moreover have "(of_int R :: rat) < of_int (10 ^ 27)" using R by (simp only: of_int_less_iff)
  ultimately show False by simp
qed

lemma quantize_down_usd [simp, money_simps]: "quantize_down (usd n) = n"
  by (simp add: quantize_down_def usd_def)

lemma quantize_up_usd [simp, money_simps]: "quantize_up (usd n) = n"
  by (simp add: quantize_up_def usd_def)

lemma usd_quantize_down: "0 \<le> x \<Longrightarrow> usd (quantize_down x) \<le> x"
proof -
  assume "0 \<le> x"
  then have "of_int (quantize_down x) \<le> x * 1000000000" by (simp add: quantize_down_def)
  then show ?thesis by (simp add: usd_def divide_le_eq)
qed

lemma quantize_down_nonneg: "0 \<le> q \<Longrightarrow> 0 \<le> quantize_down q"
  by (simp add: quantize_down_def)

lemma quantize_down_le: "q \<le> usd n \<Longrightarrow> 0 \<le> q \<Longrightarrow> quantize_down q \<le> n"
proof -
  assume h: "q \<le> usd n" "0 \<le> q"
  then have "q * 10 ^ 9 \<le> of_int n" by (simp add: usd_def field_simps)
  then have "\<lfloor>q * 10 ^ 9\<rfloor> \<le> \<lfloor>of_int n :: rat\<rfloor>" by (rule floor_mono)
  then show ?thesis using h by (simp add: quantize_down_def)
qed

lemma quantize_up_ge: "0 \<le> q \<Longrightarrow> q \<le> usd (quantize_up q)"
proof -
  assume "0 \<le> q"
  then have "q * 10 ^ 9 \<le> of_int (quantize_up q)" by (simp add: quantize_up_def)
  then show ?thesis by (simp add: usd_def field_simps)
qed

lemma usd_le_iff [simp]: "usd a \<le> usd b \<longleftrightarrow> a \<le> b"
  by (simp add: usd_def divide_le_cancel)

lemma usd_less_iff [simp]: "usd a < usd b \<longleftrightarrow> a < b"
  by (simp add: usd_def divide_less_cancel)

lemma usd_add: "usd (a + b) = usd a + usd b"
  by (simp add: usd_def add_divide_distrib)

lemma usd_diff: "usd (a - b) = usd a - usd b"
  by (simp add: usd_def diff_divide_distrib)

lemma dec_sub_usd: "\<bar>a - b\<bar> < 10 ^ 28 \<Longrightarrow> dec_sub (usd a) (usd b) = usd (a - b)"
  by (simp add: dec_sub_def dec28_usd flip: usd_diff)

lemma usd_0 [simp]: "usd 0 = 0"
  by (simp add: usd_def)

lemma usd_nonneg_iff [simp]: "0 \<le> usd a \<longleftrightarrow> 0 \<le> a"
  using usd_le_iff [of 0 a] by simp

end
