(* ===== verification/Calendar.thy ===== *)
theory Calendar
  imports Prelude
begin

text \<open>
  The part of Python's \<^verbatim>\<open>datetime\<close> that the account service uses. An aware datetime is a
  number of microseconds since 1970-01-01 00:00 UTC; the calendar is the proleptic Gregorian
  one, with the ordinal of 0001-01-01 equal to 1.
\<close>

type_synonym time = int

definition day_us :: time where "day_us = 86400000000"
definition week_us :: time where "week_us = 7 * day_us"
definition epoch_ordinal :: int where "epoch_ordinal = 719163"

definition is_leap :: "int \<Rightarrow> bool" where
  "is_leap y \<longleftrightarrow> y mod 4 = 0 \<and> (y mod 100 \<noteq> 0 \<or> y mod 400 = 0)"

definition days_in_year :: "int \<Rightarrow> int" where
  "days_in_year y = (if is_leap y then 366 else 365)"

definition days_before_year :: "int \<Rightarrow> int" where
  "days_before_year y = (y - 1) * 365 + (y - 1) div 4 - (y - 1) div 100 + (y - 1) div 400"

text \<open>\<^verbatim>\<open>calendar.monthrange(year, month)[1]\<close>.\<close>

definition days_in_month :: "int \<Rightarrow> nat \<Rightarrow> int" where
  "days_in_month y m = (if m = 2 then (if is_leap y then 29 else 28)
     else if m = 4 \<or> m = 6 \<or> m = 9 \<or> m = 11 then 30 else 31)"

fun days_before_month :: "int \<Rightarrow> nat \<Rightarrow> int" where
  "days_before_month y 0 = 0"
| "days_before_month y (Suc 0) = 0"
| "days_before_month y (Suc (Suc m)) = days_before_month y (Suc m) + days_in_month y (Suc m)"

definition ymd2ord :: "int \<Rightarrow> nat \<Rightarrow> int \<Rightarrow> int" where
  "ymd2ord y m d = days_before_year y + days_before_month y m + d"

text \<open>The year that holds an ordinal, found from a lower bound of it.\<close>

lemma div_pred:
  assumes "0 < k"
  shows "(y::int) div k = (y - 1) div k + (if y mod k = 0 then 1 else 0)"
proof (cases "y mod k = 0")
  case True
  have "y - 1 = k * (y div k - 1) + (k - 1)"
    using True by (simp add: algebra_simps) (metis add.right_neutral mult.commute mult_div_mod_eq)
  then have "(y - 1) div k = y div k - 1" by (rule int_div_pos_eq) (use assms in auto)
  with True show ?thesis by simp
next
  case False
  have "0 \<le> y mod k" "y mod k < k" using assms by auto
  moreover have "y - 1 = k * (y div k) + (y mod k - 1)" by simp
  ultimately have "(y - 1) div k = y div k"
    using False by (intro int_div_pos_eq [where r = "y mod k - 1"]) auto
  with False show ?thesis by simp
qed

lemma days_before_year_Suc: "days_before_year (y + 1) = days_before_year y + days_in_year y"
proof -
  have "(4::int) dvd 100" "(100::int) dvd 400" by simp_all
  then have m: "y mod 100 = 0 \<Longrightarrow> y mod 4 = 0" "y mod 400 = 0 \<Longrightarrow> y mod 100 = 0"
    by (meson dvd_trans mod_eq_0_iff_dvd)+
  obtain a b c where abc: "(y - 1) div 4 = a" "(y - 1) div 100 = b" "(y - 1) div 400 = c" by blast
  have q: "y div 4 = a + (if y mod 4 = 0 then 1 else 0)"
    "y div 100 = b + (if y mod 100 = 0 then 1 else 0)"
    "y div 400 = c + (if y mod 400 = 0 then 1 else 0)"
    using div_pred [of 4 y] div_pred [of 100 y] div_pred [of 400 y] by (simp_all only: abc)
  show ?thesis
    unfolding days_before_year_def days_in_year_def is_leap_def add_diff_cancel_right' q abc
    using m
    by (cases "y mod 400 = 0"; cases "y mod 100 = 0"; cases "y mod 4 = 0") (simp_all add: algebra_simps)
qed

function year_from :: "int \<Rightarrow> int \<Rightarrow> int" where
  "year_from n y = (if n \<le> days_before_year (y + 1) then y else year_from n (y + 1))"
  by pat_completeness auto
termination
  by (relation "measure (\<lambda>(n, y). nat (n - days_before_year y))")
    (auto simp: days_before_year_Suc days_in_year_def split: if_splits)

declare year_from.simps [simp del]

definition ord_year :: "int \<Rightarrow> int" where
  "ord_year n = year_from n ((n - 1) div 366 + 1)"

fun month_from :: "int \<Rightarrow> int \<Rightarrow> nat \<Rightarrow> nat \<Rightarrow> nat \<times> int" where
  "month_from y r m 0 = (m, r)"
| "month_from y r m (Suc k) =
     (if r \<le> days_in_month y m then (m, r) else month_from y (r - days_in_month y m) (Suc m) k)"

definition ord2ymd :: "int \<Rightarrow> int \<times> nat \<times> int" where
  "ord2ymd n = (let y = ord_year n in (y, month_from y (n - days_before_year y) 1 11))"

definition ordinal_of :: "time \<Rightarrow> int" where
  "ordinal_of t = t div day_us + epoch_ordinal"

definition of_ordinal :: "int \<Rightarrow> time \<Rightarrow> time" where
  "of_ordinal n tod = (n - epoch_ordinal) * day_us + tod"

text \<open>\<^verbatim>\<open>datetime.weekday()\<close>: Monday is 0; 1970-01-01 is a Thursday.\<close>

definition weekday :: "time \<Rightarrow> int" where
  "weekday t = (t div day_us + 3) mod 7"

section \<open>Laws\<close>

lemma year_from_bounds:
  "days_before_year y < n \<Longrightarrow>
     days_before_year (year_from n y) < n \<and> n \<le> days_before_year (year_from n y + 1)"
proof (induction n y rule: year_from.induct)
  case (1 n y)
  then show ?case by (auto simp: year_from.simps [of n y])
qed

lemma days_before_year_upper:
  assumes "1 \<le> y"
  shows "days_before_year y \<le> (y - 1) * 366"
proof -
  have "(y - 1) div 4 \<le> y - 1" "(y - 1) div 400 \<le> (y - 1) div 100"
    using assms zdiv_mono2 [of "y - 1" 1 4] zdiv_mono2 [of "y - 1" 100 400] by auto
  then show ?thesis by (simp add: days_before_year_def)
qed

lemma ord_year_bounds:
  assumes "1 \<le> n"
  shows "days_before_year (ord_year n) < n \<and> n \<le> days_before_year (ord_year n + 1)"
proof -
  define y where "y = (n - 1) div 366 + 1"
  have "1 \<le> y" using assms by (simp add: y_def pos_imp_zdiv_nonneg_iff)
  then have "days_before_year y \<le> (y - 1) * 366" by (rule days_before_year_upper)
  also have "\<dots> \<le> n - 1"
    using mult_div_mod_eq [of 366 "n - 1"] pos_mod_sign [of 366 "n - 1"] unfolding y_def by simp
  finally show ?thesis unfolding ord_year_def y_def [symmetric] by (intro year_from_bounds) simp
qed

lemma days_in_month_bounds: "28 \<le> days_in_month y m \<and> days_in_month y m \<le> 31"
  by (simp add: days_in_month_def)

lemma days_before_month_13: "days_before_month y 13 = days_in_year y"
  by (simp add: numeral_eq_Suc days_in_month_def days_in_year_def)

lemma days_before_month_Suc:
  "1 \<le> m \<Longrightarrow> days_before_month y (Suc m) = days_before_month y m + days_in_month y m"
  by (cases m) auto

lemma month_from_bounds:
  "1 \<le> r \<Longrightarrow> 1 \<le> m \<Longrightarrow> r \<le> days_before_month y (Suc (m + k)) - days_before_month y m \<Longrightarrow>
     month_from y r m k = (m', d) \<Longrightarrow>
     m \<le> m' \<and> m' \<le> m + k \<and> 1 \<le> d \<and> d \<le> days_in_month y m' \<and>
     days_before_month y m' + d = days_before_month y m + r"
proof (induction k arbitrary: r m)
  case 0
  then show ?case using days_before_month_Suc [of m y] by auto
next
  case (Suc k)
  show ?case
  proof (cases "r \<le> days_in_month y m")
    case True
    then show ?thesis using Suc.prems by auto
  next
    case False
    have e: "days_before_month y (Suc m) = days_before_month y m + days_in_month y m"
      using Suc.prems(2) by (rule days_before_month_Suc)
    have "Suc m \<le> m' \<and> m' \<le> Suc m + k \<and> 1 \<le> d \<and> d \<le> days_in_month y m' \<and>
        days_before_month y m' + d = days_before_month y (Suc m) + (r - days_in_month y m)"
      by (rule Suc.IH) (use Suc.prems False e in auto)
    then show ?thesis using e by simp
  qed
qed

lemma ord2ymd_correct:
  assumes "1 \<le> n" and "ord2ymd n = (y, m, d)"
  shows "1 \<le> m \<and> m \<le> 12 \<and> 1 \<le> d \<and> d \<le> days_in_month y m \<and> ymd2ord y m d = n"
proof -
  have y: "y = ord_year n" and md: "month_from y (n - days_before_year y) 1 11 = (m, d)"
    using assms(2) by (auto simp: ord2ymd_def Let_def)
  have b: "days_before_year y < n" "n \<le> days_before_year y + days_in_year y"
    using ord_year_bounds [OF assms(1)] by (auto simp: y days_before_year_Suc)
  have "1 \<le> m \<and> m \<le> 1 + 11 \<and> 1 \<le> d \<and> d \<le> days_in_month y m \<and>
      days_before_month y m + d = days_before_month y 1 + (n - days_before_year y)"
    by (rule month_from_bounds [OF _ _ _ md]) (use b days_before_month_13 [of y] in auto)
  then show ?thesis by (auto simp: ymd2ord_def)
qed

lemma of_ordinal_ordinal: "of_ordinal (ordinal_of t) (t mod day_us) = t"
  by (simp add: of_ordinal_def ordinal_of_def)

end
