(* ===== verification/Server_Models.thy ===== *)
theory Server_Models
  imports Py_Decimal Calendar
begin

text \<open>
  The tables of the account service that funding and billing read and write
  (\<^verbatim>\<open>server/cloud/service/models.py\<close>). A table is the list of its rows; automatic primary keys
  come from the counters \<open>next_entry_pk\<close>, \<open>next_quota_pk\<close> and \<open>next_operation_pk\<close>. Money
  columns (\<^verbatim>\<open>DecimalField(max_digits=18, decimal_places=9)\<close>) are integers of nanodollars:
  sums and differences of such columns need at most 28 digits, so the decimal context leaves
  them exact.
\<close>

datatype entry_kind = Contribution | Operating_expense | Operating_reserve | Operating_release
  | Processing_cost | Processing_estimate | Historical_processing_cost

record user_row =
  user_pk :: nat
  user_email :: ustr
  user_is_active :: bool
  user_funded_access :: bool
  hosted_requested_at :: "time option"
  hosted_last_active_at :: "time option"

text \<open>Rows of the e-mail table of the authentication package.\<close>

record email_address =
  email_user :: nat
  email_text :: ustr
  email_verified :: bool
  email_primary :: bool

record treasury_row =
  processing_spent :: int
  processing_reserved :: int
  treasury_updated_at :: time

record funding_entry =
  entry_pk :: nat
  entry_kind :: entry_kind
  amount_usd :: int
  reserve_consumed_usd :: int
  entry_source :: ustr
  entry_reference :: ustr
  occurred_at :: "time option"
  release_until :: "time option"
  processing_ready_at :: "time option"
  processing_basis_usd :: int

record funding_period =
  period_start :: time
  period_reset_at :: time
  released_usd :: int
  regular_share_usd :: int
  newcomers_remaining_usd :: int
  population :: nat

record weekly_quota =
  quota_pk :: nat
  quota_user :: "nat option"
  quota_period :: time
  allocated_usd :: int
  used_usd :: int
  reserved_usd :: int
  quota_operations :: nat

record allowance_row =
  allowance_user :: nat
  allowance_month :: int
  used_ms :: int
  reserved_ms :: int
  allowance_operations :: nat

record budget_row =
  budget_month :: int
  budget_spent :: int
  budget_reserved :: int

datatype operation_state = Running | Complete | Uncertain

text \<open>
  \<^verbatim>\<open>result\<close> is the JSON object of the reply; only its emptiness and identity matter here, so it
  is the list of its members.
\<close>

record operation_row =
  operation_pk :: nat
  operation_user :: "nat option"
  operation_id :: nat
  operation_month :: int
  operation_fingerprint :: ustr
  operation_state :: operation_state
  operation_created_at :: time
  lease_until :: time
  audio_ms :: int
  reserved_cost :: int
  operation_cost :: int
  input_tokens :: int
  output_tokens :: int
  operation_result :: "(ustr \<times> ustr) list"
  result_expires_at :: "time option"
  operation_quota :: "nat option"
  authorized_cost :: int
  quota_debit :: int
  cost_estimated :: bool

record db =
  users :: "user_row list"
  emails :: "email_address list"
  treasury :: treasury_row
  entries :: "funding_entry list"
  periods :: "funding_period list"
  quotas :: "weekly_quota list"
  allowances :: "allowance_row list"
  budgets :: "budget_row list"
  operations :: "operation_row list"
  next_entry_pk :: nat
  next_quota_pk :: nat
  next_operation_pk :: nat

text \<open>A database after its migrations: no rows, and a treasury of zeros.\<close>

definition empty_db :: "user_row list \<Rightarrow> email_address list \<Rightarrow> db" where
  "empty_db us es = \<lparr>users = us, emails = es,
     treasury = \<lparr>processing_spent = 0, processing_reserved = 0, treasury_updated_at = 0\<rparr>,
     entries = [], periods = [], quotas = [], allowances = [], budgets = [], operations = [],
     next_entry_pk = 1, next_quota_pk = 1, next_operation_pk = 1\<rparr>"

end
