(* ===== verification/Funding.thy ===== *)
theory Funding
  imports Server_Models
begin

text \<open>
  \<^verbatim>\<open>server/cloud/service/funding.py\<close>: received cash, operating provisions and the weekly
  distribution of processing quota. Every operation runs inside the treasury transaction:
  an error leaves the database as it was, so an operation returns either the error or its
  result with the new database. Clock readings are parameters.
\<close>

section \<open>Money and calendar helpers\<close>

definition money :: "rat \<Rightarrow> int" where
  "money value = quantize_down value"

definition money_up :: "rat \<Rightarrow> int" where
  "money_up value = quantize_up value"

definition week_bounds :: "time \<Rightarrow> time \<times> time" where
  "week_bounds now = (let midnight = now - now mod day_us;
                          start = midnight - weekday midnight * day_us
                      in (start, start + week_us))"

definition one_month_after :: "time \<Rightarrow> time" where
  "one_month_after value = (case ord2ymd (ordinal_of value) of (y, m, d) \<Rightarrow>
     let year = y + (if m = 12 then 1 else 0); month = m mod 12 + 1
     in of_ordinal (ymd2ord year month (min d (days_in_month year month))) (value mod day_us))"

text \<open>
  \<^verbatim>\<open>Decimal(str(delta.total_seconds()))\<close>: intervals here stay below \<open>10 ^ 9\<close> seconds, so the
  shortest representation of the float is the exact number of microseconds.
\<close>

definition total_seconds :: "time \<Rightarrow> rat" where
  "total_seconds delta = of_int delta / 10 ^ 6"

section \<open>Totals\<close>

definition counted :: "time \<Rightarrow> funding_entry \<Rightarrow> bool" where
  "counted now e = (case occurred_at e of None \<Rightarrow> False | Some t \<Rightarrow> t \<le> now)"

definition kind_total :: "db \<Rightarrow> time \<Rightarrow> entry_kind \<Rightarrow> int" where
  "kind_total d now k =
     row_sum (\<lambda>e. if counted now e \<and> entry_kind e = k then amount_usd e else 0) (entries d)"

definition consumed_total :: "db \<Rightarrow> time \<Rightarrow> int" where
  "consumed_total d now = row_sum (\<lambda>e. if counted now e then reserve_consumed_usd e else 0) (entries d)"

text \<open>Received, operating expenses, and what is left of the operating provisions.\<close>

definition totals :: "db \<Rightarrow> time \<Rightarrow> int \<times> int \<times> int" where
  "totals d now = (kind_total d now Contribution, kind_total d now Operating_expense,
     kind_total d now Operating_reserve - kind_total d now Operating_release - consumed_total d now)"

definition quota_active :: "db \<Rightarrow> time \<Rightarrow> weekly_quota \<Rightarrow> bool" where
  "quota_active d now q = (case get_row period_start (periods d) (quota_period q) of
     None \<Rightarrow> False | Some p \<Rightarrow> now < period_reset_at p)"

definition commitments :: "db \<Rightarrow> time \<Rightarrow> int \<times> int" where
  "commitments d now =
     (row_sum (\<lambda>q. if quota_active d now q then allocated_usd q - used_usd q - reserved_usd q else 0)
        (quotas d),
      row_sum (\<lambda>p. if now < period_reset_at p then newcomers_remaining_usd p else 0) (periods d))"

definition available :: "db \<Rightarrow> time \<Rightarrow> int" where
  "available d now = (case (totals d now, commitments d now) of
     ((received, spent, reserved), (allocated, newcomers)) \<Rightarrow>
       received - spent - reserved - processing_spent (treasury d)
         - processing_reserved (treasury d) - allocated - newcomers)"

section \<open>Recording cash\<close>

datatype decimal = Finite rat | Infinite | NaN
datatype datetime_arg = Aware time | Naive

datatype finance_error = Invalid_amount | Invalid_reference | Invalid_timestamp
  | Reference_conflict | Expense_uses_allocated | Provision_uses_allocated
  | Release_exceeds_provision | No_matching_basis | Unknown_operating_kind

text \<open>\<^verbatim>\<open>re.fullmatch(r"[a-z0-9_-]{1,32}", source)\<close>.\<close>

definition source_pattern :: "ustr \<Rightarrow> bool" where
  "source_pattern s \<longleftrightarrow> 1 \<le> length s \<and> length s \<le> 32 \<and>
     (\<forall>c \<in> set s. (97 \<le> c \<and> c \<le> 122) \<or> (48 \<le> c \<and> c \<le> 57) \<or> c = 95 \<or> c = 45)"

definition valid_amount :: "decimal \<Rightarrow> bool" where
  "valid_amount a = (case a of Finite q \<Rightarrow> 0 < q \<and> q \<le> 100000000 \<and> q = usd (money q) | _ \<Rightarrow> False)"

definition validate_entry :: "decimal \<Rightarrow> ustr \<Rightarrow> datetime_arg \<Rightarrow> ustr \<Rightarrow> time \<Rightarrow> finance_error + unit" where
  "validate_entry amount reference occurred source now =
     (if \<not> valid_amount amount then Inl Invalid_amount
      else if py_strip reference = [] \<or> 200 < length reference \<or> \<not> source_pattern source
        \<or> source = ulit ''ledger'' \<or> source = ulit ''historical'' then Inl Invalid_reference
      else case occurred of Naive \<Rightarrow> Inl Invalid_timestamp
        | Aware t \<Rightarrow> if now < t then Inl Invalid_timestamp else Inr ())"

text \<open>Row order of \<^verbatim>\<open>order_by("occurred_at", "pk")\<close>; a missing timestamp sorts last.\<close>

definition occurred_key :: "funding_entry \<Rightarrow> (nat \<times> time) \<times> nat" where
  "occurred_key e = ((case occurred_at e of Some t \<Rightarrow> (0, t) | None \<Rightarrow> (1, 0)), entry_pk e)"

definition basis_rows :: "bool \<Rightarrow> funding_entry list \<Rightarrow> funding_entry list" where
  "basis_rows restore es = (let receipts = filter (\<lambda>e. entry_kind e = Contribution) es in
     if restore then rev (sort_key occurred_key (filter (\<lambda>e. processing_basis_usd e < amount_usd e) receipts))
     else let positive = filter (\<lambda>e. 0 < processing_basis_usd e) receipts in
       sort_key occurred_key (filter (\<lambda>e. processing_ready_at e = None) positive)
       @ rev (sort_key occurred_key (filter (\<lambda>e. processing_ready_at e \<noteq> None) positive)))"

definition headroom :: "bool \<Rightarrow> funding_entry \<Rightarrow> int" where
  "headroom restore e =
     (if restore then amount_usd e - processing_basis_usd e else processing_basis_usd e)"

definition adjust_basis :: "bool \<Rightarrow> int \<Rightarrow> funding_entry \<Rightarrow> funding_entry" where
  "adjust_basis restore a e =
     e\<lparr>processing_basis_usd := processing_basis_usd e + (if restore then a else - a)\<rparr>"

text \<open>The loop over the receipts: the changed rows and the amount that found no headroom.\<close>

fun basis_loop :: "bool \<Rightarrow> int \<Rightarrow> funding_entry list \<Rightarrow> funding_entry list \<times> int" where
  "basis_loop restore amount [] = ([], amount)"
| "basis_loop restore amount (e # es) =
     (let adjustment = min amount (headroom restore e);
          e' = adjust_basis restore adjustment e;
          left = amount - adjustment
      in if left = 0 then ([e'], 0)
         else case basis_loop restore left es of (changed, rest) \<Rightarrow> (e' # changed, rest))"

definition bulk_update :: "funding_entry list \<Rightarrow> funding_entry list \<Rightarrow> funding_entry list" where
  "bulk_update changed es = fold (put_row entry_pk) changed es"

definition change_processing_basis :: "int \<Rightarrow> bool \<Rightarrow> db \<Rightarrow> finance_error + db" where
  "change_processing_basis amount restore d =
     (case basis_loop restore amount (basis_rows restore (entries d)) of (changed, left) \<Rightarrow>
        if left \<noteq> 0 then Inl No_matching_basis
        else Inr (d\<lparr>entries := bulk_update changed (entries d)\<rparr>))"

definition touch :: "time \<Rightarrow> db \<Rightarrow> db" where
  "touch now d = d\<lparr>treasury := (treasury d)\<lparr>treasury_updated_at := now\<rparr>\<rparr>"

definition find_reference :: "db \<Rightarrow> ustr \<Rightarrow> ustr \<Rightarrow> funding_entry option" where
  "find_reference d source reference =
     find (\<lambda>e. entry_source e = source \<and> entry_reference e = reference) (entries d)"

definition new_entry :: "db \<Rightarrow> entry_kind \<Rightarrow> int \<Rightarrow> int \<Rightarrow> ustr \<Rightarrow> ustr \<Rightarrow> time \<Rightarrow> funding_entry" where
  "new_entry d kind amount consumed source reference occurred =
     \<lparr>entry_pk = next_entry_pk d, entry_kind = kind, amount_usd = amount,
      reserve_consumed_usd = consumed, entry_source = source, entry_reference = reference,
      occurred_at = Some occurred,
      release_until = (if kind = Contribution then Some (one_month_after occurred) else None),
      processing_ready_at = None,
      processing_basis_usd = (if kind = Contribution then amount else 0)\<rparr>"

definition insert_entry :: "funding_entry \<Rightarrow> db \<Rightarrow> db" where
  "insert_entry e d = d\<lparr>entries := entries d @ [e], next_entry_pk := Suc (next_entry_pk d)\<rparr>"

text \<open>The admission rules for a new entry, and how much of it a provision covers.\<close>

definition consumed_by :: "entry_kind \<Rightarrow> int \<Rightarrow> int \<Rightarrow> int" where
  "consumed_by kind reserved amount = (if kind = Operating_expense then min reserved amount else 0)"

definition admission_error :: "entry_kind \<Rightarrow> int \<Rightarrow> int \<Rightarrow> int \<Rightarrow> finance_error option" where
  "admission_error kind amount reserved avail =
     (if kind = Operating_expense then
        (if amount - consumed_by kind reserved amount > avail then Some Expense_uses_allocated else None)
      else if kind = Operating_reserve \<and> avail < amount then Some Provision_uses_allocated
      else if kind = Operating_release \<and> reserved < amount then Some Release_exceeds_provision
      else None)"

definition change_basis_for :: "entry_kind \<Rightarrow> int \<Rightarrow> int \<Rightarrow> db \<Rightarrow> finance_error + db" where
  "change_basis_for kind amount consumed d =
     (if kind = Operating_reserve \<or> (kind = Operating_expense \<and> consumed < amount)
      then change_processing_basis (amount - consumed) False d
      else if kind = Operating_release then change_processing_basis amount True d
      else Inr d)"

text \<open>
  The part of \<^verbatim>\<open>_record\<close> under the treasury lock, for a validated amount and timestamp.
\<close>

definition record_locked ::
  "entry_kind \<Rightarrow> int \<Rightarrow> ustr \<Rightarrow> time \<Rightarrow> ustr \<Rightarrow> time \<Rightarrow> db \<Rightarrow> finance_error + funding_entry \<times> bool \<times> db" where
  "record_locked kind amount reference occurred source now d =
     (case find_reference d source reference of
        Some previous \<Rightarrow>
          if entry_kind previous \<noteq> kind \<or> amount_usd previous \<noteq> amount
             \<or> occurred_at previous \<noteq> Some occurred
          then Inl Reference_conflict else Inr (previous, False, d)
      | None \<Rightarrow>
          (case totals d now of (_, _, reserved) \<Rightarrow>
             let consumed = consumed_by kind reserved amount in
             (case admission_error kind amount reserved (available d now) of
                Some e \<Rightarrow> Inl e
              | None \<Rightarrow>
                  (case change_basis_for kind amount consumed d of
                     Inl e \<Rightarrow> Inl e
                   | Inr d' \<Rightarrow>
                       let e = new_entry d' kind amount consumed source reference occurred
                       in Inr (e, True, touch now (insert_entry e d'))))))"

definition record_entry ::
  "entry_kind \<Rightarrow> decimal \<Rightarrow> ustr \<Rightarrow> datetime_arg \<Rightarrow> ustr \<Rightarrow> time \<Rightarrow> time \<Rightarrow> db
     \<Rightarrow> finance_error + funding_entry \<times> bool \<times> db" where
  "record_entry kind amount reference occurred source checked_at now d =
     (case validate_entry amount reference occurred source checked_at of
        Inl e \<Rightarrow> Inl e
      | Inr _ \<Rightarrow> (case (amount, occurred) of
          (Finite q, Aware t) \<Rightarrow> record_locked kind (money q) reference t source now d
        | _ \<Rightarrow> Inl Invalid_amount))"

definition record_contribution ::
  "decimal \<Rightarrow> ustr \<Rightarrow> datetime_arg \<Rightarrow> ustr \<Rightarrow> time \<Rightarrow> time \<Rightarrow> db
     \<Rightarrow> finance_error + funding_entry \<times> bool \<times> db" where
  "record_contribution amount reference occurred source checked_at now d =
     record_entry Contribution amount reference occurred source checked_at now d"

definition operating_kind :: "ustr \<Rightarrow> entry_kind option" where
  "operating_kind kind = (if kind = ulit ''expense'' then Some Operating_expense
     else if kind = ulit ''reserve'' then Some Operating_reserve
     else if kind = ulit ''release'' then Some Operating_release else None)"

definition record_operating ::
  "ustr \<Rightarrow> decimal \<Rightarrow> ustr \<Rightarrow> datetime_arg \<Rightarrow> ustr \<Rightarrow> time \<Rightarrow> time \<Rightarrow> db
     \<Rightarrow> finance_error + funding_entry \<times> bool \<times> db" where
  "record_operating kind amount reference occurred source checked_at now d =
     (case operating_kind kind of None \<Rightarrow> Inl Unknown_operating_kind
      | Some k \<Rightarrow> record_entry k amount reference occurred source checked_at now d)"

section \<open>Eligibility, approval and distribution\<close>

text \<open>
  The e-mail table and the case-insensitive comparison \<^verbatim>\<open>email__iexact\<close> belong to the
  authentication package and the database; the comparison is the parameter \<open>iexact\<close>.
\<close>

definition eligible :: "(ustr \<Rightarrow> ustr \<Rightarrow> bool) \<Rightarrow> db \<Rightarrow> user_row \<Rightarrow> bool" where
  "eligible iexact d u \<longleftrightarrow> user_is_active u \<and> user_funded_access u \<and>
     (\<exists>e \<in> set (emails d). email_user e = user_pk u \<and> email_verified e \<and> email_primary e
        \<and> iexact (email_text e) (user_email u))"

definition eligible_users :: "(ustr \<Rightarrow> ustr \<Rightarrow> bool) \<Rightarrow> db \<Rightarrow> user_row list" where
  "eligible_users iexact d = filter (eligible iexact d) (users d)"

definition pending_receipt :: "funding_entry \<Rightarrow> bool" where
  "pending_receipt e \<longleftrightarrow> entry_kind e = Contribution \<and> processing_ready_at e = None"

text \<open>The number of rows the update changed, and the new database.\<close>

definition approve_locked :: "time \<Rightarrow> db \<Rightarrow> nat \<times> db" where
  "approve_locked now d = (length (filter pending_receipt (entries d)),
     d\<lparr>entries := map (\<lambda>e. if pending_receipt e then e\<lparr>processing_ready_at := Some now\<rparr> else e)
        (entries d)\<rparr>)"

definition approve_funding :: "time \<Rightarrow> db \<Rightarrow> nat \<times> db" where
  "approve_funding now d = (case approve_locked now d of (changed, d') \<Rightarrow>
     (changed, if changed \<noteq> 0 then touch now d' else d'))"

text \<open>The share of a receipt's processing basis that is released by the end of the week.\<close>

definition released_fraction :: "time \<Rightarrow> funding_entry \<Rightarrow> rat" where
  "released_fraction reset e = (case (occurred_at e, release_until e) of
     (Some t, Some u) \<Rightarrow> dec_div (total_seconds (min reset u - t)) (total_seconds (u - t))
   | _ \<Rightarrow> 0)"

text \<open>The loop over the receipts, oldest first.\<close>

fun add_released :: "time \<Rightarrow> rat \<Rightarrow> funding_entry list \<Rightarrow> rat" where
  "add_released reset gross [] = gross"
| "add_released reset gross (e # es) =
     add_released reset (dec_add gross
       (dec_mul (usd (processing_basis_usd e)) (max 0 (released_fraction reset e)))) es"

definition gross_released :: "time \<Rightarrow> time \<Rightarrow> funding_entry list \<Rightarrow> rat" where
  "gross_released now reset es =
     add_released reset 0 (sort_key occurred_key (filter (\<lambda>e. entry_kind e = Contribution \<and> counted now e) es))"

definition releasable :: "time \<Rightarrow> time \<Rightarrow> db \<Rightarrow> int" where
  "releasable now reset d =
     money (max 0 (min (usd (available d now))
        (dec_sub (dec_sub (gross_released now reset (entries d)) (usd (processing_spent (treasury d))))
           (usd (processing_reserved (treasury d))))))"

definition regular_users :: "(ustr \<Rightarrow> ustr \<Rightarrow> bool) \<Rightarrow> db \<Rightarrow> time \<Rightarrow> user_row list" where
  "regular_users iexact d start = sort_key user_pk (filter (\<lambda>u.
     (case hosted_requested_at u of None \<Rightarrow> False | Some t \<Rightarrow> t \<le> start) \<and>
     (case hosted_last_active_at u of None \<Rightarrow> False | Some t \<Rightarrow> start - 28 * day_us \<le> t))
     (eligible_users iexact d))"

text \<open>Four fifths for the regular population, in equal shares; one fifth for newcomers.\<close>

definition regular_share :: "int \<Rightarrow> nat \<Rightarrow> int" where
  "regular_share released n =
     (let regular = money (dec_mul (usd released) (8 / 10))
      in money (dec_div (usd regular) (of_nat (max 1 n))))"

definition newcomer_share :: "int \<Rightarrow> int" where
  "newcomer_share released = money (dec_mul (usd released) (2 / 10))"

definition new_quota :: "nat \<Rightarrow> nat \<Rightarrow> time \<Rightarrow> int \<Rightarrow> weekly_quota" where
  "new_quota pk user period amount = \<lparr>quota_pk = pk, quota_user = Some user, quota_period = period,
     allocated_usd = amount, used_usd = 0, reserved_usd = 0, quota_operations = 0\<rparr>"

fun number_quotas :: "nat \<Rightarrow> user_row list \<Rightarrow> time \<Rightarrow> int \<Rightarrow> weekly_quota list" where
  "number_quotas pk [] period share = []"
| "number_quotas pk (u # us) period share =
     new_quota pk (user_pk u) period share # number_quotas (Suc pk) us period share"

definition create_period :: "time \<Rightarrow> time \<Rightarrow> int \<Rightarrow> user_row list \<Rightarrow> funding_period" where
  "create_period start reset released us =
     \<lparr>period_start = start, period_reset_at = reset, released_usd = released,
      regular_share_usd = regular_share released (length us),
      newcomers_remaining_usd = newcomer_share released, population = length us\<rparr>"

definition distribute_locked ::
  "(ustr \<Rightarrow> ustr \<Rightarrow> bool) \<Rightarrow> time \<Rightarrow> db \<Rightarrow> funding_period option \<times> db" where
  "distribute_locked iexact now d = (case week_bounds now of (start, reset) \<Rightarrow>
     case get_row period_start (periods d) start of
       Some existing \<Rightarrow> (Some existing, d)
     | None \<Rightarrow>
         if (\<exists>e \<in> set (entries d). pending_receipt e) then (None, d)
         else if fst (totals d now) \<le> 0 then (None, d)
         else let released = releasable now reset d in
           if released \<le> 0 then (None, d)
           else let us = regular_users iexact d start;
                    p = create_period start reset released us
             in (Some p, touch now (d\<lparr>periods := periods d @ [p],
                   quotas := quotas d @ number_quotas (next_quota_pk d) us start (regular_share_usd p),
                   next_quota_pk := next_quota_pk d + length us\<rparr>)))"

definition distribute ::
  "(ustr \<Rightarrow> ustr \<Rightarrow> bool) \<Rightarrow> time \<Rightarrow> bool \<Rightarrow> db \<Rightarrow> funding_period option \<times> db" where
  "distribute iexact now confirm_operating_costs d =
     distribute_locked iexact now
       (if confirm_operating_costs then touch now (snd (approve_locked now d)) else d)"

section \<open>Granting a weekly quota\<close>

datatype allocation_status = Inactive | Unfunded | Available | Waiting

definition request_access :: "time \<Rightarrow> user_row \<Rightarrow> user_row" where
  "request_access now u =
     u\<lparr>hosted_requested_at := (case hosted_requested_at u of None \<Rightarrow> Some now | Some t \<Rightarrow> Some t),
       hosted_last_active_at := Some now\<rparr>"

definition find_quota :: "db \<Rightarrow> nat \<Rightarrow> time \<Rightarrow> weekly_quota option" where
  "find_quota d user start = find (\<lambda>q. quota_user q = Some user \<and> quota_period q = start) (quotas d)"

definition newcomer_amount :: "funding_period \<Rightarrow> time \<Rightarrow> int" where
  "newcomer_amount p now =
     (let remaining = dec_div (total_seconds (period_reset_at p - now)) 604800
      in money (min (usd (newcomers_remaining_usd p)) (dec_mul (usd (regular_share_usd p)) remaining)))"

definition grant_newcomer :: "nat \<Rightarrow> funding_period \<Rightarrow> int \<Rightarrow> time \<Rightarrow> db \<Rightarrow> weekly_quota \<times> funding_period \<times> db" where
  "grant_newcomer user p amount now d =
     (let q = new_quota (next_quota_pk d) user (period_start p) amount;
          p' = p\<lparr>newcomers_remaining_usd := newcomers_remaining_usd p - amount\<rparr>
      in (q, p', touch now (d\<lparr>quotas := quotas d @ [q], next_quota_pk := Suc (next_quota_pk d),
            periods := put_row period_start p' (periods d)\<rparr>)))"

definition quota_status :: "weekly_quota option \<Rightarrow> allocation_status" where
  "quota_status q = (case q of Some r \<Rightarrow> if 0 < allocated_usd r then Available else Waiting
     | None \<Rightarrow> Waiting)"

definition quota_locked ::
  "(ustr \<Rightarrow> ustr \<Rightarrow> bool) \<Rightarrow> nat \<Rightarrow> time \<Rightarrow> db
     \<Rightarrow> weekly_quota option \<times> funding_period option \<times> allocation_status \<times> db" where
  "quota_locked iexact user now d =
     (case find (\<lambda>u. user_pk u = user) (eligible_users iexact d) of
        None \<Rightarrow> (None, None, Inactive, d)
      | Some u \<Rightarrow>
          let owner = request_access now u;
              d1 = d\<lparr>users := put_row user_pk owner (users d)\<rparr>
          in (case distribute_locked iexact now d1 of
                (None, d2) \<Rightarrow> (None, None, Unfunded, d2)
              | (Some p, d2) \<Rightarrow>
                  (case find_quota d2 user (period_start p) of
                     Some q \<Rightarrow> (Some q, Some p, quota_status (Some q), d2)
                   | None \<Rightarrow>
                       if (case hosted_requested_at owner of None \<Rightarrow> False
                             | Some t \<Rightarrow> period_start p < t)
                          \<and> 0 < newcomer_amount p now
                       then (case grant_newcomer user p (newcomer_amount p now) now d2 of
                               (q, p', d3) \<Rightarrow> (Some q, Some p', quota_status (Some q), d3))
                       else (None, Some p, quota_status None, d2))))"

end
