(* ===== verification/Funding_Safety.thy ===== *)
theory Funding_Safety
  imports Funding "HOL-Library.Multiset"
begin

text \<open>
  The laws of the funding component: the books balance (the processing basis of the receipts is
  exactly the received cash that operating entries have not taken), the service stays solvent
  (cash covers every charge, reservation, weekly grant and newcomer pool), and each operation of
  \<^verbatim>\<open>funding.py\<close> keeps both.
\<close>

section \<open>Well-formed books\<close>

definition entry_ok :: "time \<Rightarrow> funding_entry \<Rightarrow> bool" where
  "entry_ok T e \<longleftrightarrow> 0 < amount_usd e
     \<and> 0 \<le> processing_basis_usd e \<and> processing_basis_usd e \<le> amount_usd e
     \<and> (entry_kind e \<noteq> Contribution \<longrightarrow> processing_basis_usd e = 0)
     \<and> (entry_kind e \<noteq> Operating_expense \<longrightarrow> reserve_consumed_usd e = 0)
     \<and> (entry_kind e \<noteq> Historical_processing_cost \<longrightarrow> (\<exists>t \<le> T. occurred_at e = Some t))"

definition period_ok :: "funding_period \<Rightarrow> bool" where
  "period_ok p \<longleftrightarrow> 0 \<le> newcomers_remaining_usd p \<and> 0 \<le> regular_share_usd p
     \<and> period_reset_at p = period_start p + week_us"

definition quota_ok :: "weekly_quota \<Rightarrow> bool" where
  "quota_ok q \<longleftrightarrow> 0 \<le> used_usd q \<and> 0 \<le> reserved_usd q \<and> used_usd q + reserved_usd q \<le> allocated_usd q"

definition fund_wf :: "db \<Rightarrow> time \<Rightarrow> bool" where
  "fund_wf d T \<longleftrightarrow> keyed entry_pk (entries d) \<and> keyed period_start (periods d)
     \<and> keyed quota_pk (quotas d)
     \<and> (\<forall>e \<in> set (entries d). entry_ok T e \<and> entry_pk e < next_entry_pk d)
     \<and> (\<forall>p \<in> set (periods d). period_ok p)
     \<and> (\<forall>q \<in> set (quotas d). quota_ok q \<and> quota_pk q < next_quota_pk d
          \<and> quota_period q \<in> period_start ` set (periods d))"

definition operating_left :: "db \<Rightarrow> time \<Rightarrow> int" where
  "operating_left d now = (case totals d now of (received, spent, reserved) \<Rightarrow> received - spent - reserved)"

definition basis_total :: "db \<Rightarrow> int" where
  "basis_total d = row_sum processing_basis_usd (entries d)"

definition provision :: "db \<Rightarrow> time \<Rightarrow> int" where
  "provision d now = snd (snd (totals d now))"

definition books_balance :: "db \<Rightarrow> time \<Rightarrow> bool" where
  "books_balance d now \<longleftrightarrow> basis_total d = operating_left d now \<and> 0 \<le> provision d now
     \<and> 0 \<le> kind_total d now Operating_expense"

definition solvent :: "db \<Rightarrow> time \<Rightarrow> bool" where
  "solvent d now \<longleftrightarrow> 0 \<le> available d now"

definition fund_inv :: "db \<Rightarrow> time \<Rightarrow> bool" where
  "fund_inv d T \<longleftrightarrow> fund_wf d T \<and> books_balance d T \<and> solvent d T
     \<and> 0 \<le> processing_spent (treasury d) \<and> 0 \<le> processing_reserved (treasury d)"

lemmas fund_defs = fund_inv_def fund_wf_def books_balance_def solvent_def

section \<open>Sums over permuted and stripped rows\<close>

lemma row_sum_mset: "mset xs = mset ys \<Longrightarrow> row_sum w xs = row_sum w ys"
  unfolding row_sum_def by (metis mset_map sum_mset_sum_list)

lemma row_sum_rev [simp]: "row_sum w (rev xs) = row_sum w xs"
  by (rule row_sum_mset) simp

lemma row_sum_sort [simp]: "row_sum w (sort_key f xs) = row_sum w xs"
  by (rule row_sum_mset) simp

lemma row_sum_filter: "row_sum w (filter P xs) = row_sum (\<lambda>x. if P x then w x else 0) xs"
  by (induction xs) auto

lemma row_sum_minus: "row_sum (\<lambda>r. v r - w r) t = row_sum v t - row_sum w t"
  by (induction t) auto

text \<open>Everything of an entry but its basis, the one field the basis loop writes.\<close>

definition strip :: "funding_entry \<Rightarrow> funding_entry" where
  "strip e = e\<lparr>processing_basis_usd := 0\<rparr>"

lemma strip_fields:
  "strip a = strip b \<Longrightarrow> entry_pk a = entry_pk b \<and> entry_kind a = entry_kind b
     \<and> amount_usd a = amount_usd b \<and> reserve_consumed_usd a = reserve_consumed_usd b
     \<and> occurred_at a = occurred_at b \<and> release_until a = release_until b
     \<and> entry_source a = entry_source b \<and> entry_reference a = entry_reference b"
  by (cases a; cases b) (simp add: strip_def)

lemma row_sum_strip:
  assumes "map strip s = map strip t" and "\<And>a b. strip a = strip b \<Longrightarrow> w a = w b"
  shows "row_sum w s = row_sum w t"
  using assms(1)
proof (induction s arbitrary: t)
  case (Cons a s)
  then obtain b u where "t = b # u" "strip a = strip b" "map strip s = map strip u"
    by (cases t) auto
  then show ?case using Cons.IH [of u] assms(2) [of a b] by simp
qed simp

lemma kind_total_strip:
  "map strip (entries d') = map strip (entries d) \<Longrightarrow> kind_total d' now k = kind_total d now k"
  unfolding kind_total_def by (erule row_sum_strip) (drule strip_fields, simp add: counted_def)

lemma consumed_total_strip:
  "map strip (entries d') = map strip (entries d) \<Longrightarrow> consumed_total d' now = consumed_total d now"
  unfolding consumed_total_def by (erule row_sum_strip) (drule strip_fields, simp add: counted_def)

lemma totals_strip:
  assumes "map strip (entries d') = map strip (entries d)"
  shows "totals d' now = totals d now"
  unfolding totals_def kind_total_strip [OF assms] consumed_total_strip [OF assms] ..

section \<open>The basis loop\<close>

lemma strip_adjust [simp]: "strip (adjust_basis r a e) = strip e"
  by (simp add: strip_def adjust_basis_def)

lemma pk_adjust [simp]: "entry_pk (adjust_basis r a e) = entry_pk e"
  by (simp add: adjust_basis_def)

lemma basis_adjust [simp]:
  "processing_basis_usd (adjust_basis r a e) = processing_basis_usd e + (if r then a else - a)"
  by (simp add: adjust_basis_def)

lemma basis_loop_left:
  "0 \<le> amount \<Longrightarrow> (\<And>e. e \<in> set es \<Longrightarrow> 0 \<le> headroom r e) \<Longrightarrow>
     snd (basis_loop r amount es) = max 0 (amount - row_sum (headroom r) es)"
proof (induction es arbitrary: amount)
  case (Cons e es)
  let ?a = "min amount (headroom r e)"
  have nn: "0 \<le> row_sum (headroom r) es" "0 \<le> headroom r e" "0 \<le> amount - ?a"
    using Cons.prems by (auto intro: row_sum_nonneg)
  have ih: "snd (basis_loop r (amount - ?a) es) = max 0 (amount - ?a - row_sum (headroom r) es)"
    using Cons nn by auto
  show ?case
  proof (cases "amount - ?a = 0")
    case True
    then show ?thesis using nn by (simp add: Let_def)
  next
    case False
    then have a: "?a = headroom r e" by auto
    obtain ch lf where bl: "basis_loop r (amount - headroom r e) es = (ch, lf)" by fastforce
    have "lf = max 0 (amount - headroom r e - row_sum (headroom r) es)" using ih bl a by simp
    then show ?thesis using bl False unfolding a by (simp add: Let_def a algebra_simps)
  qed
qed simp

lemma basis_loop_update:
  assumes "keyed entry_pk t" "distinct (map entry_pk es)"
    and "\<And>e. e \<in> set es \<Longrightarrow> get_row entry_pk t (entry_pk e) = Some e"
    and "basis_loop r amount es = (changed, left)"
  shows "map strip (bulk_update changed t) = map strip t
    \<and> row_sum processing_basis_usd (bulk_update changed t)
        = row_sum processing_basis_usd t + (if r then amount - left else left - amount)"
  using assms
proof (induction es arbitrary: t amount changed left)
  case Nil
  then show ?case by (auto simp: bulk_update_def)
next
  case (Cons e es)
  let ?a = "min amount (headroom r e)"
  let ?e = "adjust_basis r ?a e"
  let ?t = "put_row entry_pk ?e t"
  have ge: "get_row entry_pk t (entry_pk ?e) = Some e" using Cons.prems(3) by simp
  have sum: "row_sum processing_basis_usd ?t
      = row_sum processing_basis_usd t + (if r then ?a else - ?a)"
    using row_sum_put_row [OF Cons.prems(1) ge, of processing_basis_usd] by simp
  have strp: "map strip ?t = map strip t"
  proof -
    have "x \<in> set t \<Longrightarrow> entry_pk x = entry_pk e \<Longrightarrow> strip x = strip e" for x
      using get_row_keyed [OF Cons.prems(1), of x] ge by simp
    then show ?thesis by (auto simp: put_row_def)
  qed
  show ?case
  proof (cases "amount - ?a = 0")
    case True
    with Cons.prems(4) have "changed = [?e]" "left = 0" by (auto simp: Let_def)
    moreover have "?a = amount" using True by simp
    ultimately show ?thesis using sum strp by (cases r) (simp_all add: bulk_update_def)
  next
    case False
    then obtain ch where ch: "basis_loop r (amount - ?a) es = (ch, left)" "changed = ?e # ch"
      using Cons.prems(4) by (auto simp: Let_def split: prod.splits if_splits)
    have "map strip (bulk_update ch ?t) = map strip ?t
      \<and> row_sum processing_basis_usd (bulk_update ch ?t) = row_sum processing_basis_usd ?t
          + (if r then amount - ?a - left else left - (amount - ?a))"
    proof (rule Cons.IH [OF _ _ _ ch(1)])
      fix x assume "x \<in> set es"
      then have "entry_pk x \<noteq> entry_pk e" using Cons.prems(2) by (metis distinct.simps(2) image_eqI list.set_map list.simps(9))
      then show "get_row entry_pk ?t (entry_pk x) = Some x"
        using Cons.prems(3) \<open>x \<in> set es\<close> by (simp add: get_put_row)
    qed (use Cons.prems in auto)
    then show ?thesis using ch(2) sum strp by (auto simp: bulk_update_def)
  qed
qed

lemma basis_loop_bounds:
  "0 \<le> amount \<Longrightarrow> (\<And>e. e \<in> set es \<Longrightarrow> 0 \<le> processing_basis_usd e \<and> processing_basis_usd e \<le> amount_usd e) \<Longrightarrow>
     c \<in> set (fst (basis_loop r amount es)) \<Longrightarrow>
     (\<exists>e \<in> set es. strip c = strip e) \<and> 0 \<le> processing_basis_usd c \<and> processing_basis_usd c \<le> amount_usd c"
proof (induction es arbitrary: amount)
  case (Cons e es)
  let ?a = "min amount (headroom r e)"
  have e: "0 \<le> processing_basis_usd e" "processing_basis_usd e \<le> amount_usd e"
    using Cons.prems(2) by auto
  show ?case
  proof (cases "c = adjust_basis r ?a e")
    case True
    have "amount_usd c = amount_usd e" using True by (simp add: adjust_basis_def)
    then show ?thesis using True Cons.prems(1) e by (auto simp: headroom_def)
  next
    case False
    then have "amount - ?a \<noteq> 0" "c \<in> set (fst (basis_loop r (amount - ?a) es))"
      using Cons.prems(3) by (auto simp: Let_def split: prod.splits if_splits)
    moreover have "0 \<le> amount - ?a" by simp
    ultimately show ?thesis using Cons.IH [of "amount - ?a"] Cons.prems(2) by auto
  qed
qed simp

lemma set_basis_rows:
  "set (basis_rows r es) = {e \<in> set es. entry_kind e = Contribution \<and>
     (if r then processing_basis_usd e < amount_usd e else 0 < processing_basis_usd e)}"
  by (auto simp: basis_rows_def Let_def)

lemma distinct_basis_rows:
  assumes "keyed entry_pk es"
  shows "distinct (map entry_pk (basis_rows r es))"
proof -
  have f: "distinct (map entry_pk (filter P es))" for P using assms by (rule distinct_map_filter)
  have s: "distinct (map entry_pk (sort_key occurred_key xs)) \<longleftrightarrow> distinct (map entry_pk xs)"
    "distinct (map entry_pk (rev xs)) \<longleftrightarrow> distinct (map entry_pk xs)" for xs
    by (rule mset_eq_imp_distinct_iff; simp)+
  have ff: "filter Q (filter P es) = filter (\<lambda>x. P x \<and> Q x) es" for P Q by simp
  have inj: "inj_on entry_pk (set es)" using assms by (simp add: distinct_map)
  have app: "distinct (map entry_pk (xs @ ys)) \<longleftrightarrow> distinct (map entry_pk xs)
      \<and> distinct (map entry_pk ys) \<and> entry_pk ` set xs \<inter> entry_pk ` set ys = {}" for xs ys by simp
  show ?thesis
    unfolding basis_rows_def Let_def ff
    using f by (simp only: s app split: if_split) (auto dest: inj_onD [OF inj])
qed

lemma row_sum_basis_rows:
  assumes "\<And>e. e \<in> set es \<Longrightarrow> 0 \<le> processing_basis_usd e \<and> processing_basis_usd e \<le> amount_usd e"
  shows "row_sum (headroom r) (basis_rows r es)
    = row_sum (\<lambda>e. if entry_kind e = Contribution then headroom r e else 0) es"
proof -
  have split: "row_sum w (filter P xs) + row_sum w (filter (\<lambda>x. \<not> P x) xs) = row_sum w xs"
    for w :: "funding_entry \<Rightarrow> int" and P xs by (induction xs) auto
  show ?thesis
  proof (cases r)
    case True
    then show ?thesis using assms
      by (fastforce simp: basis_rows_def Let_def row_sum_filter headroom_def intro!: row_sum_cong)
  next
    case False
    have "row_sum (headroom r) (basis_rows r es)
      = row_sum (headroom r) (filter (\<lambda>e. 0 < processing_basis_usd e) (filter (\<lambda>e. entry_kind e = Contribution) es))"
      using False split [of "headroom r" "\<lambda>e. processing_ready_at e = None"]
      by (simp add: basis_rows_def Let_def del: filter_filter)
    also have "\<dots> = row_sum (\<lambda>e. if entry_kind e = Contribution then headroom r e else 0) es"
      using False assms
      by (fastforce simp: row_sum_filter headroom_def intro!: row_sum_cong)
    finally show ?thesis .
  qed
qed

section \<open>Time passes\<close>

lemma entry_ok_later: "entry_ok T e \<Longrightarrow> T \<le> T' \<Longrightarrow> entry_ok T' e"
  by (auto simp: entry_ok_def intro: order_trans)

lemma counted_later:
  assumes "entry_ok T e" "T \<le> T'" "entry_kind e \<noteq> Historical_processing_cost"
  shows "counted T' e \<and> counted T e"
  using assms by (auto simp: entry_ok_def counted_def)

lemma kind_total_later:
  assumes "fund_wf d T" "T \<le> T'" "k \<noteq> Historical_processing_cost"
  shows "kind_total d T' k = kind_total d T k"
  unfolding kind_total_def using assms
  by (intro row_sum_cong) (auto simp: fund_wf_def dest: counted_later)

lemma consumed_later:
  assumes "fund_wf d T" "T \<le> T'"
  shows "consumed_total d T' = consumed_total d T"
proof -
  have "(if counted T' e then reserve_consumed_usd e else 0) = (if counted T e then reserve_consumed_usd e else 0)"
    if "e \<in> set (entries d)" for e
  proof (cases "entry_kind e = Operating_expense")
    case True
    then show ?thesis using assms that counted_later [of T e T'] by (auto simp: fund_wf_def)
  next
    case False
    then show ?thesis using assms that by (auto simp: fund_wf_def entry_ok_def)
  qed
  then show ?thesis unfolding consumed_total_def by (rule row_sum_cong)
qed

lemma totals_later:
  assumes "fund_wf d T" "T \<le> T'"
  shows "totals d T' = totals d T"
  using kind_total_later [OF assms] consumed_later [OF assms] by (simp add: totals_def)

lemma quota_active_later: "quota_active d T' q \<Longrightarrow> T \<le> T' \<Longrightarrow> quota_active d T q"
  by (auto simp: quota_active_def split: option.splits)

lemma commitments_later:
  assumes "fund_wf d T" "T \<le> T'"
  shows "fst (commitments d T') \<le> fst (commitments d T)" "snd (commitments d T') \<le> snd (commitments d T)"
proof -
  have q: "(if quota_active d T' q then allocated_usd q - used_usd q - reserved_usd q else 0)
      \<le> (if quota_active d T q then allocated_usd q - used_usd q - reserved_usd q else 0)"
    if "q \<in> set (quotas d)" for q
    using assms that quota_active_later [of d T' q T] by (auto simp: fund_wf_def quota_ok_def)
  have p: "(if T' < period_reset_at x then newcomers_remaining_usd x else 0)
      \<le> (if T < period_reset_at x then newcomers_remaining_usd x else 0)"
    if "x \<in> set (periods d)" for x
    using assms that by (auto simp: fund_wf_def period_ok_def)
  show "fst (commitments d T') \<le> fst (commitments d T)"
    unfolding commitments_def fst_conv by (rule row_sum_mono) (rule q)
  show "snd (commitments d T') \<le> snd (commitments d T)"
    unfolding commitments_def snd_conv by (rule row_sum_mono) (rule p)
qed

lemma available_eq:
  "available d now = operating_left d now - processing_spent (treasury d)
     - processing_reserved (treasury d) - fst (commitments d now) - snd (commitments d now)"
  by (simp add: available_def operating_left_def split: prod.splits)

lemma available_later:
  assumes "fund_wf d T" "T \<le> T'"
  shows "available d T \<le> available d T'"
  using commitments_later [OF assms] totals_later [OF assms]
  by (simp add: available_eq operating_left_def)

lemma fund_wf_later: "fund_wf d T \<Longrightarrow> T \<le> T' \<Longrightarrow> fund_wf d T'"
  unfolding fund_wf_def by (blast intro: entry_ok_later)

lemma fund_inv_later:
  assumes "fund_inv d T" "T \<le> T'"
  shows "fund_inv d T'"
proof -
  have wf: "fund_wf d T" using assms by (simp add: fund_inv_def)
  have "books_balance d T'"
    using assms totals_later [OF wf assms(2)] kind_total_later [OF wf assms(2), of Operating_expense]
    by (simp add: fund_inv_def books_balance_def operating_left_def provision_def)
  moreover have "solvent d T'"
    using assms available_later [OF wf assms(2)] by (simp add: fund_inv_def solvent_def)
  ultimately show ?thesis using assms fund_wf_later [OF wf assms(2)] by (simp add: fund_inv_def)
qed

lemma commitments_nonneg:
  assumes "fund_wf d T"
  shows "0 \<le> fst (commitments d now)" "0 \<le> snd (commitments d now)"
  using assms unfolding commitments_def fst_conv snd_conv
  by (auto intro!: row_sum_nonneg simp: fund_wf_def quota_ok_def period_ok_def)

section \<open>Recording cash keeps the books\<close>

lemma bulk_update_set: "set (bulk_update ch t) \<subseteq> set ch \<union> set t"
  unfolding bulk_update_def
proof (induction ch arbitrary: t)
  case (Cons c ch)
  then show ?case using set_put_row_sub [of entry_pk c t] by fastforce
qed simp

lemma change_basis_ok:
  assumes wf: "fund_wf d T" and a: "0 \<le> amount"
    and ch: "change_processing_basis amount r d = Inr d'"
  shows "map strip (entries d') = map strip (entries d)"
    and "basis_total d' = basis_total d + (if r then amount else - amount)"
    and "\<exists>es. d' = d\<lparr>entries := es\<rparr>"
    and "\<forall>e \<in> set (entries d'). entry_ok T e"
proof -
  obtain changed where bl: "basis_loop r amount (basis_rows r (entries d)) = (changed, 0)"
    and d': "d' = d\<lparr>entries := bulk_update changed (entries d)\<rparr>"
    using ch by (auto simp: change_processing_basis_def split: prod.splits if_splits)
  have keyed: "keyed entry_pk (entries d)" and ok: "\<And>e. e \<in> set (entries d) \<Longrightarrow> entry_ok T e"
    using wf by (auto simp: fund_wf_def)
  have upd: "map strip (bulk_update changed (entries d)) = map strip (entries d)
    \<and> row_sum processing_basis_usd (bulk_update changed (entries d))
        = row_sum processing_basis_usd (entries d) + (if r then amount - 0 else 0 - amount)"
    by (rule basis_loop_update [OF keyed distinct_basis_rows [OF keyed] _ bl])
      (auto simp: set_basis_rows get_row_keyed [OF keyed])
  then show "map strip (entries d') = map strip (entries d)"
    and "basis_total d' = basis_total d + (if r then amount else - amount)"
    and "\<exists>es. d' = d\<lparr>entries := es\<rparr>"
    by (auto simp: d' basis_total_def)
  have c_ok: "entry_ok T c" if "c \<in> set changed" for c
  proof -
    have "(\<exists>e \<in> set (basis_rows r (entries d)). strip c = strip e)
        \<and> 0 \<le> processing_basis_usd c \<and> processing_basis_usd c \<le> amount_usd c"
      by (rule basis_loop_bounds [OF a, where es = "basis_rows r (entries d)" and r = r])
        (use bl that ok in \<open>auto simp: set_basis_rows entry_ok_def\<close>)
    then obtain e where e: "e \<in> set (basis_rows r (entries d))" "strip c = strip e"
      "0 \<le> processing_basis_usd c" "processing_basis_usd c \<le> amount_usd c" by blast
    then have "e \<in> set (entries d)" "entry_kind e = Contribution" by (auto simp: set_basis_rows)
    then show ?thesis using ok [of e] e strip_fields [OF e(2)] by (auto simp: entry_ok_def)
  qed
  show "\<forall>e \<in> set (entries d'). entry_ok T e"
    using bulk_update_set [of changed "entries d"] c_ok ok by (auto simp: d')
qed

lemma change_basis_succeeds:
  assumes wf: "fund_wf d T" and a: "0 \<le> amount"
    and room: "amount \<le> row_sum (\<lambda>e. if entry_kind e = Contribution then headroom r e else 0) (entries d)"
  shows "\<exists>d'. change_processing_basis amount r d = Inr d'"
proof -
  have ok: "0 \<le> processing_basis_usd e \<and> processing_basis_usd e \<le> amount_usd e"
    if "e \<in> set (entries d)" for e using wf that by (auto simp: fund_wf_def entry_ok_def)
  have "snd (basis_loop r amount (basis_rows r (entries d)))
      = max 0 (amount - row_sum (headroom r) (basis_rows r (entries d)))"
    by (rule basis_loop_left [OF a]) (use ok in \<open>auto simp: set_basis_rows headroom_def\<close>)
  also have "\<dots> = 0" using room row_sum_basis_rows [of "entries d" r, OF ok] by simp
  finally show ?thesis by (auto simp: change_processing_basis_def split: prod.splits)
qed

lemma headroom_sums:
  assumes "fund_wf d T"
  shows "row_sum (\<lambda>e. if entry_kind e = Contribution then headroom False e else 0) (entries d) = basis_total d"
    and "row_sum (\<lambda>e. if entry_kind e = Contribution then headroom True e else 0) (entries d)
      = kind_total d T Contribution - basis_total d"
proof -
  have ok: "entry_ok T e" if "e \<in> set (entries d)" for e using assms that by (auto simp: fund_wf_def)
  show "row_sum (\<lambda>e. if entry_kind e = Contribution then headroom False e else 0) (entries d) = basis_total d"
    unfolding basis_total_def using ok
    by (intro row_sum_cong) (auto simp: headroom_def entry_ok_def)
  show "row_sum (\<lambda>e. if entry_kind e = Contribution then headroom True e else 0) (entries d)
      = kind_total d T Contribution - basis_total d"
    unfolding basis_total_def kind_total_def row_sum_minus [symmetric] using ok
    by (intro row_sum_cong) (fastforce simp: headroom_def entry_ok_def counted_def)
qed

lemma totals_insert:
  assumes "counted now e"
  shows "totals (insert_entry e d) now = (case totals d now of (r, s, v) \<Rightarrow>
     (r + (if entry_kind e = Contribution then amount_usd e else 0),
      s + (if entry_kind e = Operating_expense then amount_usd e else 0),
      v + (if entry_kind e = Operating_reserve then amount_usd e else 0)
        - (if entry_kind e = Operating_release then amount_usd e else 0) - reserve_consumed_usd e))"
  using assms by (simp add: totals_def kind_total_def consumed_total_def insert_entry_def)

lemma totals_touch [simp]: "totals (touch t d) now = totals d now"
  by (simp add: totals_def kind_total_def consumed_total_def touch_def)

lemma commitments_frame:
  "periods d' = periods d \<Longrightarrow> quotas d' = quotas d \<Longrightarrow> commitments d' now = commitments d now"
  by (simp add: commitments_def quota_active_def)

lemma touch_frame [simp]:
  "entries (touch t d) = entries d" "periods (touch t d) = periods d" "quotas (touch t d) = quotas d"
  "next_entry_pk (touch t d) = next_entry_pk d" "next_quota_pk (touch t d) = next_quota_pk d"
  "processing_spent (treasury (touch t d)) = processing_spent (treasury d)"
  "processing_reserved (treasury (touch t d)) = processing_reserved (treasury d)"
  "operations (touch t d) = operations d" "budgets (touch t d) = budgets d"
  "allowances (touch t d) = allowances d" "users (touch t d) = users d" "emails (touch t d) = emails d"
  "next_operation_pk (touch t d) = next_operation_pk d"
  by (simp_all add: touch_def)

lemma insert_frame [simp]:
  "entries (insert_entry e d) = entries d @ [e]" "periods (insert_entry e d) = periods d"
  "quotas (insert_entry e d) = quotas d" "next_entry_pk (insert_entry e d) = Suc (next_entry_pk d)"
  "next_quota_pk (insert_entry e d) = next_quota_pk d" "treasury (insert_entry e d) = treasury d"
  by (simp_all add: insert_entry_def)

lemma commitments_touch [simp]: "commitments (touch t d) now = commitments d now"
  by (rule commitments_frame) simp_all

lemma commitments_insert [simp]: "commitments (insert_entry e d) now = commitments d now"
  by (rule commitments_frame) simp_all

lemma new_entry_fields [simp]:
  "entry_kind (new_entry d k a c s r t) = k" "amount_usd (new_entry d k a c s r t) = a"
  "reserve_consumed_usd (new_entry d k a c s r t) = c" "occurred_at (new_entry d k a c s r t) = Some t"
  "entry_pk (new_entry d k a c s r t) = next_entry_pk d"
  "processing_basis_usd (new_entry d k a c s r t) = (if k = Contribution then a else 0)"
  by (simp_all add: new_entry_def)

text \<open>How an operating entry moves the basis and the provision.\<close>

definition basis_delta :: "entry_kind \<Rightarrow> int \<Rightarrow> int \<Rightarrow> int" where
  "basis_delta kind amount consumed =
     (if kind = Contribution then amount
      else if kind = Operating_reserve \<or> kind = Operating_expense then consumed - amount
      else if kind = Operating_release then amount else 0)"

lemma change_basis_for_ok:
  assumes wf: "fund_wf d T" and c: "consumed \<le> amount" "0 < amount"
    and cz: "kind \<noteq> Operating_expense \<longrightarrow> consumed = 0"
    and ch: "change_basis_for kind amount consumed d = Inr d'"
  shows "map strip (entries d') = map strip (entries d)"
    and "basis_total d' + (if kind = Contribution then amount else 0)
           = basis_total d + basis_delta kind amount consumed"
    and "\<exists>es. d' = d\<lparr>entries := es\<rparr>"
    and "\<forall>e \<in> set (entries d'). entry_ok T e"
proof -
  consider (take) "kind = Operating_reserve \<or> (kind = Operating_expense \<and> consumed < amount)"
      "change_processing_basis (amount - consumed) False d = Inr d'"
    | (give) "kind = Operating_release" "change_processing_basis amount True d = Inr d'"
    | (none) "kind \<noteq> Operating_reserve" "kind \<noteq> Operating_release"
        "kind = Operating_expense \<Longrightarrow> consumed = amount" "d' = d"
    using ch c by (auto simp: change_basis_for_def split: if_splits)
  then show "map strip (entries d') = map strip (entries d)"
    and "basis_total d' + (if kind = Contribution then amount else 0)
           = basis_total d + basis_delta kind amount consumed"
    and "\<exists>es. d' = d\<lparr>entries := es\<rparr>"
    and "\<forall>e \<in> set (entries d'). entry_ok T e"
  proof (atomize (full), cases)
    case take
    have "0 \<le> amount - consumed" using c by simp
    from change_basis_ok [OF wf this take(2)] take(1) cz
    show "(map strip (entries d') = map strip (entries d) \<and>
      basis_total d' + (if kind = Contribution then amount else 0)
        = basis_total d + basis_delta kind amount consumed) \<and>
      (\<exists>es. d' = d\<lparr>entries := es\<rparr>) \<and> (\<forall>e \<in> set (entries d'). entry_ok T e)"
      by (auto simp: basis_delta_def)
  next
    case give
    have "0 \<le> amount" using c by simp
    from change_basis_ok [OF wf this give(2)] give(1) cz
    show "(map strip (entries d') = map strip (entries d) \<and>
      basis_total d' + (if kind = Contribution then amount else 0)
        = basis_total d + basis_delta kind amount consumed) \<and>
      (\<exists>es. d' = d\<lparr>entries := es\<rparr>) \<and> (\<forall>e \<in> set (entries d'). entry_ok T e)"
      by (auto simp: basis_delta_def)
  next
    case none
    have "\<exists>es. d = d\<lparr>entries := es\<rparr>" by (rule exI [of _ "entries d"]) simp
    then show "(map strip (entries d') = map strip (entries d) \<and>
      basis_total d' + (if kind = Contribution then amount else 0)
        = basis_total d + basis_delta kind amount consumed) \<and>
      (\<exists>es. d' = d\<lparr>entries := es\<rparr>) \<and> (\<forall>e \<in> set (entries d'). entry_ok T e)"
      using none wf by (auto simp: basis_delta_def fund_wf_def)
  qed
qed

lemma record_locked_eq:
  "record_locked kind amount reference occurred source now d =
     (case find_reference d source reference of
        Some previous \<Rightarrow>
          if entry_kind previous \<noteq> kind \<or> amount_usd previous \<noteq> amount
             \<or> occurred_at previous \<noteq> Some occurred
          then Inl Reference_conflict else Inr (previous, False, d)
      | None \<Rightarrow>
          (case admission_error kind amount (provision d now) (available d now) of
             Some e \<Rightarrow> Inl e
           | None \<Rightarrow>
               (case change_basis_for kind amount (consumed_by kind (provision d now) amount) d of
                  Inl e \<Rightarrow> Inl e
                | Inr d' \<Rightarrow>
                    let e = new_entry d' kind amount (consumed_by kind (provision d now) amount)
                      source reference occurred
                    in Inr (e, True, touch now (insert_entry e d')))))"
proof -
  obtain r s v where tot: "totals d now = (r, s, v)" by (cases "totals d now")
  have p: "provision d now = v" by (simp add: provision_def tot)
  show ?thesis unfolding record_locked_def p tot prod.case Let_def ..
qed

text \<open>What \<^verbatim>\<open>record_locked\<close> did when it created an entry.\<close>

lemma record_created:
  assumes "record_locked kind amount reference occurred source now d = Inr (e, True, d')"
  obtains d1 consumed where
    "consumed = consumed_by kind (provision d now) amount"
    "admission_error kind amount (provision d now) (available d now) = None"
    "change_basis_for kind amount consumed d = Inr d1"
    "e = new_entry d1 kind amount consumed source reference occurred"
    "d' = touch now (insert_entry e d1)"
    "find_reference d source reference = None"
  using assms
  by (auto simp: record_locked_def provision_def Let_def split: option.splits prod.splits if_splits sum.splits)

lemma consumed_by_bounds:
  "0 < amount \<Longrightarrow> 0 \<le> reserved \<Longrightarrow>
     0 \<le> consumed_by kind reserved amount \<and> consumed_by kind reserved amount \<le> amount
     \<and> consumed_by kind reserved amount \<le> reserved \<and> (kind \<noteq> Operating_expense \<longrightarrow> consumed_by kind reserved amount = 0)"
  by (auto simp: consumed_by_def)

lemma record_created_inv:
  assumes inv: "fund_inv d now" and a: "0 < amount" and t: "occurred \<le> now"
    and k: "kind \<in> {Contribution, Operating_expense, Operating_reserve, Operating_release}"
    and rec: "record_locked kind amount reference occurred source now d = Inr (e, True, d')"
  shows "fund_inv d' now"
proof -
  obtain d1 consumed where cons: "consumed = consumed_by kind (provision d now) amount"
    and adm: "admission_error kind amount (provision d now) (available d now) = None"
    and ch: "change_basis_for kind amount consumed d = Inr d1"
    and e: "e = new_entry d1 kind amount consumed source reference occurred"
    and d': "d' = touch now (insert_entry e d1)"
    using rec by (rule record_created)
  have wf: "fund_wf d now" and bal: "basis_total d = operating_left d now"
    and prov: "0 \<le> provision d now" and exp: "0 \<le> kind_total d now Operating_expense"
    and sol: "0 \<le> available d now"
    and tr: "0 \<le> processing_spent (treasury d)" "0 \<le> processing_reserved (treasury d)"
    using inv by (auto simp: fund_inv_def books_balance_def solvent_def)
  note cb = consumed_by_bounds [OF a prov, of kind, folded cons]
  have cz: "kind \<noteq> Operating_expense \<longrightarrow> consumed = 0" and cle: "consumed \<le> amount" using cb by auto
  note f = change_basis_for_ok [OF wf cle a cz ch]
  obtain es where d1: "d1 = d\<lparr>entries := es\<rparr>" using f(3) by blast
  have tot1: "totals d1 now = totals d now" by (rule totals_strip) (rule f(1))
  obtain r s v where tot: "totals d now = (r, s, v)" by (cases "totals d now")
  have ce: "counted now e" using t by (simp add: e counted_def)
  have tot': "totals d' now = (r + (if kind = Contribution then amount else 0),
      s + (if kind = Operating_expense then amount else 0),
      v + (if kind = Operating_reserve then amount else 0)
        - (if kind = Operating_release then amount else 0) - consumed)"
    using totals_insert [OF ce, of d1] by (simp add: d' tot1 tot e)
  have v: "provision d now = v" "operating_left d now = r - s - v"
    "s = kind_total d now Operating_expense"
    using tot by (auto simp: provision_def operating_left_def totals_def)
  have ol: "operating_left d' now = operating_left d now + basis_delta kind amount consumed"
    using k cz by (auto simp: operating_left_def tot tot' basis_delta_def)
  have com: "commitments d' now = commitments d now"
    by (rule commitments_frame) (simp_all add: d' d1)
  have treas: "processing_spent (treasury d') = processing_spent (treasury d)"
    "processing_reserved (treasury d') = processing_reserved (treasury d)" by (simp_all add: d' d1)
  have av: "available d' now = available d now + basis_delta kind amount consumed"
    by (simp add: available_eq ol com treas)
  have "solvent d' now"
    using av sol adm cons a k cb
    by (auto simp: solvent_def admission_error_def basis_delta_def consumed_by_def split: if_splits)
  moreover have "books_balance d' now"
  proof -
    have "basis_total d' = basis_total d1 + (if kind = Contribution then amount else 0)"
      by (simp add: basis_total_def d' e)
    then have "basis_total d' = operating_left d' now" using f(2) bal ol by simp
    moreover have "0 \<le> provision d' now"
      using prov v cb a adm k cz by (auto simp: provision_def tot' admission_error_def split: if_splits)
    moreover have "0 \<le> kind_total d' now Operating_expense"
      using tot' v(3) exp a by (auto simp: totals_def split: if_splits)
    ultimately show ?thesis by (simp add: books_balance_def)
  qed
  moreover have "fund_wf d' now"
  proof -
    have pks: "map entry_pk (entries d1) = map entry_pk (entries d)"
    proof -
      have "map entry_pk xs = map entry_pk (map strip xs)" for xs by (simp add: strip_def)
      then show ?thesis using arg_cong [OF f(1), of "map entry_pk"] by (simp only:)
    qed
    have img: "entry_pk ` set (entries d1) = entry_pk ` set (entries d)"
      using arg_cong [OF pks, of set] by simp
    have lt: "\<forall>x \<in> set (entries d1). entry_pk x < next_entry_pk d"
    proof
      fix x assume "x \<in> set (entries d1)"
      then have "entry_pk x \<in> entry_pk ` set (entries d)" using img by blast
      then show "entry_pk x < next_entry_pk d" using wf by (auto simp: fund_wf_def)
    qed
    have "entry_ok now e" using a t k cb cz by (auto simp: entry_ok_def e)
    moreover have "keyed entry_pk (entries d1 @ [e])"
      using pks wf lt by (auto simp: fund_wf_def e d1)
    ultimately show ?thesis
      using wf f(4) lt by (auto simp: fund_wf_def d' d1 e less_Suc_eq)
  qed
  ultimately show ?thesis using tr treas by (simp add: fund_inv_def)
qed

lemma record_locked_inv:
  assumes "fund_inv d now" "0 < amount" "occurred \<le> now"
    and "kind \<in> {Contribution, Operating_expense, Operating_reserve, Operating_release}"
    and "record_locked kind amount reference occurred source now d = Inr (e, created, d')"
  shows "fund_inv d' now"
proof (cases created)
  case True
  then show ?thesis using record_created_inv [OF assms(1-4)] assms(5) by simp
next
  case False
  then have "d' = d"
    using assms(5) by (auto simp: record_locked_def Let_def split: option.splits prod.splits if_splits sum.splits)
  with assms(1) show ?thesis by simp
qed

text \<open>The error \<^verbatim>\<open>Operating change has no matching contribution basis\<close> cannot occur.\<close>

lemma record_locked_finds_basis:
  assumes inv: "fund_inv d now" and a: "0 < amount"
  shows "record_locked kind amount reference occurred source now d \<noteq> Inl No_matching_basis"
proof -
  have wf: "fund_wf d now" and bal: "basis_total d = operating_left d now"
    and prov: "0 \<le> provision d now" and exp: "0 \<le> kind_total d now Operating_expense"
    and tr: "0 \<le> processing_spent (treasury d)" "0 \<le> processing_reserved (treasury d)"
    using inv by (auto simp: fund_inv_def books_balance_def solvent_def)
  have av: "available d now \<le> basis_total d"
    using available_eq [of d now] commitments_nonneg [OF wf, of now] tr bal by simp
  have rest: "kind_total d now Contribution - basis_total d = kind_total d now Operating_expense + provision d now"
    using bal by (simp add: operating_left_def provision_def totals_def)
  define consumed where "consumed = consumed_by kind (provision d now) amount"
  note cb = consumed_by_bounds [OF a prov, of kind, folded consumed_def]
  have nb: "change_basis_for kind amount consumed d \<noteq> Inl No_matching_basis"
    if adm: "admission_error kind amount (provision d now) (available d now) = None"
  proof -
    have take: "\<exists>d'. change_processing_basis (amount - consumed) False d = Inr d'"
      if "kind = Operating_reserve \<or> kind = Operating_expense"
    proof (rule change_basis_succeeds [OF wf])
      show "amount - consumed \<le> row_sum (\<lambda>e. if entry_kind e = Contribution then headroom False e else 0) (entries d)"
        unfolding headroom_sums(1) [OF wf]
        using adm that av cb by (auto simp: admission_error_def consumed_def split: if_splits)
    qed (use cb in simp)
    have give: "\<exists>d'. change_processing_basis amount True d = Inr d'" if "kind = Operating_release"
    proof (rule change_basis_succeeds [OF wf])
      show "amount \<le> row_sum (\<lambda>e. if entry_kind e = Contribution then headroom True e else 0) (entries d)"
        unfolding headroom_sums(2) [OF wf] using adm that exp rest
        by (auto simp: admission_error_def split: if_splits)
    qed (use a in simp)
    show ?thesis using take give by (auto simp: change_basis_for_def)
  qed
  have na: "admission_error k x y z \<noteq> Some No_matching_basis" for k x y z
    by (simp add: admission_error_def)
  show ?thesis
  proof (cases "find_reference d source reference")
    case None
    note nref = None
    show ?thesis
    proof (cases "admission_error kind amount (provision d now) (available d now)")
      case None
      then show ?thesis using nb [OF None] nref
        by (cases "change_basis_for kind amount consumed d")
          (simp_all add: record_locked_eq consumed_def Let_def)
    next
      case (Some e)
      then show ?thesis using nref na [of kind amount "provision d now" "available d now"]
        by (simp add: record_locked_eq)
    qed
  qed (simp add: record_locked_eq)
qed

section \<open>Weekly distribution\<close>

lemma week_bounds_spec:
  assumes "week_bounds now = (start, reset)"
  shows "start \<le> now" "now < reset" "reset = start + week_us" "weekday start = 0" "start mod day_us = 0"
proof -
  define n where "n = now div day_us"
  define w where "w = (n + 3) mod 7"
  have day: "(0::int) < day_us" by (simp add: day_us_def)
  have mid: "now - now mod day_us = n * day_us" by (simp add: n_def minus_mod_eq_div_mult)
  have "weekday (n * day_us) = w" using day by (simp add: weekday_def w_def)
  then have st: "start = (n - w) * day_us" and re: "reset = start + week_us"
    using assms mid by (auto simp: week_bounds_def Let_def algebra_simps)
  have w: "0 \<le> w" "w < 7" by (simp_all add: w_def)
  have "now = n * day_us + now mod day_us" by (simp add: n_def)
  then have nn: "n * day_us \<le> now" "now < (n + 1) * day_us"
    using pos_mod_bound [OF day, of now] pos_mod_sign [OF day, of now]
    unfolding distrib_right by linarith+
  have "(n - w) * day_us \<le> n * day_us" using w day by (intro mult_right_mono) auto
  then show "start \<le> now" using st nn by simp
  have "(n + 1) * day_us \<le> (n - w + 7) * day_us" using w day by (intro mult_right_mono) auto
  also have "\<dots> = reset" using st re by (simp add: week_us_def algebra_simps)
  finally show "now < reset" using nn by simp
  show "reset = start + week_us" by (rule re)
  have "(n - w + 3) mod 7 = 0" using w_def by (metis add.commute add_diff_eq minus_mod_eq_mult_div mod_mult_self1_is_0)
  then show "weekday start = 0" using day by (simp add: st weekday_def)
  show "start mod day_us = 0" by (simp add: st)
qed

lemma share_bounds:
  assumes "0 \<le> R" "R < 10 ^ 27"
  shows "0 \<le> regular_share R n" "0 \<le> newcomer_share R"
    and "regular_share R n * int n + newcomer_share R \<le> R"
proof -
  have ex: "dec_mul (usd R) (of_int c / 10) = of_int (R * c) / 10 ^ 10" if "0 \<le> c" "c \<le> 8" for c :: int
  proof -
    have "R * c \<le> R * 8" using assms that by (intro mult_left_mono) auto
    then have b: "\<bar>R * c\<bar> < 10 ^ 28" using assms that by (simp add: abs_of_nonneg)
    have e: "usd R * (of_int c / 10) = of_int (R * c) / 10 ^ 10" by (simp add: usd_def)
    show ?thesis unfolding dec_mul_def e by (rule dec28_exact [OF b])
  qed
  have fl: "money (of_int (R * c) / 10 ^ 10) = R * c div 10" if "0 \<le> c" for c :: int
  proof -
    have "(of_int (R * c) / 10 ^ 10) * 10 ^ 9 = (of_int (R * c) / of_int 10 :: rat)" by simp
    then have "\<lfloor>(of_int (R * c) / 10 ^ 10) * 10 ^ 9 :: rat\<rfloor> = R * c div 10"
      by (simp only: floor_divide_of_int_eq)
    then show ?thesis using assms that by (simp add: money_def quantize_down_def)
  qed
  define reg where "reg = R * 8 div 10"
  have reg: "0 \<le> reg" "reg < 10 ^ 27" using assms by (auto simp: reg_def)
  have new: "newcomer_share R = R * 2 div 10"
  proof -
    have "dec_mul (usd R) (2 / 10) = of_int (R * 2) / 10 ^ 10" using ex [of 2] by (simp only: of_int_numeral)
    then show ?thesis unfolding newcomer_share_def using fl [of 2] by (simp only:)
  qed
  define m where "m = int (max 1 n)"
  have m: "0 < m" "int n \<le> m" by (auto simp: m_def)
  have "regular_share R n = money (dec_div (usd reg) (of_int m))"
  proof -
    have "dec_mul (usd R) (8 / 10) = of_int (R * 8) / 10 ^ 10" using ex [of 8] by (simp only: of_int_numeral)
    then have "money (dec_mul (usd R) (8 / 10)) = reg" unfolding reg_def using fl [of 8] by (simp only:)
    then show ?thesis unfolding regular_share_def m_def Let_def by (simp only: of_int_of_nat_eq)
  qed
  also have "dec_div (usd reg) (of_int m) = dec28 (of_int reg / of_int m) / 10 ^ 9"
    unfolding dec_div_def usd_def using dec28_scale [of "of_int reg / of_int m" 9] by (simp add: field_simps)
  also have "money \<dots> = \<lfloor>dec28 (of_int reg / of_int m)\<rfloor>"
    using reg m dec28_nonneg [of "of_int reg / of_int m"] by (simp add: money_def quantize_down_def)
  finally have sh: "regular_share R n = \<lfloor>dec28 (of_int reg / of_int m)\<rfloor>" .
  show sh0: "0 \<le> regular_share R n" using reg m by (simp add: sh dec28_nonneg)
  show "0 \<le> newcomer_share R" using assms by (simp add: new)
  have "regular_share R n * int n \<le> regular_share R n * m" using m sh0 by (intro mult_left_mono)
  also have "\<dots> \<le> reg" unfolding sh by (rule share_times_population [OF reg m(1)])
  finally show "regular_share R n * int n + newcomer_share R \<le> R" unfolding new reg_def by linarith
qed

lemma releasable_bounds:
  assumes "0 \<le> available d now"
  shows "0 \<le> releasable now reset d" "releasable now reset d \<le> available d now"
  unfolding releasable_def money_def using assms
  by (auto intro!: quantize_down_nonneg quantize_down_le)

lemma number_quotas_props:
  "row_sum (\<lambda>q. allocated_usd q - used_usd q - reserved_usd q) (number_quotas k us st sh) = sh * int (length us)"
  "map quota_pk (number_quotas k us st sh) = [k..<k + length us]"
  "q \<in> set (number_quotas k us st sh) \<Longrightarrow> quota_period q = st \<and> allocated_usd q = sh \<and> used_usd q = 0
     \<and> reserved_usd q = 0 \<and> quota_pk q < k + length us \<and> k \<le> quota_pk q"
proof -
  show "row_sum (\<lambda>q. allocated_usd q - used_usd q - reserved_usd q) (number_quotas k us st sh) = sh * int (length us)"
    by (induction us arbitrary: k) (auto simp: new_quota_def algebra_simps)
  show "map quota_pk (number_quotas k us st sh) = [k..<k + length us]"
    by (induction us arbitrary: k) (simp_all add: new_quota_def upt_conv_Cons del: upt_Suc)
  show "q \<in> set (number_quotas k us st sh) \<Longrightarrow> quota_period q = st \<and> allocated_usd q = sh \<and> used_usd q = 0
     \<and> reserved_usd q = 0 \<and> quota_pk q < k + length us \<and> k \<le> quota_pk q"
    by (induction us arbitrary: k) (fastforce simp: new_quota_def)+
qed

lemma operating_left_frame:
  "entries d' = entries d \<Longrightarrow> operating_left d' now = operating_left d now"
  by (simp add: operating_left_def totals_def kind_total_def consumed_total_def)

lemma books_balance_frame:
  "entries d' = entries d \<Longrightarrow> books_balance d' now = books_balance d now"
  by (simp add: books_balance_def operating_left_def basis_total_def provision_def totals_def
      kind_total_def consumed_total_def)

lemma commitments_new_period:
  assumes wf: "fund_wf d now" and st: "period_start p \<notin> period_start ` set (periods d)"
    and act: "now < period_reset_at p"
    and qs: "\<And>q. q \<in> set qs \<Longrightarrow> quota_period q = period_start p"
    and d': "periods d' = periods d @ [p]" "quotas d' = quotas d @ qs"
  shows "commitments d' now =
    (fst (commitments d now) + row_sum (\<lambda>q. allocated_usd q - used_usd q - reserved_usd q) qs,
     snd (commitments d now) + newcomers_remaining_usd p)"
proof -
  have old: "quota_active d' now q = quota_active d now q" if "q \<in> set (quotas d)" for q
  proof -
    have "quota_period q \<in> period_start ` set (periods d)" using wf that by (auto simp: fund_wf_def)
    then have "get_row period_start (periods d) (quota_period q) \<noteq> None" by (simp add: get_row_None)
    then show ?thesis by (auto simp: quota_active_def d'(1) get_row_append)
  qed
  have new: "quota_active d' now q" if "q \<in> set qs" for q
  proof -
    have "get_row period_start (periods d) (period_start p) = None" using st by (simp add: get_row_None)
    then show ?thesis using act qs [OF that] by (simp add: quota_active_def d'(1) get_row_append)
  qed
  have "row_sum (\<lambda>q. if quota_active d' now q then allocated_usd q - used_usd q - reserved_usd q else 0) (quotas d)
      = fst (commitments d now)"
    unfolding commitments_def fst_conv by (rule row_sum_cong) (simp add: old)
  moreover have "row_sum (\<lambda>q. if quota_active d' now q then allocated_usd q - used_usd q - reserved_usd q else 0) qs
      = row_sum (\<lambda>q. allocated_usd q - used_usd q - reserved_usd q) qs"
    by (rule row_sum_cong) (simp add: new)
  ultimately show ?thesis by (simp add: commitments_def d' act)
qed

definition cash_bound :: "db \<Rightarrow> time \<Rightarrow> bool" where
  "cash_bound d now \<longleftrightarrow> kind_total d now Contribution < 10 ^ 27"

lemma available_le_received:
  assumes "fund_inv d now"
  shows "available d now \<le> kind_total d now Contribution"
proof -
  have wf: "fund_wf d now" using assms by (simp add: fund_inv_def)
  have "operating_left d now \<le> kind_total d now Contribution"
    using assms by (simp add: fund_inv_def books_balance_def operating_left_def provision_def totals_def)
  then show ?thesis using assms commitments_nonneg [OF wf, of now]
    by (simp add: available_eq fund_inv_def)
qed

text \<open>What a distribution did when it created a period.\<close>

lemma distribute_cases:
  assumes "distribute_locked iexact now d = (r, d')"
  obtains (existing) p where "r = Some p" "d' = d" "p \<in> set (periods d)"
      "period_start p = fst (week_bounds now)"
    | (unfunded) "r = None" "d' = d"
    | (created) us p start reset where "week_bounds now = (start, reset)"
        "get_row period_start (periods d) start = None" "0 < releasable now reset d"
        "us = regular_users iexact d start"
        "p = create_period start reset (releasable now reset d) us" "r = Some p"
        "d' = touch now (d\<lparr>periods := periods d @ [p],
           quotas := quotas d @ number_quotas (next_quota_pk d) us start (regular_share_usd p),
           next_quota_pk := next_quota_pk d + length us\<rparr>)"
        "\<not> (\<exists>e \<in> set (entries d). pending_receipt e)"
proof -
  obtain start reset where w: "week_bounds now = (start, reset)" by (cases "week_bounds now")
  show thesis
  proof (cases "get_row period_start (periods d) start")
    case (Some p)
    from assms w Some have "r = Some p" "d' = d" by (auto simp: distribute_locked_def)
    then show thesis using get_row_Some [OF Some] w by (intro existing [of p]) auto
  next
    case None
    show thesis
    proof (cases "(\<exists>e \<in> set (entries d). pending_receipt e) \<or> fst (totals d now) \<le> 0
        \<or> releasable now reset d \<le> 0")
      case True
      with assms w None show thesis
        by (intro unfunded) (auto simp: distribute_locked_def Let_def split: if_splits)
    next
      case False
      with assms w None show thesis
        by (intro created [OF w None]) (auto simp: distribute_locked_def Let_def)
    qed
  qed
qed

lemma distribute_locked_inv:
  assumes inv: "fund_inv d now" and cb: "cash_bound d now"
    and dl: "distribute_locked iexact now d = (r, d')"
  shows "fund_inv d' now"
  using dl
proof (cases rule: distribute_cases)
  case (created us p start reset)
  note w = week_bounds_spec [OF created(1)]
  have wf: "fund_wf d now" and av: "0 \<le> available d now"
    using inv by (auto simp: fund_inv_def solvent_def)
  define R where "R = releasable now reset d"
  have R: "0 \<le> R" "R \<le> available d now" "R < 10 ^ 27"
    using releasable_bounds [OF av, of reset] available_le_received [OF inv] cb
    by (auto simp: R_def cash_bound_def)
  have sh: "0 \<le> regular_share R (length us)" "0 \<le> newcomer_share R"
    "regular_share R (length us) * int (length us) + newcomer_share R \<le> R"
    by (rule share_bounds [OF R(1) R(3)])+
  have p: "period_start p = start" "period_reset_at p = reset" "regular_share_usd p = regular_share R (length us)"
    "newcomers_remaining_usd p = newcomer_share R"
    using created(5) by (simp_all add: create_period_def R_def)
  have st: "start \<notin> period_start ` set (periods d)" using created(2) by (simp add: get_row_None)
  define qs where "qs = number_quotas (next_quota_pk d) us start (regular_share_usd p)"
  note nq = number_quotas_props [where k = "next_quota_pk d" and us = us and st = start
      and sh = "regular_share_usd p", folded qs_def]
  have d': "entries d' = entries d" "periods d' = periods d @ [p]" "quotas d' = quotas d @ qs"
    "next_quota_pk d' = next_quota_pk d + length us" "next_entry_pk d' = next_entry_pk d"
    "processing_spent (treasury d') = processing_spent (treasury d)"
    "processing_reserved (treasury d') = processing_reserved (treasury d)"
    using created(7) by (auto simp: qs_def touch_def)
  have com: "commitments d' now = (fst (commitments d now) + regular_share R (length us) * int (length us),
      snd (commitments d now) + newcomer_share R)"
    using commitments_new_period [of d now p qs d'] wf st w(2) nq d' by (simp add: p)
  have "solvent d' now"
    using sh(3) R com d' operating_left_frame [OF d'(1), of now]
    by (simp add: solvent_def available_eq)
  moreover have "fund_wf d' now"
  proof -
    have pk: "quota_pk q < next_quota_pk d" if "q \<in> set (quotas d)" for q
      using wf that by (auto simp: fund_wf_def)
    have "keyed quota_pk (quotas d @ qs)"
      using wf nq(2) pk nq(3) by (fastforce simp: fund_wf_def distinct_map)
    moreover have "period_ok p" using p w sh by (simp add: period_ok_def)
    moreover have "quota_ok q" if "q \<in> set qs" for q
      using nq(3) [OF that] sh p by (simp add: quota_ok_def)
    ultimately show ?thesis
      using wf st nq(3) pk by (auto simp: fund_wf_def d' p less_Suc_eq trans_less_add1)
  qed
  ultimately show ?thesis
    using inv d' books_balance_frame [OF d'(1), of now] by (simp add: fund_inv_def)
qed (use inv in auto)

lemma distribute_period:
  assumes inv: "fund_inv d now" and dl: "distribute_locked iexact now d = (Some p, d')"
  shows "p \<in> set (periods d')" "period_start p = fst (week_bounds now)" "now < period_reset_at p"
proof -
  obtain start reset where w: "week_bounds now = (start, reset)" by (cases "week_bounds now")
  note ws = week_bounds_spec [OF w]
  have "p \<in> set (periods d') \<and> period_start p = start \<and> period_reset_at p = start + week_us"
    using dl
  proof (cases rule: distribute_cases)
    case (existing q)
    then show ?thesis using inv w by (auto simp: fund_inv_def fund_wf_def period_ok_def)
  next
    case (created us q st re)
    then show ?thesis using w ws(3) by (auto simp: create_period_def touch_def)
  qed simp
  then show "p \<in> set (periods d')" "period_start p = fst (week_bounds now)" "now < period_reset_at p"
    using w ws by auto
qed

section \<open>Approval and quota grants\<close>

lemma row_sum_map: "row_sum w (map f t) = row_sum (\<lambda>r. w (f r)) t"
  by (induction t) auto

lemma approve_locked_inv:
  assumes "fund_inv d T" and "approve_locked now d = (n, d')"
  shows "fund_inv d' T"
proof -
  define f where "f = (\<lambda>e. if pending_receipt e then e\<lparr>processing_ready_at := Some now\<rparr> else e)"
  have d': "d' = d\<lparr>entries := map f (entries d)\<rparr>" using assms(2) by (simp add: approve_locked_def f_def)
  have f_simps: "entry_kind (f e) = entry_kind e" "amount_usd (f e) = amount_usd e"
    "reserve_consumed_usd (f e) = reserve_consumed_usd e" "counted T (f e) = counted T e"
    "processing_basis_usd (f e) = processing_basis_usd e" "entry_pk (f e) = entry_pk e"
    "entry_ok T (f e) = entry_ok T e" for e
    by (simp_all add: f_def counted_def entry_ok_def)
  have tot: "totals d' T = totals d T" "kind_total d' T k = kind_total d T k" "basis_total d' = basis_total d" for k
    by (simp_all add: d' totals_def kind_total_def consumed_total_def basis_total_def row_sum_map f_simps cong: if_cong)
  have com: "commitments d' T = commitments d T" by (rule commitments_frame) (simp_all add: d')
  have "map entry_pk (map f (entries d)) = map entry_pk (entries d)" by (simp add: f_simps)
  then have "fund_wf d' T"
    using assms(1) by (simp add: fund_inv_def fund_wf_def d' f_simps del: map_map)
  then show ?thesis
    using assms(1) tot com
    by (simp add: fund_inv_def books_balance_def solvent_def available_eq operating_left_def provision_def d')
qed

lemma reserved_le_received:
  assumes "fund_inv d now"
  shows "processing_reserved (treasury d) \<le> kind_total d now Contribution"
proof -
  have wf: "fund_wf d now" using assms by (simp add: fund_inv_def)
  have "operating_left d now \<le> kind_total d now Contribution"
    using assms by (simp add: fund_inv_def books_balance_def operating_left_def provision_def totals_def)
  then show ?thesis using assms commitments_nonneg [OF wf, of now]
    by (simp add: available_eq fund_inv_def solvent_def)
qed

text \<open>A change outside the five funding tables keeps the invariant.\<close>

lemma fund_inv_frame:
  assumes "entries d' = entries d" "periods d' = periods d" "quotas d' = quotas d"
    "next_entry_pk d' = next_entry_pk d" "next_quota_pk d' = next_quota_pk d"
    "processing_spent (treasury d') = processing_spent (treasury d)"
    "processing_reserved (treasury d') = processing_reserved (treasury d)"
  shows "fund_inv d' T = fund_inv d T"
  using assms commitments_frame [of d' d T] operating_left_frame [of d' d T] books_balance_frame [of d' d T]
  by (simp add: fund_inv_def fund_wf_def solvent_def available_eq)

lemma cash_bound_frame: "entries d' = entries d \<Longrightarrow> cash_bound d' now = cash_bound d now"
  by (simp add: cash_bound_def kind_total_def)

lemma newcomer_amount_le:
  assumes "0 < newcomer_amount p now"
  shows "newcomer_amount p now \<le> newcomers_remaining_usd p"
proof -
  define q where "q = min (usd (newcomers_remaining_usd p))
    (dec_mul (usd (regular_share_usd p)) (dec_div (total_seconds (period_reset_at p - now)) 604800))"
  have a: "newcomer_amount p now = quantize_down q" by (simp add: newcomer_amount_def money_def q_def Let_def)
  have "0 \<le> q"
  proof (rule ccontr)
    assume "\<not> 0 \<le> q"
    then have "quantize_down q \<le> 0" by (simp add: quantize_down_def mult_nonpos_nonneg ceiling_le_iff)
    with assms a show False by simp
  qed
  then show ?thesis unfolding a by (intro quantize_down_le) (simp_all add: q_def)
qed

lemma quota_active_put_period:
  assumes "keyed period_start (periods d)" "p \<in> set (periods d)"
    and "period_start p' = period_start p" "period_reset_at p' = period_reset_at p"
    and "periods d' = put_row period_start p' (periods d)"
  shows "quota_active d' now q = quota_active d now q"
proof (cases "quota_period q = period_start p")
  case True
  have "get_row period_start (periods d) (period_start p) = Some p" using assms(1,2) by (rule get_row_keyed)
  then show ?thesis using True assms by (auto simp: quota_active_def get_put_row)
next
  case False
  then show ?thesis using assms by (simp add: quota_active_def get_put_row)
qed

lemma grant_newcomer_inv:
  assumes inv: "fund_inv d now" and p: "p \<in> set (periods d)" "now < period_reset_at p"
    and amt: "0 < amount" "amount \<le> newcomers_remaining_usd p"
    and g: "grant_newcomer user p amount now d = (q, p', d')"
  shows "fund_inv d' now" "q \<in> set (quotas d')" "quota_active d' now q" "quota_user q = Some user"
proof -
  have wf: "fund_wf d now" using inv by (simp add: fund_inv_def)
  have q: "q = new_quota (next_quota_pk d) user (period_start p) amount"
    and p': "p' = p\<lparr>newcomers_remaining_usd := newcomers_remaining_usd p - amount\<rparr>"
    and d': "entries d' = entries d" "periods d' = put_row period_start p' (periods d)"
      "quotas d' = quotas d @ [q]" "next_quota_pk d' = Suc (next_quota_pk d)"
      "next_entry_pk d' = next_entry_pk d"
      "processing_spent (treasury d') = processing_spent (treasury d)"
      "processing_reserved (treasury d') = processing_reserved (treasury d)"
    using g by (auto simp: grant_newcomer_def Let_def touch_def)
  have kp: "keyed period_start (periods d)" using wf by (simp add: fund_wf_def)
  have gp: "get_row period_start (periods d) (period_start p') = Some p"
    using get_row_keyed [OF kp p(1)] by (simp add: p')
  have act: "quota_active d' now x = quota_active d now x" for x
    by (rule quota_active_put_period [OF kp p(1) _ _ d'(2)]) (simp_all add: p')
  have aq: "quota_active d now q"
    using get_row_keyed [OF kp p(1)] p(2) by (simp add: quota_active_def q new_quota_def)
  have com: "commitments d' now = (fst (commitments d now) + amount, snd (commitments d now) - amount)"
    using row_sum_put_row [OF kp gp, of "\<lambda>p. if now < period_reset_at p then newcomers_remaining_usd p else 0"]
      p(2) aq by (simp add: commitments_def d' act p') (simp add: q new_quota_def)
  have "solvent d' now"
    using inv com d' operating_left_frame [OF d'(1), of now]
    by (simp add: fund_inv_def solvent_def available_eq)
  moreover have "fund_wf d' now"
  proof -
    have "period_ok p'" using wf p amt by (auto simp: fund_wf_def period_ok_def p')
    then have "\<forall>x \<in> set (periods d'). period_ok x"
      using wf set_put_row_sub [of period_start p' "periods d"] by (auto simp: fund_wf_def d')
    moreover have "keyed period_start (periods d')" using kp by (simp add: d')
    moreover have "period_start ` set (periods d') = period_start ` set (periods d)"
      by (simp add: d'(2))
    moreover have "quota_ok q" using amt by (simp add: quota_ok_def q new_quota_def)
    moreover have "quota_period q \<in> period_start ` set (periods d)" "quota_pk q = next_quota_pk d"
      using p by (simp_all add: q new_quota_def)
    ultimately show ?thesis using wf by (auto simp: fund_wf_def d' less_Suc_eq)
  qed
  ultimately show "fund_inv d' now"
    using inv d' books_balance_frame [OF d'(1), of now] by (simp add: fund_inv_def)
  show "q \<in> set (quotas d')" "quota_active d' now q" "quota_user q = Some user"
    using aq by (simp_all add: d' act) (simp add: q new_quota_def)
qed

text \<open>What a distribution leaves alone.\<close>

lemma distribute_frame:
  assumes "distribute_locked iexact now d = (r, d')"
  shows "entries d' = entries d" "operations d' = operations d" "budgets d' = budgets d"
    "allowances d' = allowances d" "users d' = users d" "next_operation_pk d' = next_operation_pk d"
    "processing_spent (treasury d') = processing_spent (treasury d)"
    "processing_reserved (treasury d') = processing_reserved (treasury d)"
    "\<exists>qs. quotas d' = quotas d @ qs \<and> (\<forall>q \<in> set qs. reserved_usd q = 0)"
  using assms
  by (atomize (full), cases rule: distribute_cases) (auto simp: touch_def dest: number_quotas_props(3))

lemma quota_locked_cases:
  assumes "quota_locked iexact user now d = (q, p, status, d')"
  obtains (inactive) "q = None" "status = Inactive" "d' = d"
    | (unfunded) us where "q = None" "status = Unfunded"
        "distribute_locked iexact now (d\<lparr>users := us\<rparr>) = (None, d')"
    | (found) us p0 r where "q = Some r" "p = Some p0" "status = quota_status q"
        "distribute_locked iexact now (d\<lparr>users := us\<rparr>) = (Some p0, d')"
        "find_quota d' user (period_start p0) = Some r"
    | (waiting) us where "q = None" "status = Waiting"
        "\<exists>p0. distribute_locked iexact now (d\<lparr>users := us\<rparr>) = (Some p0, d')"
    | (granted) us p0 d2 r p1 where "q = Some r" "p = Some p1" "status = quota_status q"
        "distribute_locked iexact now (d\<lparr>users := us\<rparr>) = (Some p0, d2)"
        "find_quota d2 user (period_start p0) = None" "0 < newcomer_amount p0 now"
        "grant_newcomer user p0 (newcomer_amount p0 now) now d2 = (r, p1, d')"
proof (cases "find (\<lambda>u. user_pk u = user) (eligible_users iexact d)")
  case None
  with assms show thesis by (intro inactive) (auto simp: quota_locked_def)
next
  case (Some u)
  define us where "us = put_row user_pk (request_access now u) (users d)"
  obtain r d2 where dl: "distribute_locked iexact now (d\<lparr>users := us\<rparr>) = (r, d2)" by fastforce
  show thesis
  proof (cases r)
    case None
    with assms Some dl show thesis
      by (intro unfunded [of us]) (auto simp: quota_locked_def us_def Let_def)
  next
    case (Some p0)
    note p0 = this
    show thesis
    proof (cases "find_quota d2 user (period_start p0)")
      case (Some q0)
      with assms \<open>find _ _ = Some u\<close> dl p0 show thesis
        by (intro found [of q0 p0 us]) (auto simp: quota_locked_def us_def Let_def)
    next
      case None
      show thesis
      proof (cases "(case hosted_requested_at (request_access now u) of None \<Rightarrow> False
                             | Some t \<Rightarrow> period_start p0 < t) \<and> 0 < newcomer_amount p0 now")
        case True
        obtain q0 p1 d3 where "grant_newcomer user p0 (newcomer_amount p0 now) now d2 = (q0, p1, d3)"
          by (cases "grant_newcomer user p0 (newcomer_amount p0 now) now d2")
        with assms \<open>find _ _ = Some u\<close> dl p0 None True show thesis
          by (intro granted [of q0 p1 us p0 d2]) (auto simp: quota_locked_def us_def Let_def)
      next
        case False
        then have "(q, p, status, d') = (None, Some p0, quota_status None, d2)"
          using assms \<open>find _ _ = Some u\<close> dl p0 None
          by (auto simp: quota_locked_def us_def Let_def split: if_splits)
        with dl p0 show thesis by (intro waiting [of us]) (auto simp: quota_status_def)
      qed
    qed
  qed
qed

text \<open>
  The contract of \<^verbatim>\<open>quota_locked\<close>: the books stay in order, and a returned quota is a row of the
  table, belongs to the user and is active.
\<close>

lemma quota_locked_spec:
  assumes inv: "fund_inv d now" and cb: "cash_bound d now"
    and ql: "quota_locked iexact user now d = (q, p, status, d')"
  shows "fund_inv d' now"
    and "\<And>r. q = Some r \<Longrightarrow> r \<in> set (quotas d') \<and> quota_active d' now r \<and> quota_user r = Some user"
proof -
  have frame: "fund_inv (d\<lparr>users := us\<rparr>) now" "cash_bound (d\<lparr>users := us\<rparr>) now" for us
    using inv cb fund_inv_frame [of "d\<lparr>users := us\<rparr>" d now] cash_bound_frame [of "d\<lparr>users := us\<rparr>" d now]
    by simp_all
  have spec: "fund_inv d' now \<and>
      (\<forall>r. q = Some r \<longrightarrow> r \<in> set (quotas d') \<and> quota_active d' now r \<and> quota_user r = Some user)"
    using ql
  proof (cases rule: quota_locked_cases)
    case inactive
    then show ?thesis using inv by simp
  next
    case (unfunded us)
    then show ?thesis using distribute_locked_inv [OF frame] by blast
  next
    case (found us p0 r)
    have d2: "fund_inv d' now" by (rule distribute_locked_inv [OF frame found(4)])
    note dp = distribute_period [OF frame(1) found(4)]
    have r: "r \<in> set (quotas d')" "quota_user r = Some user" "quota_period r = period_start p0"
      using found(5) by (auto simp: find_quota_def find_Some_iff)
    have "keyed period_start (periods d')" using d2 by (simp add: fund_inv_def fund_wf_def)
    then have "get_row period_start (periods d') (period_start p0) = Some p0" using dp(1) by (rule get_row_keyed)
    then have "quota_active d' now r" using dp(3) r(3) by (simp add: quota_active_def)
    with d2 r found(1) show ?thesis by simp
  next
    case (waiting us)
    then show ?thesis using distribute_locked_inv [OF frame] by blast
  next
    case (granted us p0 d2 r p1)
    have d2: "fund_inv d2 now" by (rule distribute_locked_inv [OF frame granted(4)])
    note dp = distribute_period [OF frame(1) granted(4)]
    have "newcomer_amount p0 now \<le> newcomers_remaining_usd p0" by (rule newcomer_amount_le [OF granted(6)])
    from grant_newcomer_inv [OF d2 dp(1,3) granted(6) this granted(7)] granted(1)
    show ?thesis by simp
  qed
  then show "fund_inv d' now"
    and "\<And>r. q = Some r \<Longrightarrow> r \<in> set (quotas d') \<and> quota_active d' now r \<and> quota_user r = Some user"
    by blast+
qed

lemma quota_locked_frame:
  assumes "quota_locked iexact user now d = (q, p, status, d')"
  shows "entries d' = entries d \<and> operations d' = operations d \<and> budgets d' = budgets d
    \<and> allowances d' = allowances d \<and> next_operation_pk d' = next_operation_pk d
    \<and> processing_spent (treasury d') = processing_spent (treasury d)
    \<and> processing_reserved (treasury d') = processing_reserved (treasury d)
    \<and> (\<exists>qs. quotas d' = quotas d @ qs \<and> (\<forall>q \<in> set qs. reserved_usd q = 0))"
  using assms
proof (cases rule: quota_locked_cases)
  case (unfunded us)
  then show ?thesis using distribute_frame [OF unfunded(3)] by simp
next
  case (found us p0 r)
  then show ?thesis using distribute_frame [OF found(4)] by simp
next
  case (waiting us)
  then obtain p0 where dl: "distribute_locked iexact now (d\<lparr>users := us\<rparr>) = (Some p0, d')" by blast
  show ?thesis using distribute_frame [OF dl] by simp
next
  case (granted us p0 d2 r p1)
  then show ?thesis using distribute_frame [OF granted(4)]
    by (auto simp: grant_newcomer_def touch_def Let_def new_quota_def)
qed simp

end
