(* ===== verification/Ledger.thy ===== *)
theory Ledger
  imports Funding_Safety
begin

text \<open>
  \<^verbatim>\<open>server/cloud/service/ledger.py\<close>: admission of a paid operation against the weekly quota and
  the monthly cap, authorization of each provider call, and once-only settlement. Every section
  under \<^verbatim>\<open>funding.locked()\<close> is one transaction: an exception leaves the database unchanged.
  \<^verbatim>\<open>reserve\<close> runs two of them, so it returns the database next to its result. The clock readings
  of an operation are the function \<open>clk\<close> from their position in the code.
\<close>

record settings =
  funded_enabled :: bool
  groq_key :: ustr
  monthly_budget :: rat
  global_concurrency :: nat
  iexact :: "ustr \<Rightarrow> ustr \<Rightarrow> bool"

datatype reject_code = Hosted_unavailable | Invalid_duration | Operation_conflict | Operation_pending
  | Operation_expired | Account_busy | Service_busy | Service_budget_exhausted | Allocation_waiting
  | Allowance_exhausted

datatype rejected = Rejected reject_code nat

text \<open>Exceptions that are not answers to the client: a violated bound or a missing row.\<close>

datatype ledger_error = Cost_exceeds_reservation | Does_not_exist

definition MAX_COST :: rat where "MAX_COST = 2 / 100"

definition month_start :: "time \<Rightarrow> int" where
  "month_start now = (case ord2ymd (ordinal_of now) of (y, m, d) \<Rightarrow> ymd2ord y m 1)"

definition asr_cost :: "int \<Rightarrow> int" where
  "asr_cost ms = money_up (dec_div (dec_mul (of_int (max ((ms + 999) div 1000) 10)) (4 / 100)) 3600)"

section \<open>Admission\<close>

abbreviation running :: "operation_row \<Rightarrow> bool" where
  "running o' \<equiv> operation_state o' = Running"

definition earlier_running :: "db \<Rightarrow> int \<Rightarrow> int" where
  "earlier_running d month =
     row_sum (\<lambda>o'. if running o' \<and> operation_month o' \<noteq> month then reserved_cost o' else 0) (operations d)"

definition remaining_monthly_cap :: "settings \<Rightarrow> int \<Rightarrow> db \<Rightarrow> rat" where
  "remaining_monthly_cap st month d =
     dec_sub (dec_sub (monthly_budget st)
        (case get_row budget_month (budgets d) month of
           Some b \<Rightarrow> usd (budget_spent b + budget_reserved b) | None \<Rightarrow> 0))
       (usd (earlier_running d month))"

definition find_operation :: "db \<Rightarrow> nat \<Rightarrow> nat \<Rightarrow> operation_row option" where
  "find_operation d user opid =
     find (\<lambda>o'. operation_user o' = Some user \<and> operation_id o' = opid) (operations d)"

definition previous :: "nat \<Rightarrow> nat \<Rightarrow> ustr \<Rightarrow> time \<Rightarrow> db \<Rightarrow> rejected + operation_row option" where
  "previous user opid fingerprint now d = (case find_operation d user opid of
     None \<Rightarrow> Inr None
   | Some o' \<Rightarrow>
       if operation_fingerprint o' \<noteq> fingerprint then Inl (Rejected Operation_conflict 409)
       else if running o' then Inl (Rejected Operation_pending 409)
       else if operation_result o' \<noteq> [] \<and>
         (case result_expires_at o' of None \<Rightarrow> False | Some t \<Rightarrow> now < t) then Inr (Some o')
       else Inl (Rejected Operation_expired 410))"

section \<open>Settlement\<close>

text \<open>The decimal digits of a primary key, as in \<^verbatim>\<open>f"cost:{operation.pk}"\<close>.\<close>

fun digits_of :: "nat \<Rightarrow> ustr" where
  "digits_of n = (if n < 10 then [48 + n] else digits_of (n div 10) @ [48 + n mod 10])"

declare digits_of.simps [simp del]

definition settle_quota :: "operation_row \<Rightarrow> int \<Rightarrow> db \<Rightarrow> ledger_error + db" where
  "settle_quota o' cost d = (case operation_quota o' of
     None \<Rightarrow> Inr d
   | Some k \<Rightarrow> (case get_row quota_pk (quotas d) k of
       None \<Rightarrow> Inl Does_not_exist
     | Some q \<Rightarrow> Inr (d\<lparr>quotas := put_row quota_pk
         (q\<lparr>reserved_usd := reserved_usd q - reserved_cost o', used_usd := used_usd q + cost\<rparr>) (quotas d)\<rparr>)))"

definition allowance_key :: "allowance_row \<Rightarrow> nat \<times> int" where
  "allowance_key a = (allowance_user a, allowance_month a)"

definition settle_allowance :: "operation_row \<Rightarrow> db \<Rightarrow> db" where
  "settle_allowance o' d = (case operation_user o' of
     None \<Rightarrow> d
   | Some u \<Rightarrow> (case get_row allowance_key (allowances d) (u, operation_month o') of
       None \<Rightarrow> d
     | Some a \<Rightarrow> d\<lparr>allowances := put_row allowance_key
         (a\<lparr>reserved_ms := reserved_ms a - audio_ms o', used_ms := used_ms a + audio_ms o'\<rparr>) (allowances d)\<rparr>))"

definition settle_budget :: "operation_row \<Rightarrow> int \<Rightarrow> db \<Rightarrow> ledger_error + db" where
  "settle_budget o' cost d = (case get_row budget_month (budgets d) (operation_month o') of
     None \<Rightarrow> Inl Does_not_exist
   | Some b \<Rightarrow> Inr (d\<lparr>budgets := put_row budget_month
       (b\<lparr>budget_reserved := budget_reserved b - reserved_cost o', budget_spent := budget_spent b + cost\<rparr>)
       (budgets d)\<rparr>))"

definition settle_treasury :: "operation_row \<Rightarrow> int \<Rightarrow> time \<Rightarrow> db \<Rightarrow> db" where
  "settle_treasury o' cost now d = d\<lparr>treasury := (treasury d)\<lparr>
     processing_reserved := processing_reserved (treasury d) - reserved_cost o',
     processing_spent := processing_spent (treasury d) + cost,
     treasury_updated_at := now\<rparr>\<rparr>"

definition settle_entry :: "operation_row \<Rightarrow> int \<Rightarrow> bool \<Rightarrow> time \<Rightarrow> db \<Rightarrow> db" where
  "settle_entry o' cost estimated now d =
     (if 0 < cost then insert_entry
        (new_entry d (if estimated then Processing_estimate else Processing_cost) cost 0
           (ulit ''ledger'') (ulit ''cost:'' @ digits_of (operation_pk o')) now) d
      else d)"

definition settled_operation ::
  "operation_row \<Rightarrow> int \<Rightarrow> (ustr \<times> ustr) list \<Rightarrow> int \<Rightarrow> int \<Rightarrow> operation_state \<Rightarrow> bool \<Rightarrow> time \<Rightarrow> operation_row" where
  "settled_operation o' cost result inp outp state estimated now =
     o'\<lparr>operation_state := state, operation_cost := cost, cost_estimated := estimated,
        operation_result := result, result_expires_at := Some (now + 300000000),
        input_tokens := inp, output_tokens := outp,
        quota_debit := (if operation_quota o' = None then quota_debit o' else cost)\<rparr>"

definition settle_locked ::
  "operation_row \<Rightarrow> rat \<Rightarrow> (ustr \<times> ustr) list \<Rightarrow> int \<Rightarrow> int \<Rightarrow> operation_state \<Rightarrow> bool \<Rightarrow> time \<Rightarrow> db
     \<Rightarrow> ledger_error + db" where
  "settle_locked o' amount result inp outp state estimated now d =
     (if \<not> running o' then Inr d
      else let cost = money_up amount in
        if \<not> (0 \<le> cost \<and> cost \<le> reserved_cost o') then Inl Cost_exceeds_reservation
        else case settle_quota o' cost d of Inl e \<Rightarrow> Inl e | Inr d1 \<Rightarrow>
          (case settle_budget o' cost (settle_allowance o' d1) of Inl e \<Rightarrow> Inl e | Inr d2 \<Rightarrow>
             let d3 = settle_entry o' cost estimated now (settle_treasury o' cost now d2)
             in Inr (d3\<lparr>operations := put_row operation_pk
                  (settled_operation o' cost result inp outp state estimated now) (operations d3)\<rparr>)))"

text \<open>
  \<^verbatim>\<open>settle\<close>: with no cost, the authorized cost is charged as a conservative estimate.
\<close>

definition settle ::
  "nat \<Rightarrow> (ustr \<times> ustr) list \<Rightarrow> rat option \<Rightarrow> int \<Rightarrow> int \<Rightarrow> bool \<Rightarrow> time \<Rightarrow> db \<Rightarrow> ledger_error + db" where
  "settle pk result cost inp outp estimated now d = (case get_row operation_pk (operations d) pk of
     None \<Rightarrow> Inl Does_not_exist
   | Some o' \<Rightarrow> settle_locked o' (case cost of None \<Rightarrow> usd (authorized_cost o') | Some c \<Rightarrow> c) result inp outp
       (if result \<noteq> [] then Complete else Uncertain) (estimated \<or> cost = None) now d)"

text \<open>The expired leases are read once; each is charged what was authorized.\<close>

fun expire_each :: "operation_row list \<Rightarrow> time \<Rightarrow> db \<Rightarrow> ledger_error + db" where
  "expire_each [] now d = Inr d"
| "expire_each (o' # os) now d =
     (case settle_locked o' (usd (authorized_cost o')) [] 0 0 Uncertain True now d of
        Inl e \<Rightarrow> Inl e | Inr d' \<Rightarrow> expire_each os now d')"

definition expire_leases :: "time \<Rightarrow> db \<Rightarrow> ledger_error + db" where
  "expire_leases now d =
     expire_each (filter (\<lambda>o'. running o' \<and> lease_until o' < now) (operations d)) now d"

section \<open>Replay and reservation\<close>

definition replay ::
  "nat \<Rightarrow> nat \<Rightarrow> ustr \<Rightarrow> (nat \<Rightarrow> time) \<Rightarrow> db \<Rightarrow> ledger_error + db \<times> (rejected + operation_row option)" where
  "replay user opid fingerprint clk d = (case expire_leases (clk 0) d of
     Inl e \<Rightarrow> Inl e
   | Inr d1 \<Rightarrow> (case previous user opid fingerprint (clk 1) d1 of
       Inl r \<Rightarrow> Inr (d, Inl r) | Inr p \<Rightarrow> Inr (d1, Inr p)))"

definition get_or_create_budget :: "int \<Rightarrow> db \<Rightarrow> budget_row \<times> db" where
  "get_or_create_budget month d = (case get_row budget_month (budgets d) month of
     Some b \<Rightarrow> (b, d)
   | None \<Rightarrow> let b = \<lparr>budget_month = month, budget_spent = 0, budget_reserved = 0\<rparr>
       in (b, d\<lparr>budgets := budgets d @ [b]\<rparr>))"

definition get_or_create_allowance :: "nat \<Rightarrow> int \<Rightarrow> db \<Rightarrow> allowance_row \<times> db" where
  "get_or_create_allowance user month d =
     (case get_row allowance_key (allowances d) (user, month) of
        Some a \<Rightarrow> (a, d)
      | None \<Rightarrow> let a = \<lparr>allowance_user = user, allowance_month = month, used_ms = 0, reserved_ms = 0,
            allowance_operations = 0\<rparr>
          in (a, d\<lparr>allowances := allowances d @ [a]\<rparr>))"

definition new_operation ::
  "db \<Rightarrow> nat \<Rightarrow> nat \<Rightarrow> int \<Rightarrow> ustr \<Rightarrow> int \<Rightarrow> int \<Rightarrow> nat \<Rightarrow> time \<Rightarrow> operation_row" where
  "new_operation d user opid month fingerprint ms reservation quota now =
     \<lparr>operation_pk = next_operation_pk d, operation_user = Some user, operation_id = opid,
      operation_month = month, operation_fingerprint = fingerprint, operation_state = Running,
      operation_created_at = now, lease_until = now + 180000000, audio_ms = ms, reserved_cost = reservation, operation_cost = 0,
      input_tokens = 0, output_tokens = 0, operation_result = [], result_expires_at = None,
      operation_quota = Some quota, authorized_cost = 0, quota_debit = 0, cost_estimated = False\<rparr>"

text \<open>The writes of an admitted operation: the operation and the four balances it reserves from.\<close>

definition book_operation ::
  "operation_row \<Rightarrow> weekly_quota \<Rightarrow> allowance_row \<Rightarrow> budget_row \<Rightarrow> time \<Rightarrow> db \<Rightarrow> db" where
  "book_operation o' q a b now d =
     d\<lparr>operations := operations d @ [o'], next_operation_pk := Suc (next_operation_pk d),
       quotas := put_row quota_pk (q\<lparr>reserved_usd := reserved_usd q + reserved_cost o',
         quota_operations := Suc (quota_operations q)\<rparr>) (quotas d),
       treasury := (treasury d)\<lparr>processing_reserved := processing_reserved (treasury d) + reserved_cost o',
         treasury_updated_at := now\<rparr>,
       allowances := put_row allowance_key (a\<lparr>reserved_ms := reserved_ms a + audio_ms o',
         allowance_operations := Suc (allowance_operations a)\<rparr>) (allowances d),
       budgets := put_row budget_month (b\<lparr>budget_reserved := budget_reserved b + reserved_cost o'\<rparr>) (budgets d)\<rparr>"

text \<open>The admission of a user to whom a quota has been granted: lines 104 to 141 of \<^verbatim>\<open>reserve\<close>.\<close>

definition admit ::
  "settings \<Rightarrow> nat \<Rightarrow> nat \<Rightarrow> ustr \<Rightarrow> int \<Rightarrow> bool \<Rightarrow> weekly_quota \<Rightarrow> time \<Rightarrow> time \<Rightarrow> db
     \<Rightarrow> rejected + operation_row \<times> db" where
  "admit st user opid fingerprint ms text_operation q month_now lease_now d =
     (let avail = allocated_usd q - used_usd q - reserved_usd q;
          minimum = (if text_operation then 300 else asr_cost ms)
      in if avail < minimum \<or> 2000 \<le> quota_operations q then Inl (Rejected Allowance_exhausted 429)
         else let month = month_start month_now in
           case get_or_create_budget month d of (b, d1) \<Rightarrow>
             case get_or_create_allowance user month d1 of (a, d2) \<Rightarrow>
               if 2000 \<le> allowance_operations a then Inl (Rejected Allowance_exhausted 429)
               else let cap_available = remaining_monthly_cap st month d2 in
                 if cap_available < usd minimum then Inl (Rejected Service_budget_exhausted 503)
                 else let reservation = money (min (min MAX_COST (usd avail)) cap_available);
                          o' = new_operation d2 user opid month fingerprint ms reservation (quota_pk q) lease_now
                   in Inr (o', book_operation o' q a b lease_now d2))"

definition reserve_locked ::
  "settings \<Rightarrow> nat \<Rightarrow> nat \<Rightarrow> ustr \<Rightarrow> int \<Rightarrow> bool \<Rightarrow> (nat \<Rightarrow> time) \<Rightarrow> db
     \<Rightarrow> rejected + (operation_row \<times> bool) \<times> db" where
  "reserve_locked st user opid fingerprint ms text_operation clk d =
     (case previous user opid fingerprint (clk 1) d of
        Inl r \<Rightarrow> Inl r
      | Inr (Some o') \<Rightarrow> Inr ((o', False), d)
      | Inr None \<Rightarrow>
          if (\<exists>o' \<in> set (operations d). operation_user o' = Some user \<and> running o')
          then Inl (Rejected Account_busy 429)
          else if global_concurrency st \<le> length (filter running (operations d))
          then Inl (Rejected Service_busy 503)
          else (case quota_locked (iexact st) user (clk 2) d of (q, _, status, d1) \<Rightarrow>
            if status = Inactive then Inl (Rejected Hosted_unavailable 503)
            else if status = Unfunded then Inl (Rejected Service_budget_exhausted 503)
            else case q of None \<Rightarrow> Inl (Rejected Allocation_waiting 429)
              | Some r \<Rightarrow> (case admit st user opid fingerprint ms text_operation r (clk 3) (clk 4) d1 of
                  Inl e \<Rightarrow> Inl e | Inr (o', d2) \<Rightarrow> Inr ((o', True), d2))))"

definition reserve ::
  "settings \<Rightarrow> user_row \<Rightarrow> nat \<Rightarrow> ustr \<Rightarrow> int \<Rightarrow> bool \<Rightarrow> (nat \<Rightarrow> time) \<Rightarrow> db
     \<Rightarrow> ledger_error + db \<times> (rejected + operation_row \<times> bool)" where
  "reserve st u opid fingerprint ms text_operation clk d =
     (if \<not> funded_enabled st \<or> groq_key st = [] \<or> \<not> user_funded_access u
      then Inr (d, Inl (Rejected Hosted_unavailable 503))
      else if \<not> (if text_operation then ms = 0 else 250 \<le> ms \<and> ms \<le> 300000)
      then Inr (d, Inl (Rejected Invalid_duration 400))
      else case expire_leases (clk 0) d of Inl e \<Rightarrow> Inl e | Inr d1 \<Rightarrow>
        (case reserve_locked st (user_pk u) opid fingerprint ms text_operation clk d1 of
           Inl r \<Rightarrow> Inr (d1, Inl r) | Inr (r, d2) \<Rightarrow> Inr (d2, Inr r)))"

section \<open>Authorization and usage\<close>

definition authorize :: "nat \<Rightarrow> rat \<Rightarrow> time \<Rightarrow> db \<Rightarrow> ledger_error + (rejected + db)" where
  "authorize pk total_cost now d = (case get_row operation_pk (operations d) pk of
     None \<Rightarrow> Inl Does_not_exist
   | Some o' \<Rightarrow> let cost = money_up total_cost in
       if \<not> running o' \<or> lease_until o' \<le> now then Inr (Inl (Rejected Operation_expired 410))
       else if \<not> (authorized_cost o' \<le> cost \<and> cost \<le> reserved_cost o')
       then Inr (Inl (Rejected Allowance_exhausted 429))
       else Inr (Inr (d\<lparr>operations := put_row operation_pk (o'\<lparr>authorized_cost := cost\<rparr>) (operations d)\<rparr>)))"

record usage_report =
  period_starts :: time
  resets_at :: time
  used_percent :: rat
  remaining_percent :: rat
  reserved_percent :: rat
  allocation :: allocation_status
  hosted_available :: bool

text \<open>The percentages are the decimals before they are rounded to six places for JSON.\<close>

definition percentages :: "weekly_quota option \<Rightarrow> rat \<times> rat \<times> rat" where
  "percentages quota = (case quota of
     None \<Rightarrow> (0, 0, 0)
   | Some q \<Rightarrow> if 0 < allocated_usd q then
       let used = min 100 (dec_div (dec_mul (usd (used_usd q)) 100) (usd (allocated_usd q)));
           reserved = min (dec_sub 100 used) (dec_div (dec_mul (usd (reserved_usd q)) 100) (usd (allocated_usd q)));
           remaining = max 0 (dec_sub (dec_sub 100 used) reserved)
       in (used, reserved, remaining)
     else (0, 0, 0))"

definition usage :: "settings \<Rightarrow> nat \<Rightarrow> (nat \<Rightarrow> time) \<Rightarrow> db \<Rightarrow> usage_report \<times> db" where
  "usage st user clk d = (case week_bounds (clk 0) of (start, reset) \<Rightarrow>
     case quota_locked (iexact st) user (clk 0) d of (quota, _, status, d1) \<Rightarrow>
       case percentages quota of (used, reserved, remaining) \<Rightarrow>
         let monthly = get_row allowance_key (allowances d1) (user, month_start (clk 1));
             enabled = funded_enabled st \<and> groq_key st \<noteq> []
               \<and> 0 < remaining_monthly_cap st (month_start (clk 2)) d1
               \<and> (case monthly of None \<Rightarrow> True | Some a \<Rightarrow> allowance_operations a < 2000)
         in (\<lparr>period_starts = start, resets_at = reset, used_percent = used,
              remaining_percent = remaining, reserved_percent = reserved, allocation = status,
              hosted_available = (enabled \<and> status = Available \<and> 0 < remaining)\<rparr>, d1))"

section \<open>Account deletion and maintenance\<close>

text \<open>
  \<^verbatim>\<open>AccountView.delete\<close>: an account with a running operation is kept. Otherwise its settled
  operations lose their text, and the row is deleted with what the foreign keys say: operations and
  quotas stay, without an owner, for the accounting; allowances and e-mail addresses go with the user.
\<close>

datatype deletion = Deleted | Account_is_busy

definition forget_user :: "nat \<Rightarrow> operation_row \<Rightarrow> operation_row" where
  "forget_user user o' = (if operation_user o' = Some user
     then o'\<lparr>operation_result := [], operation_fingerprint := [], operation_user := None\<rparr> else o')"

definition disown_quota :: "nat \<Rightarrow> weekly_quota \<Rightarrow> weekly_quota" where
  "disown_quota user q = (if quota_user q = Some user then q\<lparr>quota_user := None\<rparr> else q)"

definition delete_account :: "nat \<Rightarrow> db \<Rightarrow> deletion \<times> db" where
  "delete_account user d =
     (if get_row user_pk (users d) user = None then (Deleted, d)
      else if (\<exists>o' \<in> set (operations d). operation_user o' = Some user \<and> running o') then (Account_is_busy, d)
      else (Deleted, d\<lparr>users := filter (\<lambda>u. user_pk u \<noteq> user) (users d),
        emails := filter (\<lambda>e. email_user e \<noteq> user) (emails d),
        allowances := filter (\<lambda>a. allowance_user a \<noteq> user) (allowances d),
        operations := map (forget_user user) (operations d),
        quotas := map (disown_quota user) (quotas d)\<rparr>))"

text \<open>
  \<^verbatim>\<open>maintain\<close>, on the tables of this model: leases expire, the week is distributed, replies older
  than their five minutes are emptied and settled operations are forgotten after 31 days.
\<close>

definition clear_result :: "time \<Rightarrow> operation_row \<Rightarrow> operation_row" where
  "clear_result now o' = (case result_expires_at o' of
     Some t \<Rightarrow> if t < now then o'\<lparr>operation_result := []\<rparr> else o' | None \<Rightarrow> o')"

definition purge_operations :: "time \<Rightarrow> db \<Rightarrow> db" where
  "purge_operations now d = d\<lparr>operations :=
     filter (\<lambda>o'. running o' \<or> now - 31 * day_us \<le> operation_created_at o')
       (map (clear_result now) (operations d))\<rparr>"

definition maintain :: "settings \<Rightarrow> (nat \<Rightarrow> time) \<Rightarrow> db \<Rightarrow> ledger_error + db" where
  "maintain st clk d = (case expire_leases (clk 0) d of
     Inl e \<Rightarrow> Inl e
   | Inr d1 \<Rightarrow> Inr (purge_operations (clk 2) (snd (distribute (iexact st) (clk 1) False d1))))"

end
