(* ===== verification/Ledger_Safety.thy ===== *)
theory Ledger_Safety
  imports Ledger
begin

text \<open>
  The laws of the ledger. Every reservation is backed: the treasury, the weekly quota and the
  monthly budget each hold exactly the reservations of the running operations, the treasury has
  spent exactly what the settled operations cost, and the funding invariant (cash covers every
  promise) holds at the same time. Admission, authorization, settlement and lease expiry keep it,
  and under it no settlement raises.
\<close>

section \<open>The invariant\<close>

text \<open>What the running operations selected by \<open>P\<close> hold in reserve.\<close>

definition held :: "(operation_row \<Rightarrow> bool) \<Rightarrow> operation_row list \<Rightarrow> int" where
  "held P ops = row_sum (\<lambda>o'. if running o' \<and> P o' then reserved_cost o' else 0) ops"

definition op_ok :: "db \<Rightarrow> operation_row \<Rightarrow> bool" where
  "op_ok d o' \<longleftrightarrow> operation_pk o' < next_operation_pk d
     \<and> 0 \<le> authorized_cost o' \<and> authorized_cost o' \<le> reserved_cost o'
     \<and> 0 \<le> operation_cost o' \<and> operation_cost o' \<le> reserved_cost o'
     \<and> (running o' \<longrightarrow> operation_cost o' = 0 \<and> operation_month o' \<in> budget_month ` set (budgets d)
          \<and> (\<exists>k \<in> quota_pk ` set (quotas d). operation_quota o' = Some k))"

definition ledger_wf :: "db \<Rightarrow> bool" where
  "ledger_wf d \<longleftrightarrow> keyed operation_pk (operations d) \<and> keyed budget_month (budgets d)
     \<and> (\<forall>o' \<in> set (operations d). op_ok d o')
     \<and> (\<forall>b \<in> set (budgets d). 0 \<le> budget_spent b)"

text \<open>What the funding journal shows as charged by the provider.\<close>

definition charged :: "funding_entry list \<Rightarrow> int" where
  "charged es = row_sum (\<lambda>e. if entry_kind e = Processing_cost \<or> entry_kind e = Processing_estimate
     then amount_usd e else 0) es"

definition reservations_backed :: "db \<Rightarrow> bool" where
  "reservations_backed d \<longleftrightarrow>
     processing_reserved (treasury d) = held (\<lambda>_. True) (operations d)
     \<and> processing_spent (treasury d) = charged (entries d)
     \<and> (\<forall>q \<in> set (quotas d). reserved_usd q = held (\<lambda>o'. operation_quota o' = Some (quota_pk q)) (operations d))
     \<and> (\<forall>b \<in> set (budgets d). budget_reserved b = held (\<lambda>o'. operation_month o' = budget_month b) (operations d))"

definition ledger_inv :: "db \<Rightarrow> time \<Rightarrow> bool" where
  "ledger_inv d T \<longleftrightarrow> fund_inv d T \<and> ledger_wf d \<and> reservations_backed d"

lemmas ledger_defs = ledger_inv_def ledger_wf_def reservations_backed_def

lemma ledger_inv_later: "ledger_inv d T \<Longrightarrow> T \<le> T' \<Longrightarrow> ledger_inv d T'"
  by (auto simp: ledger_inv_def intro: fund_inv_later)

lemma ledger_op_ok: "ledger_inv d T \<Longrightarrow> o' \<in> set (operations d) \<Longrightarrow> op_ok d o'"
  by (simp add: ledger_defs)

section \<open>Moves between a quota and the treasury\<close>

text \<open>
  Moving money between the grant, its reservation and its use keeps the books as long as the
  treasury moves with it: nothing is created, and an expired grant only ever gives money bk.
\<close>

lemma quota_move_inv:
  assumes inv: "fund_inv d now"
    and q: "get_row quota_pk (quotas d) (quota_pk q') = Some q"
    and q': "quota_period q' = quota_period q" "allocated_usd q' = allocated_usd q"
      "used_usd q' = used_usd q + c" "reserved_usd q' = reserved_usd q + x" "quota_ok q'"
    and c: "0 \<le> c" "0 \<le> processing_reserved (treasury d) + x"
    and act: "quota_active d now q \<or> c + x \<le> 0"
    and d': "entries d' = entries d" "periods d' = periods d"
      "quotas d' = put_row quota_pk q' (quotas d)" "next_entry_pk d' = next_entry_pk d"
      "next_quota_pk d' = next_quota_pk d"
      "processing_spent (treasury d') = processing_spent (treasury d) + c"
      "processing_reserved (treasury d') = processing_reserved (treasury d) + x"
  shows "fund_inv d' now"
proof -
  have wf: "fund_wf d now" using inv by (simp add: fund_inv_def)
  have k: "keyed quota_pk (quotas d)" using wf by (simp add: fund_wf_def)
  have qs: "q \<in> set (quotas d)" "quota_pk q = quota_pk q'" using get_row_Some [OF q] by auto
  have a: "quota_active d' now r = quota_active d now r" for r by (simp add: quota_active_def d')
  have a': "quota_active d now q' = quota_active d now q" by (simp add: quota_active_def q')
  have snd: "snd (commitments d' now) = snd (commitments d now)" by (simp add: commitments_def d')
  have fst: "fst (commitments d' now) = fst (commitments d now) - (if quota_active d now q then c + x else 0)"
    using row_sum_put_row [OF k q, of "\<lambda>q. if quota_active d now q then allocated_usd q - used_usd q - reserved_usd q else 0"]
    by (simp add: commitments_def d' a a' q')
  have "solvent d' now"
    using inv act fst snd operating_left_frame [OF d'(1), of now]
    by (auto simp: fund_inv_def solvent_def available_eq d')
  moreover have "fund_wf d' now"
  proof -
    have "quota_ok y \<and> quota_pk y < next_quota_pk d \<and> quota_period y \<in> period_start ` set (periods d)"
      if "y \<in> set (quotas d')" for y
    proof -
      have "y = q' \<or> y \<in> set (quotas d)"
        using that set_put_row_sub [of quota_pk q' "quotas d"] by (auto simp: d')
      then show ?thesis using wf qs q' by (auto simp: fund_wf_def)
    qed
    moreover have "keyed quota_pk (quotas d')" using k by (simp add: d')
    ultimately show ?thesis using wf by (auto simp: fund_wf_def d'(1,2,4,5))
  qed
  ultimately show ?thesis
    using inv c books_balance_frame [OF d'(1), of now] by (simp add: fund_inv_def d')
qed

text \<open>A processing entry is a mirror of the treasury's spending: it moves no other balance.\<close>

lemma processing_entry_inv:
  assumes inv: "fund_inv d now" and k: "k = Processing_cost \<or> k = Processing_estimate" and c: "0 < c"
  shows "fund_inv (insert_entry (new_entry d k c 0 s r now) d) now"
proof -
  let ?e = "new_entry d k c 0 s r now"
  have cnt: "counted now ?e" by (simp add: counted_def)
  have tot: "totals (insert_entry ?e d) now = totals d now"
    using k by (auto simp: totals_insert [OF cnt] split: prod.splits)
  have kt: "kind_total (insert_entry ?e d) now Operating_expense = kind_total d now Operating_expense"
    using k by (auto simp: kind_total_def)
  have bt: "basis_total (insert_entry ?e d) = basis_total d" using k by (auto simp: basis_total_def)
  have ok: "entry_ok now ?e" using k c by (auto simp: entry_ok_def)
  have "fund_wf (insert_entry ?e d) now"
    using inv ok by (auto simp: fund_inv_def fund_wf_def less_Suc_eq)
  moreover have "books_balance (insert_entry ?e d) now"
    using inv tot kt bt by (simp add: fund_inv_def books_balance_def operating_left_def provision_def)
  moreover have "solvent (insert_entry ?e d) now"
    using inv tot by (simp add: fund_inv_def solvent_def available_eq operating_left_def)
  ultimately show ?thesis using inv by (simp add: fund_inv_def)
qed

section \<open>Settlement\<close>

lemma held_put_row:
  assumes "keyed operation_pk ops" "get_row operation_pk ops (operation_pk o1) = Some o0"
  shows "held P (put_row operation_pk o1 ops) = held P ops
    - (if running o0 \<and> P o0 then reserved_cost o0 else 0) + (if running o1 \<and> P o1 then reserved_cost o1 else 0)"
  unfolding held_def by (rule row_sum_put_row [OF assms])

lemma held_append: "held P (ops @ [o1]) = held P ops + (if running o1 \<and> P o1 then reserved_cost o1 else 0)"
  by (simp add: held_def)

lemma held_nonneg: "(\<And>o'. o' \<in> set ops \<Longrightarrow> 0 \<le> reserved_cost o') \<Longrightarrow> 0 \<le> held P ops"
  unfolding held_def by (intro row_sum_nonneg) auto

lemma held_member:
  assumes "o' \<in> set ops" "running o'" "P o'" "\<And>x. x \<in> set ops \<Longrightarrow> 0 \<le> reserved_cost x"
  shows "reserved_cost o' \<le> held P ops"
proof -
  have "(if running o' \<and> P o' then reserved_cost o' else 0) \<le> held P ops"
    unfolding held_def by (intro row_sum_member_le) (use assms in auto)
  then show ?thesis using assms by simp
qed

lemma settled_fields [simp]:
  "operation_pk (settled_operation o' c res i p st est now) = operation_pk o'"
  "operation_user (settled_operation o' c res i p st est now) = operation_user o'"
  "operation_id (settled_operation o' c res i p st est now) = operation_id o'"
  "operation_month (settled_operation o' c res i p st est now) = operation_month o'"
  "operation_fingerprint (settled_operation o' c res i p st est now) = operation_fingerprint o'"
  "operation_quota (settled_operation o' c res i p st est now) = operation_quota o'"
  "operation_state (settled_operation o' c res i p st est now) = st"
  "operation_cost (settled_operation o' c res i p st est now) = c"
  "reserved_cost (settled_operation o' c res i p st est now) = reserved_cost o'"
  "authorized_cost (settled_operation o' c res i p st est now) = authorized_cost o'"
  "operation_result (settled_operation o' c res i p st est now) = res"
  "result_expires_at (settled_operation o' c res i p st est now) = Some (now + 300000000)"
  by (simp_all add: settled_operation_def)

lemma settle_allowance_frame [simp]:
  "entries (settle_allowance o' d) = entries d" "periods (settle_allowance o' d) = periods d"
  "quotas (settle_allowance o' d) = quotas d" "treasury (settle_allowance o' d) = treasury d"
  "budgets (settle_allowance o' d) = budgets d" "operations (settle_allowance o' d) = operations d"
  "next_entry_pk (settle_allowance o' d) = next_entry_pk d" "next_quota_pk (settle_allowance o' d) = next_quota_pk d"
  "next_operation_pk (settle_allowance o' d) = next_operation_pk d" "users (settle_allowance o' d) = users d"
  by (auto simp: settle_allowance_def split: option.splits)

lemma settle_entry_frame [simp]:
  "periods (settle_entry o' c est now d) = periods d"
  "quotas (settle_entry o' c est now d) = quotas d" "treasury (settle_entry o' c est now d) = treasury d"
  "budgets (settle_entry o' c est now d) = budgets d" "operations (settle_entry o' c est now d) = operations d"
  "next_quota_pk (settle_entry o' c est now d) = next_quota_pk d"
  "next_operation_pk (settle_entry o' c est now d) = next_operation_pk d" "users (settle_entry o' c est now d) = users d"
  by (auto simp: settle_entry_def insert_entry_def)

lemma settle_entry_inv: "fund_inv d now \<Longrightarrow> fund_inv (settle_entry o' c est now d) now"
  by (auto simp: settle_entry_def intro: processing_entry_inv)

lemma charged_settle_entry: "0 \<le> c \<Longrightarrow> charged (entries (settle_entry o' c est now d)) = charged (entries d) + c"
  by (auto simp: settle_entry_def charged_def)

text \<open>The rows a settlement of a running operation writes, with the rows it finds.\<close>

lemma settle_locked_rows:
  assumes "running o'" "0 \<le> money_up a" "money_up a \<le> reserved_cost o'"
    and "operation_quota o' = Some (quota_pk q)" "get_row quota_pk (quotas d) (quota_pk q) = Some q"
    and "get_row budget_month (budgets d) (operation_month o') = Some b"
  obtains d' d1 where "settle_locked o' a res i p st est now d = Inr d'"
    "quotas d1 = put_row quota_pk (q\<lparr>reserved_usd := reserved_usd q - reserved_cost o',
        used_usd := used_usd q + money_up a\<rparr>) (quotas d)"
    "budgets d1 = put_row budget_month (b\<lparr>budget_reserved := budget_reserved b - reserved_cost o',
        budget_spent := budget_spent b + money_up a\<rparr>) (budgets d)"
    "processing_reserved (treasury d1) = processing_reserved (treasury d) - reserved_cost o'"
    "processing_spent (treasury d1) = processing_spent (treasury d) + money_up a"
    "entries d1 = entries d" "periods d1 = periods d" "next_entry_pk d1 = next_entry_pk d"
    "next_quota_pk d1 = next_quota_pk d" "next_operation_pk d1 = next_operation_pk d"
    "operations d1 = operations d" "users d1 = users d"
    "d' = (settle_entry o' (money_up a) est now d1)\<lparr>operations := put_row operation_pk
        (settled_operation o' (money_up a) res i p st est now) (operations d)\<rparr>"
proof -
  define dq where "dq = d\<lparr>quotas := put_row quota_pk (q\<lparr>reserved_usd := reserved_usd q - reserved_cost o',
        used_usd := used_usd q + money_up a\<rparr>) (quotas d)\<rparr>"
  define db where "db = (settle_allowance o' dq)\<lparr>budgets := put_row budget_month
      (b\<lparr>budget_reserved := budget_reserved b - reserved_cost o', budget_spent := budget_spent b + money_up a\<rparr>) (budgets d)\<rparr>"
  define d1 where "d1 = settle_treasury o' (money_up a) now db"
  have "settle_quota o' (money_up a) d = Inr dq" using assms by (simp add: settle_quota_def dq_def)
  moreover have "settle_budget o' (money_up a) (settle_allowance o' dq) = Inr db"
    using assms by (simp add: settle_budget_def db_def dq_def)
  ultimately have "settle_locked o' a res i p st est now d
      = Inr ((settle_entry o' (money_up a) est now d1)\<lparr>operations := put_row operation_pk
        (settled_operation o' (money_up a) res i p st est now) (operations d1)\<rparr>)"
    using assms by (simp add: settle_locked_def d1_def Let_def)
  moreover have "operations d1 = operations d" by (simp add: d1_def settle_treasury_def db_def dq_def)
  ultimately show thesis
    by (intro that [of _ d1]) (simp_all add: d1_def settle_treasury_def db_def dq_def)
qed

lemma op_rows:
  assumes inv: "ledger_inv d T" and o': "o' \<in> set (operations d)" "running o'"
  obtains q b where "operation_quota o' = Some (quota_pk q)" "get_row quota_pk (quotas d) (quota_pk q) = Some q"
    "get_row budget_month (budgets d) (operation_month o') = Some b"
    "reserved_cost o' \<le> reserved_usd q" "reserved_cost o' \<le> processing_reserved (treasury d)"
    "q \<in> set (quotas d)" "b \<in> set (budgets d)" "budget_month b = operation_month o'"
proof -
  have ops: "op_ok d x" if "x \<in> set (operations d)" for x using inv that by (simp add: ledger_defs)
  have nn: "0 \<le> reserved_cost x" if "x \<in> set (operations d)" for x using ops [OF that] by (simp add: op_ok_def)
  obtain q where q: "q \<in> set (quotas d)" "operation_quota o' = Some (quota_pk q)"
    using ops [OF o'(1)] o'(2) by (auto simp: op_ok_def)
  obtain b where b: "b \<in> set (budgets d)" "budget_month b = operation_month o'"
    using ops [OF o'(1)] o'(2) by (auto simp: op_ok_def)
  have "keyed quota_pk (quotas d)" "keyed budget_month (budgets d)"
    using inv by (simp_all add: ledger_defs fund_defs)
  from get_row_keyed [OF this(1) q(1)] get_row_keyed [OF this(2) b(1)]
  have rows: "get_row quota_pk (quotas d) (quota_pk q) = Some q"
    "get_row budget_month (budgets d) (operation_month o') = Some b" using b by simp_all
  have "reserved_usd q = held (\<lambda>o'. operation_quota o' = Some (quota_pk q)) (operations d)"
    "processing_reserved (treasury d) = held (\<lambda>_. True) (operations d)"
    using inv q by (simp_all add: ledger_defs)
  with held_member [OF o' _ nn] q rows b show thesis
    by (intro that [of q b]) (simp_all)
qed

lemma backed_put_row:
  assumes bk: "reservations_backed d" and kq: "keyed quota_pk (quotas d)" and kb: "keyed budget_month (budgets d)"
    and ko: "keyed operation_pk (operations d)"
    and g: "get_row operation_pk (operations d) (operation_pk o1) = Some o'"
    and o': "running o'" "\<not> running o1"
    and q: "operation_quota o' = Some (quota_pk q)" "get_row quota_pk (quotas d) (quota_pk q) = Some q"
    and b: "get_row budget_month (budgets d) (operation_month o') = Some b"
    and d': "operations d' = put_row operation_pk o1 (operations d)"
      "quotas d' = put_row quota_pk (q\<lparr>reserved_usd := reserved_usd q - reserved_cost o',
         used_usd := u\<rparr>) (quotas d)"
      "budgets d' = put_row budget_month (b\<lparr>budget_reserved := budget_reserved b - reserved_cost o',
         budget_spent := s\<rparr>) (budgets d)"
      "processing_reserved (treasury d') = processing_reserved (treasury d) - reserved_cost o'"
      "processing_spent (treasury d') = processing_spent (treasury d) + c"
      "charged (entries d') = charged (entries d) + c"
  shows "reservations_backed d'"
proof -
  have h: "held P (operations d') = held P (operations d) - (if P o' then reserved_cost o' else 0)" for P
    using held_put_row [OF ko g, of P] o' by (simp add: d')
  have bm: "budget_month b = operation_month o'" "b \<in> set (budgets d)" using get_row_Some [OF b] by auto
  have qs: "q \<in> set (quotas d)" using get_row_Some [OF q(2)] by auto
  have "reserved_usd x = held (\<lambda>o'. operation_quota o' = Some (quota_pk x)) (operations d')"
    if "x \<in> set (quotas d')" for x
  proof (cases "quota_pk x = quota_pk q")
    case True
    have "x = q\<lparr>reserved_usd := reserved_usd q - reserved_cost o', used_usd := u\<rparr>"
      using that True by (auto simp: d' dest!: put_row_member)
    then show ?thesis using bk qs q(1) by (simp add: h reservations_backed_def)
  next
    case False
    have "x \<in> set (quotas d)" using that False by (auto simp: d' put_row_def split: if_splits)
    then show ?thesis using bk False q(1) by (simp add: h reservations_backed_def)
  qed
  moreover have "budget_reserved x = held (\<lambda>o'. operation_month o' = budget_month x) (operations d')"
    if "x \<in> set (budgets d')" for x
  proof (cases "budget_month x = budget_month b")
    case True
    have "x = b\<lparr>budget_reserved := budget_reserved b - reserved_cost o', budget_spent := s\<rparr>"
      using that True by (auto simp: d' dest!: put_row_member)
    then show ?thesis using bk bm by (simp add: h reservations_backed_def)
  next
    case False
    have "x \<in> set (budgets d)" using that False by (auto simp: d' put_row_def split: if_splits)
    then show ?thesis using bk False bm by (simp add: h reservations_backed_def)
  qed
  ultimately show ?thesis using bk by (simp add: reservations_backed_def h d'(4,5,6))
qed

lemma ledger_wf_put:
  assumes wf: "ledger_wf d" and o1: "op_ok d o1"
    and d': "operations d' = put_row operation_pk o1 (operations d)" "next_operation_pk d' = next_operation_pk d"
      "quota_pk ` set (quotas d') = quota_pk ` set (quotas d)" "map budget_month (budgets d') = map budget_month (budgets d)"
    and b: "\<forall>b \<in> set (budgets d'). 0 \<le> budget_spent b"
  shows "ledger_wf d'"
proof -
  have bm: "budget_month ` set (budgets d') = budget_month ` set (budgets d)"
    using d'(4) by (metis list.set_map)
  have "op_ok d' x" if "x \<in> set (operations d')" for x
  proof -
    have "x = o1 \<or> x \<in> set (operations d)"
      using that set_put_row_sub [of operation_pk o1 "operations d"] by (auto simp: d')
    then have "op_ok d x" using wf o1 by (auto simp: ledger_wf_def)
    then show ?thesis by (simp add: op_ok_def d' bm)
  qed
  moreover have "keyed operation_pk (operations d')" using wf by (simp add: d' ledger_wf_def)
  moreover have "keyed budget_month (budgets d')" using wf by (simp add: d' ledger_wf_def)
  ultimately show ?thesis using b by (simp add: ledger_wf_def)
qed

text \<open>A change that adds to no month's total of charges and reservations.\<close>

definition lighter :: "db \<Rightarrow> db \<Rightarrow> bool" where
  "lighter d d' \<longleftrightarrow> (\<forall>b' \<in> set (budgets d'). \<exists>b \<in> set (budgets d). budget_month b' = budget_month b
     \<and> budget_spent b' + budget_reserved b' \<le> budget_spent b + budget_reserved b)"

lemma lighter_refl [simp]: "lighter d d"
  by (auto simp: lighter_def)

lemma lighter_trans: "lighter a b \<Longrightarrow> lighter b c \<Longrightarrow> lighter a c"
  unfolding lighter_def by fastforce

lemma settle_locked_inv:
  assumes inv: "ledger_inv d now" and o': "o' \<in> set (operations d)" "running o'"
    and c: "0 \<le> money_up a" "money_up a \<le> reserved_cost o'" and st: "st \<noteq> Running"
  obtains d' where "settle_locked o' a res i p st est now d = Inr d'" "ledger_inv d' now"
    "operations d' = put_row operation_pk (settled_operation o' (money_up a) res i p st est now) (operations d)"
    "next_operation_pk d' = next_operation_pk d" "users d' = users d"
    "kind_total d' now Contribution = kind_total d now Contribution" "lighter d d'"
proof -
  let ?c = "money_up a" let ?o = "settled_operation o' (money_up a) res i p st est now"
  obtain q b where r: "operation_quota o' = Some (quota_pk q)" "get_row quota_pk (quotas d) (quota_pk q) = Some q"
    "get_row budget_month (budgets d) (operation_month o') = Some b"
    "reserved_cost o' \<le> reserved_usd q" "reserved_cost o' \<le> processing_reserved (treasury d)"
    "q \<in> set (quotas d)" "b \<in> set (budgets d)" "budget_month b = operation_month o'"
    by (rule op_rows [OF inv o'])
  obtain d' d1 where eq: "settle_locked o' a res i p st est now d = Inr d'"
    and d1: "quotas d1 = put_row quota_pk (q\<lparr>reserved_usd := reserved_usd q - reserved_cost o',
        used_usd := used_usd q + ?c\<rparr>) (quotas d)"
    "budgets d1 = put_row budget_month (b\<lparr>budget_reserved := budget_reserved b - reserved_cost o',
        budget_spent := budget_spent b + ?c\<rparr>) (budgets d)"
    "processing_reserved (treasury d1) = processing_reserved (treasury d) - reserved_cost o'"
    "processing_spent (treasury d1) = processing_spent (treasury d) + ?c"
    "entries d1 = entries d" "periods d1 = periods d" "next_entry_pk d1 = next_entry_pk d"
    "next_quota_pk d1 = next_quota_pk d" "next_operation_pk d1 = next_operation_pk d"
    "operations d1 = operations d" "users d1 = users d"
    and d': "d' = (settle_entry o' ?c est now d1)\<lparr>operations := put_row operation_pk ?o (operations d)\<rparr>"
    by (rule settle_locked_rows [OF o'(2) c r(1-3)])
  have fi: "fund_inv d now" and wf: "ledger_wf d" and bk: "reservations_backed d"
    using inv by (simp_all add: ledger_inv_def)
  have keys: "keyed quota_pk (quotas d)" "keyed budget_month (budgets d)" "keyed operation_pk (operations d)"
    using inv by (simp_all add: ledger_defs fund_defs)
  have g: "get_row operation_pk (operations d) (operation_pk ?o) = Some o'"
    using get_row_keyed [OF keys(3) o'(1)] by simp
  have ok: "op_ok d o'" using wf o' by (simp add: ledger_wf_def)
  have qok: "quota_ok q" using fi r(6) by (simp add: fund_inv_def fund_wf_def)
  have "fund_inv d1 now"
    by (rule quota_move_inv [OF fi _ _ _ _ _ _ _ _ _ d1(5,6,1,7,8), where q = q and c = ?c and x = "- reserved_cost o'"])
      (use r qok c d1 in \<open>auto simp: quota_ok_def\<close>)
  then have "fund_inv (settle_entry o' ?c est now d1) now" by (rule settle_entry_inv)
  then have "fund_inv d' now" using fund_inv_frame [of d' "settle_entry o' ?c est now d1" now] by (simp add: d')
  moreover have "reservations_backed d'"
    by (rule backed_put_row [OF bk keys g _ _ r(1-3)])
      (use o' st d1 charged_settle_entry [OF c(1)] in \<open>simp_all add: d' op_ok_def\<close>)
  moreover have "ledger_wf d'"
  proof (rule ledger_wf_put [OF wf, of ?o])
    show "op_ok d ?o" using ok st c by (simp add: op_ok_def)
    show "\<forall>b \<in> set (budgets d'). 0 \<le> budget_spent b"
      using wf c r(7) by (auto simp: d' d1 ledger_wf_def dest!: put_row_member)
  qed (simp_all add: d' d1)
  moreover have "kind_total d' now Contribution = kind_total d now Contribution"
    by (auto simp: d' settle_entry_def kind_total_def d1)
  moreover have "lighter d d'"
    unfolding lighter_def using r(7) c by (auto simp: d' d1 dest!: put_row_member)
  ultimately show thesis using eq d1 by (intro that [of d']) (simp_all add: ledger_inv_def d')
qed


lemma money_up_usd [simp]: "money_up (usd n) = n"
  by (simp add: money_up_def)

lemma settle_not_running: "\<not> running o' \<Longrightarrow> settle_locked o' a res i p st est now d = Inr d"
  by (simp add: settle_locked_def)

text \<open>
  How an operation row may change: its identity, quota, month and reservation are fixed, the
  authorized cost only grows, and once it has left the running state it is final.
\<close>

definition op_evolves :: "operation_row \<Rightarrow> operation_row \<Rightarrow> bool" where
  "op_evolves a b \<longleftrightarrow> operation_pk b = operation_pk a \<and> operation_user b = operation_user a
     \<and> operation_id b = operation_id a \<and> operation_month b = operation_month a
     \<and> operation_fingerprint b = operation_fingerprint a \<and> operation_quota b = operation_quota a
     \<and> reserved_cost b = reserved_cost a \<and> lease_until b = lease_until a
     \<and> authorized_cost a \<le> authorized_cost b \<and> (\<not> running a \<longrightarrow> b = a)"

lemma op_evolves_refl [simp]: "op_evolves a a"
  by (simp add: op_evolves_def)

lemma op_evolves_trans: "op_evolves a b \<Longrightarrow> op_evolves b c \<Longrightarrow> op_evolves a c"
  unfolding op_evolves_def by (cases "running a") auto

lemma op_evolves_settled [simp]: "running o' \<Longrightarrow> op_evolves o' (settled_operation o' c res i p st est now)"
  by (simp add: op_evolves_def) (simp add: settled_operation_def)

lemma put_row_evolves:
  assumes "keyed operation_pk ops" "o' \<in> set ops" "op_evolves o' o1"
  shows "list_all2 op_evolves ops (put_row operation_pk o1 ops)"
proof -
  have same: "x = o'" if "x \<in> set ops" "operation_pk x = operation_pk o1" for x
  proof -
    have "operation_pk x = operation_pk o'" using that(2) assms(3) by (simp add: op_evolves_def)
    with get_row_keyed [OF assms(1) that(1)] have "Some x = get_row operation_pk ops (operation_pk o')" by metis
    then show ?thesis unfolding get_row_keyed [OF assms(1,2)] by simp
  qed
  have "op_evolves x (if operation_pk x = operation_pk o1 then o1 else x)" if "x \<in> set ops" for x
  proof (cases "operation_pk x = operation_pk o1")
    case True
    then show ?thesis unfolding same [OF that True] if_P [OF True] using assms(3) by simp
  qed simp
  then show ?thesis by (simp add: put_row_def list_all2_conv_all_nth)
qed

text \<open>Settlement changes nothing, or settles one running row at a cost within its reservation.\<close>

lemma settle_cases:
  assumes inv: "ledger_inv d now" and s: "settle pk res cost i p est now d = Inr d'"
  obtains (final) o' where "get_row operation_pk (operations d) pk = Some o'" "\<not> running o'" "d' = d"
    | (settled) o' c where "get_row operation_pk (operations d) pk = Some o'" "running o'"
        "c = money_up (case cost of None \<Rightarrow> usd (authorized_cost o') | Some c \<Rightarrow> c)"
        "0 \<le> c" "c \<le> reserved_cost o'" "ledger_inv d' now"
        "operations d' = put_row operation_pk (settled_operation o' c res i p
           (if res \<noteq> [] then Complete else Uncertain) (est \<or> cost = None) now) (operations d)"
        "next_operation_pk d' = next_operation_pk d" "users d' = users d"
        "kind_total d' now Contribution = kind_total d now Contribution" "lighter d d'"
proof (cases "get_row operation_pk (operations d) pk")
  case (Some o')
  let ?a = "case cost of None \<Rightarrow> usd (authorized_cost o') | Some c \<Rightarrow> c"
  let ?st = "if res \<noteq> [] then Complete else Uncertain"
  have eq: "settle_locked o' ?a res i p ?st (est \<or> cost = None) now d = Inr d'"
    using s Some by (simp add: settle_def)
  have o': "o' \<in> set (operations d)" using get_row_Some [OF Some] by simp
  show thesis
  proof (cases "running o'")
    case True
    have c: "0 \<le> money_up ?a" "money_up ?a \<le> reserved_cost o'"
      using eq True by (simp_all add: settle_locked_def Let_def split: if_splits)
    have st: "?st \<noteq> Running" by simp
    show thesis
      by (rule settle_locked_inv [OF inv o' True c st, of res i p "est \<or> cost = None"])
        (rule settled [OF Some True refl c], use eq in simp_all)
  next
    case False
    then show thesis using eq by (intro final [OF Some]) (simp_all add: settle_not_running)
  qed
qed (use s in \<open>simp add: settle_def\<close>)

lemma settle_inv:
  assumes inv: "ledger_inv d now" and s: "settle pk res cost i p est now d = Inr d'"
  shows "ledger_inv d' now" "list_all2 op_evolves (operations d) (operations d')"
    "next_operation_pk d' = next_operation_pk d" "users d' = users d"
    "kind_total d' now Contribution = kind_total d now Contribution" "lighter d d'"
proof -
  have k: "keyed operation_pk (operations d)" using inv by (simp add: ledger_defs)
  have "ledger_inv d' now \<and> list_all2 op_evolves (operations d) (operations d')
    \<and> next_operation_pk d' = next_operation_pk d \<and> users d' = users d
    \<and> kind_total d' now Contribution = kind_total d now Contribution \<and> lighter d d'"
    using inv s
  proof (cases rule: settle_cases)
    case (final o')
    then show ?thesis using inv by (simp add: list_all2_same)
  next
    case (settled o' c)
    have "o' \<in> set (operations d)" using get_row_Some [OF settled(1)] by simp
    from put_row_evolves [OF k this op_evolves_settled [OF settled(2)]] settled(6-11)
    show ?thesis by simp
  qed
  then show "ledger_inv d' now" "list_all2 op_evolves (operations d) (operations d')"
    "next_operation_pk d' = next_operation_pk d" "users d' = users d"
    "kind_total d' now Contribution = kind_total d now Contribution" "lighter d d'" by blast+
qed

section \<open>Lease expiry\<close>

text \<open>
  The leases an expiry finds are settled one after the other, each at the cost it was
  authorized for; no settlement fails, and every other operation keeps its row.
\<close>

definition expired_row :: "time \<Rightarrow> operation_row \<Rightarrow> operation_row" where
  "expired_row now o' = (if running o' \<and> lease_until o' < now
     then settled_operation o' (authorized_cost o') [] 0 0 Uncertain True now else o')"

lemma expire_each_inv:
  assumes "ledger_inv d now" "distinct (map operation_pk os)" "set os \<subseteq> set (operations d)"
    and "\<And>o'. o' \<in> set os \<Longrightarrow> running o'"
  shows "\<exists>d'. expire_each os now d = Inr d' \<and> ledger_inv d' now
    \<and> operations d' = map (\<lambda>o'. if o' \<in> set os
          then settled_operation o' (authorized_cost o') [] 0 0 Uncertain True now else o') (operations d)
    \<and> next_operation_pk d' = next_operation_pk d \<and> users d' = users d
    \<and> kind_total d' now Contribution = kind_total d now Contribution \<and> lighter d d'"
  using assms
proof (induction os arbitrary: d)
  case (Cons o' os)
  let ?f = "\<lambda>o'. settled_operation o' (authorized_cost o') [] 0 0 Uncertain True now"
  have o': "o' \<in> set (operations d)" "running o'" using Cons.prems by auto
  have ok: "op_ok d o'" using Cons.prems(1) o' by (simp add: ledger_defs)
  obtain d1 where d1: "settle_locked o' (usd (authorized_cost o')) [] 0 0 Uncertain True now d = Inr d1"
    "ledger_inv d1 now" "operations d1 = put_row operation_pk (?f o') (operations d)"
    "next_operation_pk d1 = next_operation_pk d" "users d1 = users d"
    "kind_total d1 now Contribution = kind_total d now Contribution" "lighter d d1"
    by (rule settle_locked_inv [OF Cons.prems(1) o', of "usd (authorized_cost o')" Uncertain "[]" 0 0 True])
      (use ok in \<open>auto simp: op_ok_def\<close>)
  have k: "keyed operation_pk (operations d)" using Cons.prems(1) by (simp add: ledger_defs)
  have pk: "operation_pk x = operation_pk o' \<longleftrightarrow> x = o'" if "x \<in> set (operations d)" for x
    using k o'(1) that by (metis get_row_keyed option.inject)
  have ops: "operations d1 = map (\<lambda>x. if x = o' then ?f x else x) (operations d)"
    using pk by (auto simp: d1(3) put_row_def)
  have "x \<noteq> o'" if "x \<in> set os" for x using that Cons.prems(2) by auto
  then have sub: "set os \<subseteq> set (operations d1)" using Cons.prems(3) by (force simp: ops)
  obtain d' where d': "expire_each os now d1 = Inr d'" "ledger_inv d' now"
    "operations d' = map (\<lambda>x. if x \<in> set os then ?f x else x) (operations d1)"
    "next_operation_pk d' = next_operation_pk d1" "users d' = users d1"
    "kind_total d' now Contribution = kind_total d1 now Contribution" "lighter d1 d'"
    using Cons.IH [OF d1(2) _ sub] Cons.prems by auto
  have "?f o' \<notin> set os"
    using Cons.prems(4) [of "?f o'"] by auto
  then have "operations d' = map (\<lambda>x. if x \<in> set (o' # os) then ?f x else x) (operations d)"
    using \<open>\<And>x. x \<in> set os \<Longrightarrow> x \<noteq> o'\<close> by (auto simp: d'(3) ops)
  then show ?case using d' d1 lighter_trans [OF d1(7) d'(7)] by simp
qed simp

lemma expire_leases_inv:
  assumes inv: "ledger_inv d now"
  obtains d' where "expire_leases now d = Inr d'" "ledger_inv d' now"
    "operations d' = map (expired_row now) (operations d)"
    "next_operation_pk d' = next_operation_pk d" "users d' = users d"
    "kind_total d' now Contribution = kind_total d now Contribution" "lighter d d'"
proof -
  let ?os = "filter (\<lambda>o'. running o' \<and> lease_until o' < now) (operations d)"
  have "keyed operation_pk (operations d)" using inv by (simp add: ledger_defs)
  then have dist: "distinct (map operation_pk ?os)" by (rule distinct_map_filter)
  obtain d' where d': "expire_each ?os now d = Inr d'" "ledger_inv d' now"
    "operations d' = map (\<lambda>o'. if o' \<in> set ?os
          then settled_operation o' (authorized_cost o') [] 0 0 Uncertain True now else o') (operations d)"
    "next_operation_pk d' = next_operation_pk d" "users d' = users d"
    "kind_total d' now Contribution = kind_total d now Contribution" "lighter d d'"
  proof -
    have "set ?os \<subseteq> set (operations d)" "\<And>o'. o' \<in> set ?os \<Longrightarrow> running o'" by auto
    from expire_each_inv [OF inv dist this] that show thesis by blast
  qed
  have "operations d' = map (expired_row now) (operations d)"
    unfolding d'(3) by (intro map_cong) (simp_all add: expired_row_def)
  with d' show thesis by (intro that [of d']) (simp_all add: expire_leases_def)
qed


section \<open>Admission\<close>

text \<open>A change of users, e-mails or allowances alone keeps the invariant.\<close>

lemma ledger_inv_frame:
  assumes "entries d' = entries d" "periods d' = periods d" "quotas d' = quotas d"
    "next_entry_pk d' = next_entry_pk d" "next_quota_pk d' = next_quota_pk d" "treasury d' = treasury d"
    "operations d' = operations d" "budgets d' = budgets d" "next_operation_pk d' = next_operation_pk d"
  shows "ledger_inv d' T = ledger_inv d T"
  using assms fund_inv_frame [of d' d T] by (simp add: ledger_defs op_ok_def)

lemma held_zero: "(\<And>x. x \<in> set ops \<Longrightarrow> running x \<Longrightarrow> \<not> P x) \<Longrightarrow> held P ops = 0"
  unfolding held_def by (rule row_sum_zero) auto

lemma get_or_create_budget_inv:
  assumes inv: "ledger_inv d T" and g: "get_or_create_budget m d = (b, d')"
  shows "ledger_inv d' T" "get_row budget_month (budgets d') m = Some b"
    and "\<exists>bs. d' = d\<lparr>budgets := bs\<rparr>"
    and "(case get_row budget_month (budgets d) m of None \<Rightarrow> budget_spent b = 0 \<and> budget_reserved b = 0
           \<and> set (budgets d') = insert b (set (budgets d)) | Some b0 \<Rightarrow> b = b0 \<and> d' = d)"
proof -
  have "ledger_inv d' T \<and> get_row budget_month (budgets d') m = Some b \<and> (\<exists>bs. d' = d\<lparr>budgets := bs\<rparr>)
    \<and> (case get_row budget_month (budgets d) m of None \<Rightarrow> budget_spent b = 0 \<and> budget_reserved b = 0
           \<and> set (budgets d') = insert b (set (budgets d)) | Some b0 \<Rightarrow> b = b0 \<and> d' = d)"
  proof (cases "get_row budget_month (budgets d) m")
    case (Some b0)
    then show ?thesis using g inv by (auto simp: get_or_create_budget_def intro!: exI [of _ "budgets d"])
  next
    case None
    then have m: "m \<notin> budget_month ` set (budgets d)" by (simp add: get_row_None)
    have b: "b = \<lparr>budget_month = m, budget_spent = 0, budget_reserved = 0\<rparr>" and d': "d' = d\<lparr>budgets := budgets d @ [b]\<rparr>"
      using g None by (auto simp: get_or_create_budget_def Let_def)
    have "held (\<lambda>o'. operation_month o' = m) (operations d) = 0"
      using inv m by (intro held_zero) (auto simp: ledger_defs op_ok_def)
    moreover have "fund_inv d' T" using inv fund_inv_frame [of d' d T] by (simp add: d' ledger_inv_def)
    ultimately have "ledger_inv d' T"
      using inv m by (auto simp: ledger_defs d' b op_ok_def)
    then show ?thesis using None by (auto simp: d' get_row_append b)
  qed
  then show "ledger_inv d' T" "get_row budget_month (budgets d') m = Some b" "\<exists>bs. d' = d\<lparr>budgets := bs\<rparr>"
    "(case get_row budget_month (budgets d) m of None \<Rightarrow> budget_spent b = 0 \<and> budget_reserved b = 0
           \<and> set (budgets d') = insert b (set (budgets d)) | Some b0 \<Rightarrow> b = b0 \<and> d' = d)"
    by blast+
qed

lemma get_or_create_allowance_frame:
  "get_or_create_allowance u m d = (a, d') \<Longrightarrow> \<exists>as. d' = d\<lparr>allowances := as\<rparr>"
  by (auto simp: get_or_create_allowance_def Let_def split: option.splits intro: exI [of _ "allowances d"])

lemma book_operation_inv:
  assumes inv: "ledger_inv d now" and q: "q \<in> set (quotas d)" "quota_active d now q"
    and b: "get_row budget_month (budgets d) (operation_month o') = Some b"
    and o': "running o'" "operation_pk o' = next_operation_pk d" "operation_cost o' = 0" "authorized_cost o' = 0"
      "operation_quota o' = Some (quota_pk q)"
    and r: "0 \<le> reserved_cost o'" "reserved_cost o' \<le> allocated_usd q - used_usd q - reserved_usd q"
  shows "ledger_inv (book_operation o' q a b t d) now"
proof -
  let ?d = "book_operation o' q a b t d"
  let ?q = "q\<lparr>reserved_usd := reserved_usd q + reserved_cost o', quota_operations := Suc (quota_operations q)\<rparr>"
  let ?b = "b\<lparr>budget_reserved := budget_reserved b + reserved_cost o'\<rparr>"
  have fi: "fund_inv d now" and wf: "ledger_wf d" and bk: "reservations_backed d"
    using inv by (simp_all add: ledger_inv_def)
  have keys: "keyed quota_pk (quotas d)" using fi by (simp add: fund_defs)
  have gq: "get_row quota_pk (quotas d) (quota_pk ?q) = Some q" using get_row_keyed [OF keys q(1)] by simp
  have qok: "quota_ok q" using fi q by (simp add: fund_inv_def fund_wf_def)
  have bm: "budget_month b = operation_month o'" "b \<in> set (budgets d)" using get_row_Some [OF b] by auto
  have "0 \<le> processing_reserved (treasury d)" using fi by (simp add: fund_inv_def)
  then have "fund_inv ?d now"
    by (intro quota_move_inv [OF fi gq, where c = 0 and x = "reserved_cost o'"])
      (use q r qok in \<open>auto simp: book_operation_def quota_ok_def\<close>)
  moreover have "ledger_wf ?d"
  proof -
    have quota: "quota_pk ` set (quotas ?d) = quota_pk ` set (quotas d)"
      and month: "budget_month ` set (budgets ?d) = budget_month ` set (budgets d)"
      by (simp_all add: book_operation_def)
    have "operation_month o' \<in> budget_month ` set (budgets d)" using bm by force
    then have "op_ok ?d o'" using o' r q by (simp add: op_ok_def quota month) (auto simp: book_operation_def)
    moreover have "op_ok ?d x" if "x \<in> set (operations d)" for x
      using wf that by (auto simp: ledger_wf_def op_ok_def quota month) (auto simp: book_operation_def)
    moreover have "next_operation_pk d \<notin> operation_pk ` set (operations d)"
      using wf by (auto simp: ledger_wf_def op_ok_def)
    moreover have "operations ?d = operations d @ [o']" "keyed budget_month (budgets ?d)"
      using wf by (simp_all add: book_operation_def ledger_wf_def)
    moreover have "0 \<le> budget_spent x" if "x \<in> set (budgets ?d)" for x
      using that wf bm(2) by (auto simp: book_operation_def ledger_wf_def dest!: put_row_member)
    ultimately show ?thesis using wf o' by (auto simp: ledger_wf_def)
  qed
  moreover have "reservations_backed ?d"
  proof -
    have "reserved_usd x = held (\<lambda>o'. operation_quota o' = Some (quota_pk x)) (operations ?d)"
      if "x \<in> set (quotas ?d)" for x
      using that bk q o' by (auto simp: book_operation_def held_append reservations_backed_def dest!: put_row_member)
    moreover have "budget_reserved x = held (\<lambda>o'. operation_month o' = budget_month x) (operations ?d)"
      if "x \<in> set (budgets ?d)" for x
      using that bk bm o' by (auto simp: book_operation_def held_append reservations_backed_def dest!: put_row_member)
    ultimately show ?thesis using bk o' by (simp add: reservations_backed_def) (simp add: book_operation_def held_append)
  qed
  ultimately show ?thesis by (simp add: ledger_inv_def)
qed


lemma admit_cases:
  assumes "admit st user opid fp ms txt q mnow lnow d = Inr (o', d')"
  obtains b d1 a d2 cap where "get_or_create_budget (month_start mnow) d = (b, d1)"
    "get_or_create_allowance user (month_start mnow) d1 = (a, d2)"
    "(if txt then 300 else asr_cost ms) \<le> allocated_usd q - used_usd q - reserved_usd q"
    "quota_operations q < 2000" "allowance_operations a < 2000"
    "cap = remaining_monthly_cap st (month_start mnow) d2" "usd (if txt then 300 else asr_cost ms) \<le> cap"
    "o' = new_operation d2 user opid (month_start mnow) fp ms
       (money (min (min MAX_COST (usd (allocated_usd q - used_usd q - reserved_usd q))) cap))
       (quota_pk q) lnow"
    "d' = book_operation o' q a b lnow d2"
proof -
  obtain b d1 where 1: "get_or_create_budget (month_start mnow) d = (b, d1)" by fastforce
  obtain a d2 where 2: "get_or_create_allowance user (month_start mnow) d1 = (a, d2)" by fastforce
  show thesis using assms 1 2
    by (intro that [of b d1 a d2 "remaining_monthly_cap st (month_start mnow) d2"])
      (auto simp: admit_def Let_def split: if_splits)
qed

lemma asr_cost_nonneg: "0 \<le> asr_cost ms"
proof -
  have "0 \<le> dec_div (dec_mul (of_int (max ((ms + 999) div 1000) 10)) (4 / 100)) 3600"
    by (simp add: dec_div_def dec_mul_def dec28_nonneg)
  then have "0 \<le> quantize_up (dec_div (dec_mul (of_int (max ((ms + 999) div 1000) 10)) (4 / 100)) 3600)"
    by (simp add: quantize_up_def)
  then show ?thesis by (simp add: asr_cost_def money_up_def)
qed

text \<open>What is set aside: never negative, at most the quota's remainder, two cents, and the monthly cap.\<close>

lemma reservation_bounds:
  assumes "0 \<le> (m::int)" "m \<le> avail" "usd m \<le> cap"
  defines "r \<equiv> money (min (min MAX_COST (usd avail)) cap)"
  shows "0 \<le> r" "r \<le> avail" "r \<le> 20000000" "usd r \<le> cap"
proof -
  let ?x = "min (min MAX_COST (usd avail)) cap"
  have "usd 0 \<le> usd m" "usd m \<le> usd avail" using assms(1,2) by (simp_all only: usd_le_iff)
  then have "0 \<le> usd avail" "0 \<le> cap" using assms(3) unfolding usd_0 by linarith+
  then have x: "0 \<le> ?x" by (simp add: MAX_COST_def)
  have q: "r = quantize_down ?x" by (simp add: r_def money_def)
  show "0 \<le> r" unfolding q by (rule quantize_down_nonneg [OF x])
  show "r \<le> avail" unfolding q by (intro quantize_down_le x) simp
  have "MAX_COST = usd 20000000" by (simp add: MAX_COST_def usd_def)
  then show "r \<le> 20000000" unfolding q by (intro quantize_down_le x) simp
  have "usd r \<le> ?x" unfolding q by (rule usd_quantize_down [OF x])
  then show "usd r \<le> cap" by simp
qed

lemma new_operation_fields [simp]:
  "operation_pk (new_operation d u i m fp ms r q l) = next_operation_pk d"
  "operation_user (new_operation d u i m fp ms r q l) = Some u"
  "operation_id (new_operation d u i m fp ms r q l) = i"
  "operation_month (new_operation d u i m fp ms r q l) = m"
  "operation_fingerprint (new_operation d u i m fp ms r q l) = fp"
  "operation_state (new_operation d u i m fp ms r q l) = Running"
  "reserved_cost (new_operation d u i m fp ms r q l) = r"
  "operation_cost (new_operation d u i m fp ms r q l) = 0"
  "authorized_cost (new_operation d u i m fp ms r q l) = 0"
  "operation_quota (new_operation d u i m fp ms r q l) = Some q"
  "lease_until (new_operation d u i m fp ms r q l) = l + 180000000"
  by (simp_all add: new_operation_def)

lemma admit_inv:
  assumes inv: "ledger_inv d now" and q: "q \<in> set (quotas d)" "quota_active d now q"
    and ad: "admit st user opid fp ms txt q mnow lnow d = Inr (o', d')"
  shows "ledger_inv d' now" "operations d' = operations d @ [o']" "running o'" "operation_user o' = Some user"
    "operation_id o' = opid" "reserved_cost o' \<le> 20000000" "operation_fingerprint o' = fp"
    "reserved_cost o' \<le> allocated_usd q - used_usd q - reserved_usd q" "entries d' = entries d"
proof -
  obtain b d1 a d2 cap where c: "get_or_create_budget (month_start mnow) d = (b, d1)"
    "get_or_create_allowance user (month_start mnow) d1 = (a, d2)"
    "(if txt then 300 else asr_cost ms) \<le> allocated_usd q - used_usd q - reserved_usd q"
    "quota_operations q < 2000" "allowance_operations a < 2000"
    "cap = remaining_monthly_cap st (month_start mnow) d2" "usd (if txt then 300 else asr_cost ms) \<le> cap"
    "o' = new_operation d2 user opid (month_start mnow) fp ms
       (money (min (min MAX_COST (usd (allocated_usd q - used_usd q - reserved_usd q))) cap))
       (quota_pk q) lnow"
    "d' = book_operation o' q a b lnow d2"
    by (rule admit_cases [OF ad])
  have "0 \<le> (if txt then 300 else asr_cost ms)" by (simp add: asr_cost_nonneg)
  note rb = reservation_bounds [OF this c(3,7)]
  note b = get_or_create_budget_inv [OF inv c(1)]
  obtain bs where d1: "d1 = d\<lparr>budgets := bs\<rparr>" using b(3) by blast
  obtain as where d2: "d2 = d1\<lparr>allowances := as\<rparr>" using get_or_create_allowance_frame [OF c(2)] by blast
  have inv2: "ledger_inv d2 now" using b(1) ledger_inv_frame [of d2 d1 now] by (simp add: d2)
  have "ledger_inv (book_operation o' q a b lnow d2) now"
    by (rule book_operation_inv [OF inv2]) (use q b(2) rb in \<open>simp_all add: c(8) d1 d2 quota_active_def\<close>)
  then show "ledger_inv d' now" by (simp add: c(9))
  show "operations d' = operations d @ [o']" "entries d' = entries d" unfolding c(9) by (simp_all add: book_operation_def d1 d2)
  show "running o'" "operation_user o' = Some user" "operation_id o' = opid" "reserved_cost o' \<le> 20000000"
    "operation_fingerprint o' = fp"
    "reserved_cost o' \<le> allocated_usd q - used_usd q - reserved_usd q"
    using rb by (simp_all add: c(8))
qed


section \<open>The quota interface\<close>

text \<open>
  What admission relies on: a provider of weekly quotas that keeps the books and hands out rows of
  the quota table that are active now and belong to the user.
\<close>

locale quota_provider =
  fixes grant :: "nat \<Rightarrow> time \<Rightarrow> db \<Rightarrow> weekly_quota option \<times> funding_period option \<times> allocation_status \<times> db"
    and ready :: "db \<Rightarrow> time \<Rightarrow> bool"
  assumes grant_keeps: "ready d now \<Longrightarrow> grant user now d = (q, p, s, d') \<Longrightarrow> ledger_inv d' now"
    and grant_active: "ready d now \<Longrightarrow> grant user now d = (Some r, p, s, d') \<Longrightarrow>
      r \<in> set (quotas d') \<and> quota_active d' now r \<and> quota_user r = Some user"
    and grant_operations: "grant user now d = (q, p, s, d') \<Longrightarrow> operations d' = operations d \<and> entries d' = entries d"
begin

lemma admitted_inv:
  assumes "ready d now" and g: "grant user now d = (Some q, p, s, d1)"
    and ad: "admit st user opid fp ms txt q mnow lnow d1 = Inr (o', d')"
  shows "ledger_inv d' now" "operations d' = operations d @ [o']" "running o'" "operation_user o' = Some user"
    "operation_id o' = opid" "reserved_cost o' \<le> 20000000" "operation_fingerprint o' = fp"
    "entries d' = entries d"
  using admit_inv [OF grant_keeps [OF assms(1) g] _ _ ad] grant_active [OF assms(1) g] grant_operations [OF g]
  by simp_all

end

text \<open>Granting new, unused quotas changes no reservation.\<close>

lemma new_quotas_ledger:
  assumes inv: "ledger_inv d now" and fi: "fund_inv d' now"
    and fr: "operations d' = operations d" "budgets d' = budgets d" "next_operation_pk d' = next_operation_pk d"
      "entries d' = entries d" "processing_spent (treasury d') = processing_spent (treasury d)"
      "processing_reserved (treasury d') = processing_reserved (treasury d)"
    and qs: "\<exists>qs. quotas d' = quotas d @ qs \<and> (\<forall>q \<in> set qs. reserved_usd q = 0)"
  shows "ledger_inv d' now"
proof -
  obtain qs where qs: "quotas d' = quotas d @ qs" "\<forall>q \<in> set qs. reserved_usd q = 0" using qs by blast
  have "held (\<lambda>o'. operation_quota o' = Some (quota_pk x)) (operations d) = 0" if "x \<in> set qs" for x
  proof (rule held_zero)
    fix o' assume o': "o' \<in> set (operations d)" "running o'"
    have "quota_pk x \<notin> quota_pk ` set (quotas d)"
      using fi that by (auto simp: fund_defs qs)
    moreover obtain k where "k \<in> set (quotas d)" "operation_quota o' = Some (quota_pk k)"
      using ledger_op_ok [OF inv o'(1)] o'(2) by (auto simp: op_ok_def)
    ultimately show "operation_quota o' \<noteq> Some (quota_pk x)" by (metis imageI option.inject)
  qed
  then have "reservations_backed d'"
    using inv qs by (auto simp: ledger_inv_def reservations_backed_def fr)
  moreover have "ledger_wf d'" using inv qs by (auto simp: ledger_inv_def ledger_wf_def op_ok_def fr)
  ultimately show ?thesis using fi by (simp add: ledger_inv_def)
qed

lemma quota_locked_ledger:
  assumes inv: "ledger_inv d now" and cb: "cash_bound d now"
    and ql: "quota_locked ix user now d = (q, p, status, d')"
  shows "ledger_inv d' now"
proof (rule new_quotas_ledger [OF inv])
  show "fund_inv d' now" using quota_locked_spec(1) [OF _ cb ql] inv by (simp add: ledger_inv_def)
qed (use quota_locked_frame [OF ql] in simp_all)

interpretation quota: quota_provider "quota_locked ix" "\<lambda>d now. ledger_inv d now \<and> cash_bound d now"
proof unfold_locales
  fix d now user q p s d'
  assume "ledger_inv d now \<and> cash_bound d now" "quota_locked ix user now d = (q, p, s, d')"
  then show "ledger_inv d' now" by (auto intro: quota_locked_ledger)
next
  fix d now user r p s d'
  assume "ledger_inv d now \<and> cash_bound d now" "quota_locked ix user now d = (Some r, p, s, d')"
  then show "r \<in> set (quotas d') \<and> quota_active d' now r \<and> quota_user r = Some user"
    using quota_locked_spec(2) by (auto simp: ledger_inv_def)
next
  fix user now d q p s d'
  assume "quota_locked ix user now d = (q, p, s, d')"
  then show "operations d' = operations d \<and> entries d' = entries d" using quota_locked_frame by blast
qed

section \<open>The service under load\<close>

text \<open>The bounds on concurrency: one running operation per user, and a global number of slots.\<close>

definition slots_ok :: "settings \<Rightarrow> db \<Rightarrow> bool" where
  "slots_ok st d \<longleftrightarrow> length (filter running (operations d)) \<le> global_concurrency st
     \<and> distinct (map operation_user (filter (\<lambda>o'. running o' \<and> operation_user o' \<noteq> None) (operations d)))
     \<and> distinct (map (\<lambda>o'. (operation_user o', operation_id o'))
         (filter (\<lambda>o'. operation_user o' \<noteq> None) (operations d)))"

text \<open>A stretch of wall-clock readings: the clock never runs backwards.\<close>

definition clock_from :: "time \<Rightarrow> (nat \<Rightarrow> time) \<Rightarrow> bool" where
  "clock_from T clk \<longleftrightarrow> T \<le> clk 0 \<and> (\<forall>i. clk i \<le> clk (Suc i))"

lemma clock_from_mono: "clock_from T clk \<Longrightarrow> i \<le> j \<Longrightarrow> T \<le> clk i \<and> clk i \<le> clk j"
proof -
  assume c: "clock_from T clk" and "i \<le> j"
  have m: "a \<le> b \<Longrightarrow> clk a \<le> clk b" for a b
    using lift_Suc_mono_le [of clk a b] c by (simp add: clock_from_def)
  show ?thesis using m [of 0 i] m [OF \<open>i \<le> j\<close>] c by (auto simp: clock_from_def)
qed

lemma reserve_locked_cases:
  assumes "reserve_locked st user opid fp ms txt clk d = Inr ((o', fresh), d')"
  obtains (replayed) "\<not> fresh" "d' = d" "previous user opid fp (clk 1) d = Inr (Some o')"
    | (admitted) q p s d1 where "fresh" "previous user opid fp (clk 1) d = Inr None"
        "\<forall>x \<in> set (operations d). running x \<longrightarrow> operation_user x \<noteq> Some user"
        "length (filter running (operations d)) < global_concurrency st"
        "quota_locked (iexact st) user (clk 2) d = (Some q, p, s, d1)"
        "admit st user opid fp ms txt q (clk 3) (clk 4) d1 = Inr (o', d')"
proof (cases "previous user opid fp (clk 1) d")
  case (Inr r)
  show thesis
  proof (cases r)
    case None
    obtain q p s d1 where ql: "quota_locked (iexact st) user (clk 2) d = (q, p, s, d1)"
      by (cases "quota_locked (iexact st) user (clk 2) d")
    show thesis using assms Inr None ql
      by (intro admitted [of "the q" p s d1])
        (auto simp: reserve_locked_def split: if_splits option.splits sum.splits prod.splits)
  qed (use assms Inr replayed in \<open>auto simp: reserve_locked_def\<close>)
qed (use assms in \<open>simp add: reserve_locked_def\<close>)


lemma filter_evolves:
  assumes "list_all2 R xs ys" "\<And>a b. R a b \<Longrightarrow> P b \<Longrightarrow> P a \<and> f b = f a"
  shows "length (filter P ys) \<le> length (filter P xs)"
    and "set (map f (filter P ys)) \<subseteq> set (map f (filter P xs))"
    and "distinct (map f (filter P xs)) \<Longrightarrow> distinct (map f (filter P ys))"
proof -
  have "length (filter P ys) \<le> length (filter P xs) \<and> set (map f (filter P ys)) \<subseteq> set (map f (filter P xs))
    \<and> (distinct (map f (filter P xs)) \<longrightarrow> distinct (map f (filter P ys)))"
    using assms(1)
  proof (induction rule: list_all2_induct)
    case (Cons x xs y ys)
    have "P y \<Longrightarrow> P x \<and> f y = f x" using assms(2) Cons(1) by auto
    then show ?case using Cons(3) by (cases "P x"; cases "P y") auto
  qed simp
  then show "length (filter P ys) \<le> length (filter P xs)"
    and "set (map f (filter P ys)) \<subseteq> set (map f (filter P xs))"
    and "distinct (map f (filter P xs)) \<Longrightarrow> distinct (map f (filter P ys))" by blast+
qed

lemma op_evolves_running: "op_evolves a b \<Longrightarrow> running b \<Longrightarrow> running a"
  by (auto simp: op_evolves_def)

text \<open>Operations keep their slot: they may stop running or lose their owner, never the reverse.\<close>

definition same_slot :: "operation_row \<Rightarrow> operation_row \<Rightarrow> bool" where
  "same_slot a b \<longleftrightarrow> (running b \<longrightarrow> running a) \<and> operation_id b = operation_id a
     \<and> (operation_user b = None \<or> operation_user b = operation_user a)"

lemma slots_same:
  assumes ev: "list_all2 same_slot (operations d) (operations d')" and ok: "slots_ok st d"
  shows "slots_ok st d'"
proof -
  have "length (filter running (operations d')) \<le> length (filter running (operations d))"
    by (rule filter_evolves(1) [OF ev, of _ operation_id]) (auto simp: same_slot_def)
  moreover have "distinct (map operation_user (filter (\<lambda>o'. running o' \<and> operation_user o' \<noteq> None) (operations d')))"
    by (rule filter_evolves(3) [OF ev]) (use ok in \<open>auto simp: same_slot_def slots_ok_def\<close>)
  moreover have "distinct (map (\<lambda>o'. (operation_user o', operation_id o'))
      (filter (\<lambda>o'. operation_user o' \<noteq> None) (operations d')))"
    by (rule filter_evolves(3) [OF ev]) (use ok in \<open>auto simp: same_slot_def slots_ok_def\<close>)
  ultimately show ?thesis using ok by (simp add: slots_ok_def)
qed

lemma slots_evolve:
  assumes "list_all2 op_evolves (operations d) (operations d')" "slots_ok st d"
  shows "slots_ok st d'"
  using slots_same [OF list_all2_mono [OF assms(1)] assms(2)] by (auto simp: op_evolves_def same_slot_def)

lemma filter_twice:
  "distinct (map f (filter P xs)) \<Longrightarrow> distinct (map f (filter P (filter Q xs)))"
  "length (filter P (filter Q xs)) \<le> length (filter P xs)"
  by (induction xs) auto

lemma slots_filter:
  assumes "operations d' = filter Q (operations d)" "slots_ok st d"
  shows "slots_ok st d'"
  using assms(2) unfolding slots_ok_def assms(1)
  by (elim conjE, intro conjI order_trans [OF filter_twice(2)] filter_twice(1)) assumption+

lemma slots_admit:
  assumes ok: "slots_ok st d" and ops: "operations d' = operations d @ [o']"
    and o': "running o'" "operation_user o' = Some u" "operation_id o' = i"
    and free: "\<forall>x \<in> set (operations d). running x \<longrightarrow> operation_user x \<noteq> Some u"
      "length (filter running (operations d)) < global_concurrency st"
    and new: "find_operation d u i = None"
  shows "slots_ok st d'"
proof -
  have "\<forall>x \<in> set (operations d). (operation_user x, operation_id x) \<noteq> (Some u, i)"
    using new by (auto simp: find_operation_def find_None_iff)
  then show ?thesis using ok o' free by (auto simp: slots_ok_def ops)
qed

lemma expired_evolves: "list_all2 op_evolves ops (map (expired_row now) ops)"
  by (induction ops) (auto simp: expired_row_def)

text \<open>Authorization.\<close>

lemma authorize_cases:
  assumes "authorize pk amt now d = Inr (Inr d')"
  obtains o' where "get_row operation_pk (operations d) pk = Some o'" "running o'" "now < lease_until o'"
    "authorized_cost o' \<le> money_up amt" "money_up amt \<le> reserved_cost o'"
    "d' = d\<lparr>operations := put_row operation_pk (o'\<lparr>authorized_cost := money_up amt\<rparr>) (operations d)\<rparr>"
  using assms by (auto simp: authorize_def Let_def split: option.splits if_splits)

lemma authorize_inv:
  assumes inv: "ledger_inv d T" and a: "authorize pk amt now d = Inr (Inr d')"
  shows "ledger_inv d' T" "list_all2 op_evolves (operations d) (operations d')"
proof -
  obtain o' where o': "get_row operation_pk (operations d) pk = Some o'" "running o'" "now < lease_until o'"
    "authorized_cost o' \<le> money_up amt" "money_up amt \<le> reserved_cost o'"
    and d': "d' = d\<lparr>operations := put_row operation_pk (o'\<lparr>authorized_cost := money_up amt\<rparr>) (operations d)\<rparr>"
    using a by (rule authorize_cases)
  let ?o = "o'\<lparr>authorized_cost := money_up amt\<rparr>"
  have mem: "o' \<in> set (operations d)" using get_row_Some [OF o'(1)] by simp
  have k: "keyed operation_pk (operations d)" using inv by (simp add: ledger_defs)
  have g: "get_row operation_pk (operations d) (operation_pk ?o) = Some o'" using get_row_keyed [OF k mem] by simp
  have h: "held P (operations d') = held P (operations d)" if "P ?o = P o'" for P
    using held_put_row [OF k g, of P] that by (simp add: d')
  have "ledger_wf d'"
    by (rule ledger_wf_put [of d ?o])
      (use inv ledger_op_ok [OF inv mem] o' in \<open>auto simp: ledger_defs d' op_ok_def\<close>)
  moreover have "reservations_backed d'"
    using inv by (simp add: ledger_inv_def reservations_backed_def h) (simp add: d')
  moreover have "fund_inv d' T" using inv fund_inv_frame [of d' d T] by (simp add: ledger_inv_def d')
  ultimately show "ledger_inv d' T" by (simp add: ledger_inv_def)
  show "list_all2 op_evolves (operations d) (operations d')"
    using put_row_evolves [OF k mem, of ?o] o' by (simp add: d' op_evolves_def)
qed


section \<open>The monthly cap\<close>

definition settings_ok :: "settings \<Rightarrow> bool" where
  "settings_ok st \<longleftrightarrow> (\<exists>B. monthly_budget st = usd B \<and> 0 \<le> B \<and> B < 10 ^ 27)"

definition cap_ok :: "settings \<Rightarrow> db \<Rightarrow> bool" where
  "cap_ok st d \<longleftrightarrow> (\<forall>b \<in> set (budgets d). usd (budget_spent b + budget_reserved b) \<le> monthly_budget st)"

lemma cap_lighter: "cap_ok st d \<Longrightarrow> lighter d d' \<Longrightarrow> cap_ok st d'"
  unfolding cap_ok_def lighter_def by (meson order_trans usd_le_iff)

lemma held_mono: "(\<And>o'. o' \<in> set ops \<Longrightarrow> 0 \<le> reserved_cost o') \<Longrightarrow> (\<And>o'. P o' \<Longrightarrow> Q o') \<Longrightarrow> held P ops \<le> held Q ops"
  unfolding held_def by (rule row_sum_mono) auto

lemma held_split: "held P ops + held (\<lambda>o'. \<not> P o') ops = held (\<lambda>_. True) ops"
  unfolding held_def by (induction ops) auto

lemma earlier_running_held: "earlier_running d m = held (\<lambda>o'. operation_month o' \<noteq> m) (operations d)"
  by (simp add: earlier_running_def held_def)

lemma reserved_cost_nonneg: "ledger_inv d T \<Longrightarrow> o' \<in> set (operations d) \<Longrightarrow> 0 \<le> reserved_cost o'"
  by (drule (1) ledger_op_ok) (simp add: op_ok_def)

text \<open>The decimal subtraction of the cap is exact at the sizes the service can reach.\<close>

lemma remaining_cap_exact:
  assumes inv: "ledger_inv d now" and cb: "cash_bound d now" and cap: "cap_ok st d"
    and B: "monthly_budget st = usd B" "0 \<le> B" "B < 10 ^ 27"
    and b: "get_row budget_month (budgets d) m = Some b"
  shows "remaining_monthly_cap st m d
    = usd (B - (budget_spent b + budget_reserved b) - earlier_running d m)"
proof -
  let ?x = "budget_spent b + budget_reserved b" let ?e = "earlier_running d m"
  have bs: "b \<in> set (budgets d)" using get_row_Some [OF b] by simp
  note nn = reserved_cost_nonneg [OF inv]
  have "0 \<le> budget_reserved b" using inv bs held_nonneg [OF nn] by (auto simp: ledger_defs)
  then have x: "0 \<le> ?x" using inv bs by (simp add: ledger_defs)
  have xB: "?x \<le> B" using cap bs B(1) by (auto simp: cap_ok_def)
  have "?e \<le> held (\<lambda>_. True) (operations d)" unfolding earlier_running_held by (rule held_mono [OF nn]) auto
  also have "\<dots> = processing_reserved (treasury d)" using inv by (simp add: ledger_defs)
  also have "\<dots> < 10 ^ 27"
    using reserved_le_received [of d now] inv cb by (simp add: ledger_inv_def cash_bound_def)
  finally have e: "?e < 10 ^ 27" .
  have e0: "0 \<le> ?e" unfolding earlier_running_held by (rule held_nonneg [OF nn])
  have "dec_sub (usd B) (usd ?x) = usd (B - ?x)" by (rule dec_sub_usd) (use x xB B in simp)
  moreover have "dec_sub (usd (B - ?x)) (usd ?e) = usd (B - ?x - ?e)"
    by (rule dec_sub_usd) (use x xB B e e0 in simp)
  ultimately show ?thesis by (simp add: remaining_monthly_cap_def b B)
qed

text \<open>
  After an admission in a month, what the month has been charged and everything that is still
  running, of whatever month, fits under the cap.
\<close>

lemma admit_cap:
  assumes inv: "ledger_inv d now" and cb: "cash_bound d now" and cap: "cap_ok st d" and st: "settings_ok st"
    and ad: "admit st user opid fp ms txt q mnow lnow d = Inr (o', d')"
  shows "cap_ok st d'"
    and "\<exists>b \<in> set (budgets d'). budget_month b = month_start mnow
      \<and> usd (budget_spent b + held (\<lambda>_. True) (operations d')) \<le> monthly_budget st"
proof -
  obtain B where B: "monthly_budget st = usd B" "0 \<le> B" "B < 10 ^ 27" using st by (auto simp: settings_ok_def)
  let ?m = "month_start mnow"
  obtain b d1 a d2 cp where c: "get_or_create_budget ?m d = (b, d1)"
    "get_or_create_allowance user ?m d1 = (a, d2)"
    "(if txt then 300 else asr_cost ms) \<le> allocated_usd q - used_usd q - reserved_usd q"
    "quota_operations q < 2000" "allowance_operations a < 2000"
    "cp = remaining_monthly_cap st ?m d2" "usd (if txt then 300 else asr_cost ms) \<le> cp"
    "o' = new_operation d2 user opid ?m fp ms
       (money (min (min MAX_COST (usd (allocated_usd q - used_usd q - reserved_usd q))) cp))
       (quota_pk q) lnow"
    "d' = book_operation o' q a b lnow d2"
    by (rule admit_cases [OF ad])
  have "0 \<le> (if txt then 300 else asr_cost ms)" by (simp add: asr_cost_nonneg)
  note rb = reservation_bounds [OF this c(3,7)]
  note g = get_or_create_budget_inv [OF inv c(1)]
  obtain bs where d1: "d1 = d\<lparr>budgets := bs\<rparr>" using g(3) by blast
  obtain as where d2: "d2 = d1\<lparr>allowances := as\<rparr>" using get_or_create_allowance_frame [OF c(2)] by blast
  have inv2: "ledger_inv d2 now" using g(1) ledger_inv_frame [of d2 d1 now] by (simp add: d2)
  have cb2: "cash_bound d2 now" using cb cash_bound_frame [of d2 d now] by (simp add: d1 d2)
  have cap2: "cap_ok st d2"
    using cap g(4) B by (auto simp: cap_ok_def d2 split: option.splits)
  have row: "get_row budget_month (budgets d2) ?m = Some b" using g(2) by (simp add: d2)
  have bm: "b \<in> set (budgets d2)" "budget_month b = ?m" using get_row_Some [OF row] by auto
  let ?r = "reserved_cost o'"
  have "usd ?r \<le> usd (B - (budget_spent b + budget_reserved b) - earlier_running d2 ?m)"
    using rb(4) remaining_cap_exact [OF inv2 cb2 cap2 B row] by (simp add: c(6,8))
  then have r: "?r \<le> B - (budget_spent b + budget_reserved b) - earlier_running d2 ?m" by simp
  have e0: "0 \<le> earlier_running d2 ?m"
    unfolding earlier_running_held by (rule held_nonneg) (rule reserved_cost_nonneg [OF inv2])
  let ?b = "b\<lparr>budget_reserved := budget_reserved b + ?r\<rparr>"
  have bud: "budgets d' = put_row budget_month ?b (budgets d2)" by (simp add: c(9) book_operation_def)
  show "cap_ok st d'"
    using cap2 r e0 by (auto simp: cap_ok_def bud B(1) dest!: put_row_member)
  have "budget_reserved b = held (\<lambda>x. operation_month x = ?m) (operations d2)"
    using inv2 bm by (auto simp: ledger_defs)
  then have "held (\<lambda>_. True) (operations d2) = budget_reserved b + earlier_running d2 ?m"
    using held_split [of "\<lambda>x. operation_month x = ?m" "operations d2"] by (simp add: earlier_running_held)
  moreover have "held (\<lambda>_. True) (operations d') = held (\<lambda>_. True) (operations d2) + ?r"
    unfolding c(9) by (simp add: book_operation_def held_append c(8))
  ultimately have le: "budget_spent ?b + held (\<lambda>_. True) (operations d') \<le> B" using r by simp
  have "?b \<in> set (budgets d')" using bm unfolding bud put_row_def by (auto simp: image_iff intro!: bexI [of _ b])
  then show "\<exists>b \<in> set (budgets d'). budget_month b = ?m
      \<and> usd (budget_spent b + held (\<lambda>_. True) (operations d')) \<le> monthly_budget st"
    using le bm by (intro bexI [of _ ?b]) (simp_all add: B(1))
qed


end
