(* ===== verification/Service.thy ===== *)
theory Service
  imports Ledger_Safety
begin

text \<open>
  The account service as one system: the cash records of \<^verbatim>\<open>funding.py\<close>, the admissions,
  authorizations and settlements of \<^verbatim>\<open>ledger.py\<close>, account deletion and maintenance interleave in
  any order, each one a transaction under the treasury lock. The invariant of this theory holds in
  every state that can be reached from an empty database.
\<close>

section \<open>Recording cash, approving and distributing keep the ledger\<close>

lemma charged_strip:
  "map strip es = map strip es' \<Longrightarrow> charged es = charged es'"
  unfolding charged_def by (erule row_sum_strip) (drule strip_fields, simp)

lemma record_locked_ledger:
  assumes inv: "ledger_inv d now" and a: "0 < amount" "occurred \<le> now"
    and k: "kind \<in> {Contribution, Operating_expense, Operating_reserve, Operating_release}"
    and rec: "record_locked kind amount reference occurred source now d = Inr (e, created, d')"
  shows "ledger_inv d' now" "operations d' = operations d" "budgets d' = budgets d"
proof -
  have fi: "fund_inv d now" using inv by (simp add: ledger_inv_def)
  note fi' = record_locked_inv [OF fi a k rec]
  have "ledger_inv d' now \<and> operations d' = operations d \<and> budgets d' = budgets d"
  proof (cases created)
    case False
    then have "d' = d" using rec by (auto simp: record_locked_eq Let_def split: option.splits if_splits sum.splits)
    then show ?thesis using inv by simp
  next
    case True
    then have rec': "record_locked kind amount reference occurred source now d = Inr (e, True, d')" using rec by simp
    obtain d1 consumed where c: "consumed = consumed_by kind (provision d now) amount"
      and ch: "change_basis_for kind amount consumed d = Inr d1"
      and e: "e = new_entry d1 kind amount consumed source reference occurred"
      and d': "d' = touch now (insert_entry e d1)"
      using rec' by (rule record_created)
    have wf: "fund_wf d now" and pr: "0 \<le> provision d now" using fi by (simp_all add: fund_defs)
    note cb = consumed_by_bounds [OF a(1) pr, of kind]
    have cz: "kind \<noteq> Operating_expense \<longrightarrow> consumed = 0" and ca: "consumed \<le> amount" using cb c by auto
    note ok = change_basis_for_ok [OF wf ca a(1) cz ch]
    obtain es where d1: "d1 = d\<lparr>entries := es\<rparr>" using ok(3) by blast
    have "charged (entries d') = charged (entries d)"
      using charged_strip [OF ok(1)] k by (auto simp: d' e charged_def)
    moreover have "operations d' = operations d" "budgets d' = budgets d" "quotas d' = quotas d"
      "next_operation_pk d' = next_operation_pk d"
      "processing_spent (treasury d') = processing_spent (treasury d)"
      "processing_reserved (treasury d') = processing_reserved (treasury d)"
      by (simp_all add: d' d1 insert_entry_def)
    ultimately show ?thesis
      using inv fi' by (simp add: ledger_inv_def ledger_wf_def op_ok_def reservations_backed_def)
  qed
  then show "ledger_inv d' now" "operations d' = operations d" "budgets d' = budgets d" by auto
qed

lemma valid_amount_pos: "valid_amount (Finite q) \<Longrightarrow> 0 < money q"
proof -
  assume "valid_amount (Finite q)"
  then have "0 < usd (money q)" by (simp add: valid_amount_def)
  then show ?thesis using usd_less_iff [of 0 "money q"] by simp
qed

lemma record_entry_ledger:
  assumes inv: "ledger_inv d T" and T: "T \<le> checked" "checked \<le> now"
    and k: "kind \<in> {Contribution, Operating_expense, Operating_reserve, Operating_release}"
    and rec: "record_entry kind amount reference occurred source checked now d = Inr (e, created, d')"
  shows "ledger_inv d' now" "operations d' = operations d" "budgets d' = budgets d"
proof -
  obtain q t where v: "amount = Finite q" "valid_amount amount" "occurred = Aware t" "t \<le> checked"
    and rl: "record_locked kind (money q) reference t source now d = Inr (e, created, d')"
    using rec by (auto simp: record_entry_def validate_entry_def valid_amount_def
        split: if_splits decimal.splits datetime_arg.splits)
  have inv': "ledger_inv d now" using inv T by (auto intro: ledger_inv_later)
  have "0 < money q" "t \<le> now" using v T by (auto intro: valid_amount_pos)
  from record_locked_ledger [OF inv' this k rl]
  show "ledger_inv d' now" "operations d' = operations d" "budgets d' = budgets d" .
qed

lemma approve_locked_ledger:
  assumes inv: "ledger_inv d T" and ap: "approve_locked now d = (n, d')"
  shows "ledger_inv d' T" "operations d' = operations d" "budgets d' = budgets d"
    "kind_total d' T Contribution = kind_total d T Contribution"
proof -
  have fi: "fund_inv d' T" by (rule approve_locked_inv [OF _ ap]) (use inv in \<open>simp add: ledger_inv_def\<close>)
  have ch: "charged (entries d') = charged (entries d)"
    using ap by (auto simp: approve_locked_def charged_def row_sum_map intro!: row_sum_cong)
  have fr: "operations d' = operations d" "budgets d' = budgets d" "quotas d' = quotas d" "treasury d' = treasury d"
    "next_operation_pk d' = next_operation_pk d"
    using ap by (auto simp: approve_locked_def)
  show "ledger_inv d' T" "operations d' = operations d" "budgets d' = budgets d"
    using inv fi ch by (simp_all add: ledger_inv_def ledger_wf_def op_ok_def reservations_backed_def fr)
  show "kind_total d' T Contribution = kind_total d T Contribution"
    using ap by (auto simp: approve_locked_def kind_total_def row_sum_map counted_def intro!: row_sum_cong)
qed

lemma ledger_inv_touch [simp]: "ledger_inv (touch t d) T = ledger_inv d T"
proof -
  have "fund_inv (touch t d) T = fund_inv d T" by (rule fund_inv_frame) simp_all
  then show ?thesis by (simp add: ledger_inv_def ledger_wf_def op_ok_def reservations_backed_def)
qed

lemma kind_total_touch [simp]: "kind_total (touch t d) now k = kind_total d now k"
  by (simp add: kind_total_def)

lemma distribute_ledger:
  assumes inv: "ledger_inv d now" and cb: "cash_bound d now"
    and di: "distribute ix now confirm d = (p, d')"
  shows "ledger_inv d' now" "operations d' = operations d" "budgets d' = budgets d" "cash_bound d' now"
proof -
  obtain n d1 where ap: "approve_locked now d = (n, d1)" by fastforce
  define d2 where "d2 = (if confirm then touch now d1 else d)"
  note al = approve_locked_ledger [OF inv ap]
  have d2: "ledger_inv d2 now" "cash_bound d2 now" "operations d2 = operations d" "budgets d2 = budgets d"
    using inv cb al by (auto simp: d2_def cash_bound_def)
  have dl: "distribute_locked ix now d2 = (p, d')" using di ap by (simp add: distribute_def d2_def cong: if_cong)
  note fr = distribute_frame [OF dl]
  show "ledger_inv d' now"
  proof (rule new_quotas_ledger [OF d2(1)])
    show "fund_inv d' now" by (rule distribute_locked_inv [OF _ d2(2) dl]) (use d2 in \<open>simp add: ledger_inv_def\<close>)
  qed (use fr in simp_all)
  show "operations d' = operations d" "budgets d' = budgets d" "cash_bound d' now"
    using fr d2 cash_bound_frame [OF fr(1)] by simp_all
qed

section \<open>Deletion and maintenance keep the ledger\<close>

lemma held_map:
  assumes "\<And>o'. o' \<in> set ops \<Longrightarrow> operation_state (f o') = operation_state o' \<and> reserved_cost (f o') = reserved_cost o'
      \<and> (running o' \<longrightarrow> P (f o') = P o')"
  shows "held P (map f ops) = held P ops"
  using assms by (induction ops) (auto simp: held_def)

lemma held_filter: "(\<And>o'. running o' \<Longrightarrow> Q o') \<Longrightarrow> held P (filter Q ops) = held P ops"
  by (induction ops) (auto simp: held_def)

lemma clear_result_fields [simp]:
  "operation_pk (clear_result now o') = operation_pk o'" "operation_state (clear_result now o') = operation_state o'"
  "reserved_cost (clear_result now o') = reserved_cost o'" "operation_quota (clear_result now o') = operation_quota o'"
  "operation_month (clear_result now o') = operation_month o'" "operation_user (clear_result now o') = operation_user o'"
  "operation_id (clear_result now o') = operation_id o'" "operation_cost (clear_result now o') = operation_cost o'"
  "authorized_cost (clear_result now o') = authorized_cost o'"
  by (simp_all add: clear_result_def split: option.splits)

lemma purge_ledger:
  assumes inv: "ledger_inv d T"
  shows "ledger_inv (purge_operations now d) T" "slots_ok st d \<Longrightarrow> slots_ok st (purge_operations now d)"
proof -
  let ?d = "purge_operations now d"
  define Q where "Q = (\<lambda>o'. running o' \<or> now - 31 * day_us \<le> operation_created_at o')"
  define m where "m = d\<lparr>operations := map (clear_result now) (operations d)\<rparr>"
  have ops: "operations ?d = filter Q (operations m)" by (simp add: purge_operations_def Q_def m_def)
  have h: "held P (operations ?d) = held P (operations d)"
    if "\<And>o'. P (clear_result now o') = P o'" for P
    unfolding ops m_def using that by (simp add: held_filter held_map Q_def)
  have "op_ok ?d x" if x: "x \<in> set (operations ?d)" for x
  proof -
    obtain y where "y \<in> set (operations d)" "x = clear_result now y" using x by (auto simp: ops m_def)
    then show ?thesis using ledger_op_ok [OF inv, of y] by (simp add: op_ok_def purge_operations_def)
  qed
  moreover have "keyed operation_pk (operations ?d)"
  proof -
    have "map operation_pk (operations m) = map operation_pk (operations d)" by (simp add: m_def)
    then have "keyed operation_pk (operations m)" using inv by (simp add: ledger_defs)
    then show ?thesis unfolding ops by (rule distinct_map_filter)
  qed
  ultimately have "ledger_wf ?d" using inv by (simp add: ledger_inv_def ledger_wf_def) (simp add: purge_operations_def)
  moreover have "reservations_backed ?d"
    using inv by (simp add: ledger_inv_def reservations_backed_def h) (simp add: purge_operations_def)
  moreover have "fund_inv ?d T" using inv fund_inv_frame [of ?d d T] by (simp add: ledger_inv_def purge_operations_def)
  ultimately show "ledger_inv ?d T" by (simp add: ledger_inv_def)
  show "slots_ok st d \<Longrightarrow> slots_ok st ?d"
    by (rule slots_filter [OF ops], rule slots_same [of d])
      (simp_all add: m_def list_all2_conv_all_nth same_slot_def)
qed

lemma disown_fields [simp]:
  "quota_pk (disown_quota u q) = quota_pk q" "quota_period (disown_quota u q) = quota_period q"
  "allocated_usd (disown_quota u q) = allocated_usd q" "used_usd (disown_quota u q) = used_usd q"
  "reserved_usd (disown_quota u q) = reserved_usd q"
  by (simp_all add: disown_quota_def)

lemma forget_fields [simp]:
  "operation_pk (forget_user u o') = operation_pk o'" "operation_state (forget_user u o') = operation_state o'"
  "reserved_cost (forget_user u o') = reserved_cost o'" "operation_quota (forget_user u o') = operation_quota o'"
  "operation_month (forget_user u o') = operation_month o'" "operation_id (forget_user u o') = operation_id o'"
  "operation_cost (forget_user u o') = operation_cost o'" "authorized_cost (forget_user u o') = authorized_cost o'"
  by (simp_all add: forget_user_def)

lemma disown_fund:
  assumes inv: "fund_inv d T" and q: "quotas d' = map (disown_quota u) (quotas d)"
    and fr: "entries d' = entries d" "periods d' = periods d" "next_entry_pk d' = next_entry_pk d"
      "next_quota_pk d' = next_quota_pk d" "treasury d' = treasury d"
  shows "fund_inv d' T"
proof -
  have act: "quota_active d' T (disown_quota u x) = quota_active d T x" for x by (simp add: quota_active_def fr)
  have com: "commitments d' T = commitments d T"
    by (simp add: commitments_def q row_sum_map act fr cong: if_cong)
  have key: "map quota_pk (quotas d') = map quota_pk (quotas d)" by (simp add: q)
  have "fund_wf d' T"
    unfolding fund_wf_def key using inv by (simp add: fund_inv_def fund_wf_def fr q quota_ok_def)
  then show ?thesis
    using inv com books_balance_frame [OF fr(1), of T] operating_left_frame [OF fr(1), of T]
    by (simp add: fund_inv_def solvent_def available_eq fr)
qed

lemma delete_account_ledger:
  assumes inv: "ledger_inv d T" and del: "delete_account user d = (r, d')"
  shows "ledger_inv d' T" "slots_ok st d \<Longrightarrow> slots_ok st d'" "budgets d' = budgets d" "entries d' = entries d"
proof -
  have "d' = d \<or> (quotas d' = map (disown_quota user) (quotas d) \<and> operations d' = map (forget_user user) (operations d)
      \<and> entries d' = entries d \<and> periods d' = periods d \<and> next_entry_pk d' = next_entry_pk d
      \<and> next_quota_pk d' = next_quota_pk d \<and> treasury d' = treasury d \<and> budgets d' = budgets d
      \<and> next_operation_pk d' = next_operation_pk d)" (is "_ \<or> ?changed")
    using del by (auto simp: delete_account_def split: if_splits)
  then have "ledger_inv d' T \<and> (slots_ok st d \<longrightarrow> slots_ok st d') \<and> budgets d' = budgets d \<and> entries d' = entries d"
  proof
    assume ch: ?changed
    then have fi: "fund_inv d' T" using inv by (intro disown_fund [of d T d' user]) (auto simp: ledger_inv_def)
    have pk: "map operation_pk (operations d') = map operation_pk (operations d)" using ch by simp
    have qi: "quota_pk ` set (quotas d') = quota_pk ` set (quotas d)" using ch by (simp add: image_image)
    have "ledger_wf d'"
      unfolding ledger_wf_def pk op_ok_def qi using inv ch by (auto simp: ledger_inv_def ledger_wf_def op_ok_def)
    moreover have "reservations_backed d'"
      using inv ch by (auto simp: ledger_inv_def reservations_backed_def held_map)
    moreover have "slots_ok st d \<Longrightarrow> slots_ok st d'"
      by (rule slots_same [of d]) (use ch in \<open>simp_all add: list_all2_conv_all_nth same_slot_def forget_user_def\<close>)
    ultimately show ?thesis using fi ch by (simp add: ledger_inv_def)
  qed (use inv in simp)
  then show "ledger_inv d' T" "slots_ok st d \<Longrightarrow> slots_ok st d'" "budgets d' = budgets d" "entries d' = entries d"
    by blast+
qed


section \<open>The service as a step relation\<close>

datatype service_event =
    Contribute decimal ustr datetime_arg ustr
  | Operate ustr decimal ustr datetime_arg ustr
  | Approve
  | Distribute bool
  | Reserve user_row nat ustr int bool
  | Replay nat nat ustr
  | Authorize nat rat
  | Settle nat "(ustr \<times> ustr) list" "rat option" int int bool
  | Usage nat
  | Maintain
  | Delete_account nat
  | Accounts "user_row list" "email_address list"

text \<open>
  A state is the database and the time of the last step. Each rule is one request or job, at
  clock readings that never run backwards; a request that raises leaves the database as it was.
  \<open>Accounts\<close> stands for the authentication package, which owns users and e-mail addresses. Cash
  records stay below \<open>10 ^ 18\<close> dollars in total, the limit under which the 28-digit
  decimal context is exact.
\<close>

inductive service_step :: "settings \<Rightarrow> db \<times> time \<Rightarrow> service_event \<Rightarrow> db \<times> time \<Rightarrow> bool" for st where
  contribute: "T \<le> t0 \<Longrightarrow> t0 \<le> t1 \<Longrightarrow> record_contribution a r oc s t0 t1 d = Inr (e, c, d') \<Longrightarrow>
    cash_bound d' t1 \<Longrightarrow> service_step st (d, T) (Contribute a r oc s) (d', t1)"
| operate: "T \<le> t0 \<Longrightarrow> t0 \<le> t1 \<Longrightarrow> record_operating k a r oc s t0 t1 d = Inr (e, c, d') \<Longrightarrow>
    service_step st (d, T) (Operate k a r oc s) (d', t1)"
| approve: "T \<le> t \<Longrightarrow> approve_funding t d = (n, d') \<Longrightarrow> service_step st (d, T) Approve (d', t)"
| distribute: "T \<le> t \<Longrightarrow> distribute (iexact st) t conf d = (p, d') \<Longrightarrow>
    service_step st (d, T) (Distribute conf) (d', t)"
| reserve: "clock_from T clk \<Longrightarrow> reserve st u opid fp ms txt clk d = Inr (d', r) \<Longrightarrow>
    service_step st (d, T) (Reserve u opid fp ms txt) (d', clk 4)"
| replay: "clock_from T clk \<Longrightarrow> replay u opid fp clk d = Inr (d', r) \<Longrightarrow>
    service_step st (d, T) (Replay u opid fp) (d', clk 1)"
| authorize: "T \<le> t \<Longrightarrow> authorize pk a t d = Inr (Inr d') \<Longrightarrow>
    service_step st (d, T) (Authorize pk a) (d', t)"
| settle: "T \<le> t \<Longrightarrow> settle pk res cost i p est t d = Inr d' \<Longrightarrow>
    service_step st (d, T) (Settle pk res cost i p est) (d', t)"
| usage: "clock_from T clk \<Longrightarrow> usage st u clk d = (report, d') \<Longrightarrow>
    service_step st (d, T) (Usage u) (d', clk 2)"
| maintain: "clock_from T clk \<Longrightarrow> maintain st clk d = Inr d' \<Longrightarrow> service_step st (d, T) Maintain (d', clk 2)"
| delete_account: "T \<le> t \<Longrightarrow> delete_account u d = (r, d') \<Longrightarrow>
    service_step st (d, T) (Delete_account u) (d', t)"
| accounts: "service_step st (d, T) (Accounts us es) (d\<lparr>users := us, emails := es\<rparr>, T)"
| raised: "T \<le> t \<Longrightarrow> service_step st (d, T) ev (d, t)"

inductive_cases service_stepE: "service_step st s ev s'"

definition service_inv :: "settings \<Rightarrow> db \<times> time \<Rightarrow> bool" where
  "service_inv st s \<longleftrightarrow> (case s of (d, T) \<Rightarrow>
     ledger_inv d T \<and> slots_ok st d \<and> cap_ok st d \<and> cash_bound d T)"

definition fresh_service :: "settings \<Rightarrow> db \<times> time \<Rightarrow> bool" where
  "fresh_service st s \<longleftrightarrow> settings_ok st \<and> (\<exists>us es. fst s = empty_db us es)"

lemma cash_bound_later:
  assumes "ledger_inv d T" "T \<le> T'"
  shows "cash_bound d T' = cash_bound d T"
  using kind_total_later [of d T T'] assms by (simp add: cash_bound_def ledger_inv_def fund_inv_def)

lemma service_inv_later: "service_inv st (d, T) \<Longrightarrow> T \<le> T' \<Longrightarrow> service_inv st (d, T')"
  using cash_bound_later [of d T T'] by (auto simp: service_inv_def intro: ledger_inv_later)

lemma fresh_service_inv:
  assumes "fresh_service st s"
  shows "service_inv st s"
proof -
  obtain us es where "fst s = empty_db us es" using assms by (auto simp: fresh_service_def)
  then obtain T where "s = (empty_db us es, T)" by (cases s) auto
  then show ?thesis
    by (simp add: service_inv_def ledger_defs fund_defs empty_db_def slots_ok_def cap_ok_def
        cash_bound_def held_def charged_def operating_left_def basis_total_def provision_def totals_def
        kind_total_def consumed_total_def available_def commitments_def)
qed


section \<open>Every step keeps the service invariant\<close>

lemma service_invI:
  assumes "service_inv st (d, T)" "T \<le> t"
  shows "ledger_inv d t" "slots_ok st d" "cap_ok st d" "cash_bound d t"
  using service_inv_later [OF assms] by (simp_all add: service_inv_def)

lemma cap_ok_frame: "budgets d' = budgets d \<Longrightarrow> cap_ok st d' = cap_ok st d"
  by (simp add: cap_ok_def)

lemma slots_ok_frame: "operations d' = operations d \<Longrightarrow> slots_ok st d' = slots_ok st d"
  by (simp add: slots_ok_def)

lemma record_contributions:
  assumes "record_locked kind amount reference occurred source now d = Inr (e, c, d')" "fund_inv d now"
    and "kind \<in> {Operating_expense, Operating_reserve, Operating_release}" "0 < amount"
  shows "kind_total d' t Contribution = kind_total d t Contribution"
proof (cases c)
  case False
  then have "d' = d" using assms(1) by (auto simp: record_locked_eq Let_def split: option.splits if_splits sum.splits)
  then show ?thesis by simp
next
  case True
  then have rec: "record_locked kind amount reference occurred source now d = Inr (e, True, d')" using assms(1) by simp
  obtain d1 consumed where c: "consumed = consumed_by kind (provision d now) amount"
      and ch: "change_basis_for kind amount consumed d = Inr d1"
      and e: "e = new_entry d1 kind amount consumed source reference occurred"
      and d': "d' = touch now (insert_entry e d1)"
    using rec by (rule record_created)
  have wf: "fund_wf d now" and pr: "0 \<le> provision d now" using assms(2) by (simp_all add: fund_defs)
  note cb = consumed_by_bounds [OF assms(4) pr, of kind]
  have cz: "kind \<noteq> Operating_expense \<longrightarrow> consumed = 0" and ca: "consumed \<le> amount" using cb c by auto
  note ok = change_basis_for_ok [OF wf ca assms(4) cz ch]
  have "kind_total d1 t Contribution = kind_total d t Contribution" by (rule kind_total_strip [OF ok(1)])
  then show ?thesis using assms(3) by (auto simp: d' e kind_total_def)
qed

lemma operate_inv:
  assumes inv: "service_inv st (d, T)" and T: "T \<le> t0" "t0 \<le> t1"
    and r: "record_operating k a r oc s t0 t1 d = Inr (e, c, d')"
  shows "service_inv st (d', t1)"
proof -
  obtain kind where k: "kind \<in> {Operating_expense, Operating_reserve, Operating_release}"
    and rec: "record_entry kind a r oc s t0 t1 d = Inr (e, c, d')"
    using r by (auto simp: record_operating_def operating_kind_def split: if_splits option.splits)
  have t: "T \<le> t1" using T by simp
  note base = service_invI [OF inv t]
  have kk: "kind \<in> {Contribution, Operating_expense, Operating_reserve, Operating_release}" using k by auto
  have inv0: "ledger_inv d T" using inv by (simp add: service_inv_def)
  note le = record_entry_ledger [OF inv0 T kk rec]
  obtain q x where "a = Finite q" "valid_amount a"
    and rl: "record_locked kind (money q) r x s t1 d = Inr (e, c, d')"
    using rec by (auto simp: record_entry_def validate_entry_def valid_amount_def
        split: if_splits decimal.splits datetime_arg.splits)
  then have pos: "0 < money q" by (simp add: valid_amount_pos)
  have "fund_inv d t1" using base(1) by (simp add: ledger_inv_def)
  from record_contributions [OF rl this k pos] have "cash_bound d' t1" using base(4) by (simp add: cash_bound_def)
  then show ?thesis
    using le base cap_ok_frame [OF le(3)] slots_ok_frame [OF le(2)] by (simp add: service_inv_def)
qed

lemma contribute_inv:
  assumes inv: "service_inv st (d, T)" and T: "T \<le> t0" "t0 \<le> t1"
    and r: "record_contribution a r oc s t0 t1 d = Inr (e, c, d')" and cb: "cash_bound d' t1"
  shows "service_inv st (d', t1)"
proof -
  have t: "T \<le> t1" using T by simp
  note base = service_invI [OF inv t]
  have rec: "record_entry Contribution a r oc s t0 t1 d = Inr (e, c, d')" using r by (simp add: record_contribution_def)
  have inv0: "ledger_inv d T" using inv by (simp add: service_inv_def)
  note le = record_entry_ledger [OF inv0 T _ rec, simplified]
  show ?thesis
    using le base cb cap_ok_frame [OF le(3)] slots_ok_frame [OF le(2)] by (simp add: service_inv_def)
qed

lemma approve_inv:
  assumes inv: "service_inv st (d, T)" and t: "T \<le> t" and ap: "approve_funding t d = (n, d')"
  shows "service_inv st (d', t)"
proof -
  note base = service_invI [OF inv t]
  obtain m d1 where al: "approve_locked t d = (m, d1)" by fastforce
  note le = approve_locked_ledger [OF base(1) al]
  have "d' = touch t d1 \<or> d' = d1" using ap al by (auto simp: approve_funding_def split: if_splits)
  then have "ledger_inv d' t" "operations d' = operations d" "budgets d' = budgets d"
    "kind_total d' t Contribution = kind_total d t Contribution" using le by auto
  then show ?thesis using base cap_ok_frame [of d' d st] slots_ok_frame [of d' d st] by (simp add: service_inv_def cash_bound_def)
qed

lemma distribute_inv:
  assumes inv: "service_inv st (d, T)" and t: "T \<le> t" and di: "distribute ix t conf d = (p, d')"
  shows "service_inv st (d', t)"
proof -
  note base = service_invI [OF inv t]
  note le = distribute_ledger [OF base(1,4) di]
  show ?thesis using base le cap_ok_frame [OF le(3)] slots_ok_frame [OF le(2)] by (simp add: service_inv_def)
qed

lemma expire_service:
  assumes inv: "service_inv st (d, T)" and t: "T \<le> t"
  obtains d' where "expire_leases t d = Inr d'" "service_inv st (d', t)"
    "operations d' = map (expired_row t) (operations d)" "users d' = users d"
proof -
  note base = service_invI [OF inv t]
  obtain d' where d': "expire_leases t d = Inr d'" "ledger_inv d' t"
    "operations d' = map (expired_row t) (operations d)"
    "next_operation_pk d' = next_operation_pk d" "users d' = users d"
    "kind_total d' t Contribution = kind_total d t Contribution" "lighter d d'"
    by (rule expire_leases_inv [OF base(1)])
  have "list_all2 op_evolves (operations d) (operations d')" unfolding d'(3) by (rule expired_evolves)
  then have "slots_ok st d'" using base(2) by (rule slots_evolve)
  then have "service_inv st (d', t)"
    using d' base cap_lighter [OF base(3) d'(7)] by (simp add: service_inv_def cash_bound_def)
  with d' show thesis by (intro that [of d'])
qed

lemma settle_service:
  assumes inv: "service_inv st (d, T)" and t: "T \<le> t" and s: "settle pk res cost i p est t d = Inr d'"
  shows "service_inv st (d', t)"
proof -
  note base = service_invI [OF inv t]
  note se = settle_inv [OF base(1) s]
  show ?thesis
    using se slots_evolve [OF se(2) base(2)] cap_lighter [OF base(3) se(6)] base(4)
    by (simp add: service_inv_def cash_bound_def)
qed

lemma authorize_service:
  assumes inv: "service_inv st (d, T)" and t: "T \<le> t" and a: "authorize pk c t d = Inr (Inr d')"
  shows "service_inv st (d', t)"
proof -
  note base = service_invI [OF inv t]
  note au = authorize_inv [OF base(1) a]
  have "budgets d' = budgets d" "entries d' = entries d" using a by (auto elim: authorize_cases)
  then show ?thesis
    using au slots_evolve [OF au(2) base(2)] base cash_bound_frame [of d' d t] cap_ok_frame [of d' d st]
    by (simp add: service_inv_def)
qed


text \<open>
  The second transaction of an admission, from a state that satisfies the invariant at the time of
  the preceding lease expiry.
\<close>

lemma reserve_locked_service:
  assumes inv: "service_inv st (d, clk 0)" and ck: "clock_from T clk" and ok: "settings_ok st"
    and r: "reserve_locked st user opid fp ms txt clk d = Inr ((o', fresh), d')"
  shows "service_inv st (d', clk 4)"
  using r
proof (cases rule: reserve_locked_cases)
  case replayed
  then show ?thesis using inv service_inv_later clock_from_mono [OF ck, of 0 4] by auto
next
  case (admitted q p s d1)
  have t: "clk 0 \<le> clk 2" "clk 2 \<le> clk 4" using clock_from_mono [OF ck] by auto
  note base = service_invI [OF inv t(1)]
  have ready: "ledger_inv d (clk 2) \<and> cash_bound d (clk 2)" using base by simp
  note ad = quota.admitted_inv [OF ready admitted(5,6)]
  note fr = quota_locked_frame [OF admitted(5)]
  have inv1: "ledger_inv d1 (clk 2)" by (rule quota_locked_ledger [OF base(1,4) admitted(5)])
  have cb1: "cash_bound d1 (clk 2)" using base(4) fr cash_bound_frame [of d1 d "clk 2"] by simp
  have cap1: "cap_ok st d1" using base(3) fr cap_ok_frame [of d1 d st] by simp
  have "find_operation d user opid = None"
    using admitted(2) by (auto simp: previous_def split: option.splits if_splits)
  then have slots: "slots_ok st d'"
    using slots_admit [OF base(2) ad(2,3,4,5) admitted(3,4)] by simp
  have "service_inv st (d', clk 2)"
    using ad(1,8) slots admit_cap(1) [OF inv1 cb1 cap1 ok admitted(6)] base(4) cash_bound_frame [of d' d "clk 2"]
    by (simp add: service_inv_def)
  then show ?thesis using t(2) by (rule service_inv_later)
qed

lemma reserve_service:
  assumes inv: "service_inv st (d, T)" and ck: "clock_from T clk" and ok: "settings_ok st"
    and r: "reserve st u opid fp ms txt clk d = Inr (d', res)"
  shows "service_inv st (d', clk 4)"
proof -
  have t: "T \<le> clk 0" "T \<le> clk 4" "clk 0 \<le> clk 4" using clock_from_mono [OF ck] by auto
  obtain d1 where e: "expire_leases (clk 0) d = Inr d1" "service_inv st (d1, clk 0)"
    using expire_service [OF inv t(1)] by blast
  have "d' = d \<or> d' = d1 \<or>
      (\<exists>x. reserve_locked st (user_pk u) opid fp ms txt clk d1 = Inr (x, d'))"
    using r e(1) by (auto simp: reserve_def split: if_splits sum.splits prod.splits)
  then show ?thesis
    using inv t service_inv_later e(2) reserve_locked_service [OF e(2) ck ok] by (metis prod.exhaust)
qed

lemma replay_service:
  assumes inv: "service_inv st (d, T)" and ck: "clock_from T clk"
    and r: "replay u opid fp clk d = Inr (d', res)"
  shows "service_inv st (d', clk 1)"
proof -
  have t: "T \<le> clk 0" "T \<le> clk 1" "clk 0 \<le> clk 1" using clock_from_mono [OF ck] by auto
  obtain d1 where e: "expire_leases (clk 0) d = Inr d1" "service_inv st (d1, clk 0)"
    using expire_service [OF inv t(1)] by blast
  have "d' = d \<or> d' = d1" using r e(1) by (auto simp: replay_def split: sum.splits)
  then show ?thesis using inv t service_inv_later e(2) by metis
qed

lemma usage_service:
  assumes inv: "service_inv st (d, T)" and ck: "clock_from T clk"
    and u: "usage st user clk d = (report, d')"
  shows "service_inv st (d', clk 2)"
proof -
  have t: "T \<le> clk 0" "clk 0 \<le> clk 2" using clock_from_mono [OF ck] by auto
  note base = service_invI [OF inv t(1)]
  obtain q p s d1 where ql: "quota_locked (iexact st) user (clk 0) d = (q, p, s, d1)"
    by (cases "quota_locked (iexact st) user (clk 0) d")
  have "d' = d1" using u ql by (auto simp: usage_def Let_def split: prod.splits)
  then have ql': "quota_locked (iexact st) user (clk 0) d = (q, p, s, d')" using ql by simp
  note fr = quota_locked_frame [OF ql']
  have "service_inv st (d', clk 0)"
    using quota_locked_ledger [OF base(1,4) ql'] base(2-4) fr cash_bound_frame [of d' d "clk 0"]
      cap_ok_frame [of d' d st] slots_ok_frame [of d' d st]
    by (simp add: service_inv_def)
  then show ?thesis using t(2) by (rule service_inv_later)
qed

lemma maintain_service:
  assumes inv: "service_inv st (d, T)" and ck: "clock_from T clk"
  obtains d' where "maintain st clk d = Inr d'" "service_inv st (d', clk 2)"
proof -
  have t: "T \<le> clk 0" "clk 0 \<le> clk 1" "clk 1 \<le> clk 2" using clock_from_mono [OF ck] by auto
  obtain d1 where e: "expire_leases (clk 0) d = Inr d1" "service_inv st (d1, clk 0)"
    using expire_service [OF inv t(1)] by blast
  obtain p d2 where di: "distribute (iexact st) (clk 1) False d1 = (p, d2)" by fastforce
  note base = service_invI [OF distribute_inv [OF e(2) t(2) di] t(3)]
  have "maintain st clk d = Inr (purge_operations (clk 2) d2)" using e(1) di by (simp add: maintain_def)
  moreover have "service_inv st (purge_operations (clk 2) d2, clk 2)"
    using purge_ledger(1) [OF base(1), where now = "clk 2"] purge_ledger(2) [OF base(1,2), where now = "clk 2"] base cap_ok_frame [of "purge_operations (clk 2) d2" d2 st]
      cash_bound_frame [of "purge_operations (clk 2) d2" d2 "clk 2"]
    by (simp add: service_inv_def purge_operations_def)
  ultimately show thesis by (rule that)
qed

lemma delete_service:
  assumes inv: "service_inv st (d, T)" and t: "T \<le> t" and del: "delete_account user d = (r, d')"
  shows "service_inv st (d', t)"
proof -
  note base = service_invI [OF inv t]
  note de = delete_account_ledger [OF base(1) del]
  show ?thesis
    using de(1) de(2) [OF base(2)] base cap_ok_frame [OF de(3)] cash_bound_frame [OF de(4)]
    by (simp add: service_inv_def)
qed

lemma accounts_service:
  assumes "service_inv st (d, T)"
  shows "service_inv st (d\<lparr>users := us, emails := es\<rparr>, T)"
  using assms ledger_inv_frame [of "d\<lparr>users := us, emails := es\<rparr>" d T]
    cash_bound_frame [of "d\<lparr>users := us, emails := es\<rparr>" d T]
  by (simp add: service_inv_def slots_ok_def cap_ok_def)

lemma service_step_inv:
  assumes "service_step st s ev s'" "settings_ok st" "service_inv st s"
  shows "service_inv st s'"
  using assms(1)
proof cases
  case (maintain T clk d d')
  then show ?thesis using maintain_service [of st d T clk] assms(3) by (metis sum.inject(2))
qed (use assms(2,3) in \<open>blast intro: contribute_inv operate_inv approve_inv distribute_inv reserve_service
      replay_service authorize_service settle_service usage_service delete_service accounts_service
      service_inv_later\<close>)+

interpretation service: stateful_component "fresh_service st" "service_step st"
  "\<lambda>s. settings_ok st \<and> service_inv st s"
proof unfold_locales
  fix s assume "fresh_service st s"
  then show "settings_ok st \<and> service_inv st s" using fresh_service_inv by (auto simp: fresh_service_def)
next
  fix s e s' assume "settings_ok st \<and> service_inv st s" "service_step st s e s'"
  then show "settings_ok st \<and> service_inv st s'" using service_step_inv by blast
qed

section \<open>Settled operations are final\<close>

text \<open>
  How the operation table moves: a row is either new (its key was not yet issued) or descends from
  a row with the same key, and a row that is no longer running keeps its state and its charge.
\<close>

definition settled_same :: "operation_row \<Rightarrow> operation_row \<Rightarrow> bool" where
  "settled_same a b \<longleftrightarrow> operation_pk b = operation_pk a \<and> (\<not> running a \<longrightarrow>
     operation_state b = operation_state a \<and> operation_cost b = operation_cost a
     \<and> quota_debit b = quota_debit a \<and> reserved_cost b = reserved_cost a)"

definition table_final :: "db \<Rightarrow> db \<Rightarrow> bool" where
  "table_final d d' \<longleftrightarrow> next_operation_pk d \<le> next_operation_pk d'
     \<and> (\<forall>b \<in> set (operations d'). next_operation_pk d \<le> operation_pk b
          \<or> (\<exists>a \<in> set (operations d). settled_same a b))"

lemma settled_same_refl [simp]: "settled_same a a"
  by (simp add: settled_same_def)

lemma settled_same_trans: "settled_same a b \<Longrightarrow> settled_same b c \<Longrightarrow> settled_same a c"
  by (cases "running a") (auto simp: settled_same_def)

lemma table_final_trans:
  assumes "table_final a b" "table_final b c"
  shows "table_final a c"
  unfolding table_final_def
proof (intro conjI ballI)
  show "next_operation_pk a \<le> next_operation_pk c" using assms by (auto simp: table_final_def)
  fix z assume "z \<in> set (operations c)"
  then consider "next_operation_pk b \<le> operation_pk z" | y where "y \<in> set (operations b)" "settled_same y z"
    using assms(2) by (auto simp: table_final_def)
  then show "next_operation_pk a \<le> operation_pk z \<or> (\<exists>x \<in> set (operations a). settled_same x z)"
  proof cases
    case 1
    then show ?thesis using assms(1) by (auto simp: table_final_def)
  next
    case 2
    then have "next_operation_pk a \<le> operation_pk y \<or> (\<exists>x \<in> set (operations a). settled_same x y)"
      using assms(1) by (auto simp: table_final_def)
    then show ?thesis using 2(2) settled_same_trans by (metis settled_same_def)
  qed
qed

lemma table_final_map:
  assumes "operations d' = map f (operations d)" "\<And>o'. settled_same o' (f o')"
    "next_operation_pk d' = next_operation_pk d"
  shows "table_final d d'"
  using assms by (auto simp: table_final_def)

lemma table_final_same:
  "operations d' = operations d \<Longrightarrow> next_operation_pk d' = next_operation_pk d \<Longrightarrow> table_final d d'"
  using table_final_map [of d' "\<lambda>x. x" d] by simp

lemma table_final_evolves:
  assumes "list_all2 op_evolves (operations d) (operations d')" "next_operation_pk d' = next_operation_pk d"
  shows "table_final d d'"
proof -
  have "\<exists>a \<in> set (operations d). settled_same a b" if b: "b \<in> set (operations d')" for b
  proof -
    obtain i where i: "i < length (operations d')" "b = operations d' ! i" using b by (auto simp: in_set_conv_nth)
    then have "op_evolves (operations d ! i) b" "i < length (operations d)"
      using assms(1) by (auto simp: list_all2_conv_all_nth)
    then show ?thesis by (intro bexI [of _ "operations d ! i"]) (auto simp: op_evolves_def settled_same_def)
  qed
  then show ?thesis using assms(2) by (auto simp: table_final_def)
qed

lemma table_final_purge: "table_final d (purge_operations now d)"
proof -
  have "settled_same o' (clear_result now o')" for o'
    by (simp add: settled_same_def) (simp add: clear_result_def split: option.splits)
  then show ?thesis by (auto simp: table_final_def purge_operations_def)
qed

lemma reserve_locked_final:
  assumes inv: "service_inv st (d, clk 0)" and ck: "clock_from T clk"
    and r: "reserve_locked st user opid fp ms txt clk d = Inr ((o', fresh), d')"
  shows "table_final d d'"
  using r
proof (cases rule: reserve_locked_cases)
  case replayed
  then show ?thesis by (simp add: table_final_same)
next
  case (admitted q p s d1)
  have t: "clk 0 \<le> clk 2" using clock_from_mono [OF ck] by auto
  note base = service_invI [OF inv t]
  have "ledger_inv d (clk 2) \<and> cash_bound d (clk 2)" using base by simp
  note ad = quota.admitted_inv [OF this admitted(5,6)]
  have n1: "next_operation_pk d1 = next_operation_pk d" using quota_locked_frame [OF admitted(5)] by simp
  have "operation_pk o' = next_operation_pk d \<and> next_operation_pk d' = Suc (next_operation_pk d)"
    using admitted(6)
  proof (rule admit_cases)
    fix b d2 a d3 cap
    assume 1: "get_or_create_budget (month_start (clk 3)) d1 = (b, d2)"
      and 2: "get_or_create_allowance user (month_start (clk 3)) d2 = (a, d3)"
      and o': "o' = new_operation d3 user opid (month_start (clk 3)) fp ms
        (money (min (min MAX_COST (usd (allocated_usd q - used_usd q - reserved_usd q))) cap)) (quota_pk q) (clk 4)"
      and d': "d' = book_operation o' q a b (clk 4) d3"
    have "next_operation_pk d2 = next_operation_pk d1"
      using 1 by (auto simp: get_or_create_budget_def Let_def split: option.splits)
    moreover have "next_operation_pk d3 = next_operation_pk d2" using get_or_create_allowance_frame [OF 2] by auto
    ultimately have "next_operation_pk d3 = next_operation_pk d" using n1 by simp
    then show ?thesis unfolding d' by (simp add: o' book_operation_def)
  qed
  then show ?thesis using ad(2) settled_same_refl by (fastforce simp: table_final_def)
qed

lemma expire_final:
  assumes "service_inv st (d, T)" "T \<le> t" "expire_leases t d = Inr d'"
  shows "table_final d d'" "service_inv st (d', t)"
proof -
  note base = service_invI [OF assms(1,2)]
  obtain d2 where d2: "expire_leases t d = Inr d2" "operations d2 = map (expired_row t) (operations d)"
    "next_operation_pk d2 = next_operation_pk d"
    by (rule expire_leases_inv [OF base(1)]) blast
  then have d2: "d2 = d'" "list_all2 op_evolves (operations d) (operations d2)" "next_operation_pk d2 = next_operation_pk d"
    using assms(3) expired_evolves by simp_all
  then show "table_final d d'" using table_final_evolves by blast
  show "service_inv st (d', t)" using expire_service [OF assms(1,2)] assms(3) by (metis sum.inject(2))
qed

lemma record_entry_next:
  assumes "ledger_inv d T" "T \<le> t0" "t0 \<le> t1" "record_entry kind a r oc s t0 t1 d = Inr (e, c, d')"
  shows "next_operation_pk d' = next_operation_pk d"
  using assms(4)
  by (auto simp: record_entry_def record_locked_def Let_def touch_def insert_entry_def change_basis_for_def
      change_processing_basis_def split: sum.splits option.splits prod.splits if_splits decimal.splits datetime_arg.splits)

lemma reserve_final:
  assumes inv: "service_inv st (d, T)" and ck: "clock_from T clk"
    and r: "reserve st u opid fp ms txt clk d = Inr (d', res)"
  shows "table_final d d'"
proof -
  have t: "T \<le> clk 0" using clock_from_mono [OF ck] by auto
  obtain d1 where e: "expire_leases (clk 0) d = Inr d1"
    using expire_service [OF inv t] by blast
  note ef = expire_final [OF inv t e]
  have "d' = d \<or> d' = d1 \<or> (\<exists>o' f. reserve_locked st (user_pk u) opid fp ms txt clk d1 = Inr ((o', f), d'))"
    using r e by (auto simp: reserve_def split: if_splits sum.splits prod.splits)
  then show ?thesis
  proof (elim disjE exE)
    fix o' f assume "reserve_locked st (user_pk u) opid fp ms txt clk d1 = Inr ((o', f), d')"
    from reserve_locked_final [OF ef(2) ck this] show ?thesis using ef(1) by (blast intro: table_final_trans)
  qed (use ef table_final_same in auto)
qed

lemma maintain_final:
  assumes inv: "service_inv st (d, T)" and ck: "clock_from T clk" and m: "maintain st clk d = Inr d'"
  shows "table_final d d'"
proof -
  have t: "T \<le> clk 0" "clk 0 \<le> clk 1" using clock_from_mono [OF ck] by auto
  obtain d1 where e: "expire_leases (clk 0) d = Inr d1" using expire_service [OF inv t(1)] by blast
  note ef = expire_final [OF inv t(1) e]
  obtain p d2 where di: "distribute_locked (iexact st) (clk 1) d1 = (p, d2)" by fastforce
  have "table_final d1 d2" using distribute_frame [OF di] by (simp add: table_final_same)
  moreover have "d' = purge_operations (clk 2) d2" using m e di by (simp add: maintain_def distribute_def)
  ultimately show ?thesis using ef(1) table_final_purge by (blast intro: table_final_trans)
qed

lemma service_step_final:
  assumes "service_step st (d, T) ev (d', T')" "service_inv st (d, T)"
  shows "table_final d d'"
  using assms(1)
proof cases
  case (contribute t0 a r oc s e c)
  have l: "ledger_inv d T" using assms(2) by (simp add: service_inv_def)
  have "record_entry Contribution a r oc s t0 T' d = Inr (e, c, d')" using contribute by (simp add: record_contribution_def)
  from record_entry_ledger(2) [OF l contribute(2,3) _ this] record_entry_next [OF l contribute(2,3) this]
  show ?thesis by (simp add: table_final_same)
next
  case (operate t0 k a r oc s e c)
  have l: "ledger_inv d T" using assms(2) by (simp add: service_inv_def)
  obtain kind where "kind \<in> {Contribution, Operating_expense, Operating_reserve, Operating_release}"
    and "record_entry kind a r oc s t0 T' d = Inr (e, c, d')"
    using operate(4) by (auto simp: record_operating_def operating_kind_def split: if_splits option.splits)
  from record_entry_ledger(2) [OF l operate(2,3) this] record_entry_next [OF l operate(2,3) this(2)]
  show ?thesis by (simp add: table_final_same)
next
  case (approve n)
  then show ?thesis
    by (intro table_final_same) (auto simp: approve_funding_def approve_locked_def split: if_splits)
next
  case (distribute conf p)
  then have "distribute_locked (iexact st) T' (if conf then touch T' (snd (approve_locked T' d)) else d) = (p, d')"
    by (simp add: distribute_def)
  from distribute_frame [OF this] show ?thesis
    by (intro table_final_same) (simp_all add: approve_locked_def split: if_splits)
next
  case (replay clk u opid fp r)
  have "d' = d \<or> expire_leases (clk 0) d = Inr d'" using replay by (auto simp: replay_def split: sum.splits)
  then show ?thesis
    using expire_final(1) [OF assms(2)] replay clock_from_mono [of T clk 0 0] table_final_same by blast
next
  case (authorize pk a)
  have "ledger_inv d T" using assms(2) by (simp add: service_inv_def)
  note au = authorize_inv [OF this authorize(3)]
  have "next_operation_pk d' = next_operation_pk d" using authorize(3) by (auto elim: authorize_cases)
  then show ?thesis using table_final_evolves [OF au(2)] by simp
next
  case (settle pk res cost i p est)
  note base = service_invI [OF assms(2) settle(2)]
  note se = settle_inv [OF base(1) settle(3)]
  show ?thesis using table_final_evolves [OF se(2,3)] .
next
  case (usage clk u report)
  obtain q p s d1 where ql: "quota_locked (iexact st) u (clk 0) d = (q, p, s, d1)"
    by (cases "quota_locked (iexact st) u (clk 0) d")
  have "d' = d1" using usage ql by (auto simp: usage_def Let_def split: prod.splits)
  then show ?thesis using quota_locked_frame [OF ql] by (simp add: table_final_same)
next
  case (delete_account u r)
  have "settled_same o' (forget_user u o')" for o'
    by (simp add: settled_same_def) (simp add: forget_user_def)
  moreover have "operations d' = operations d \<or> operations d' = map (forget_user u) (operations d)"
    and "next_operation_pk d' = next_operation_pk d"
    using delete_account(3) by (auto simp: delete_account_def split: if_splits)
  ultimately show ?thesis by (auto intro: table_final_same table_final_map)
qed (use assms(2) in \<open>auto intro: reserve_final maintain_final table_final_same\<close>)

lemma run_final:
  assumes "run_of (service_step st) s es s'" "settings_ok st" "service_inv st s"
  shows "table_final (fst s) (fst s')"
  using assms
proof (induction rule: run_of.induct)
  case (run_nil s)
  show ?case by (simp add: table_final_same)
next
  case (run_cons s e t es u)
  have "service_inv st t" using service_step_inv run_cons by blast
  then have "table_final (fst t) (fst u)" using run_cons by blast
  moreover have "table_final (fst s) (fst t)"
    using service_step_final [of st "fst s" "snd s" e "fst t" "snd t"] run_cons by simp
  ultimately show ?case by (rule table_final_trans [rotated])
qed

lemma reachable_service:
  assumes "fresh_service st s" "run_of (service_step st) s es (d, T)"
  shows "ledger_inv d T" "slots_ok st d" "cap_ok st d" "cash_bound d T" "settings_ok st" "service_inv st (d, T)"
  using service.reachable_inv [OF assms] by (simp_all add: service_inv_def)

section \<open>Settling once, expiring, retrying\<close>

lemma settle_succeeds:
  assumes inv: "ledger_inv d now" and g: "get_row operation_pk (operations d) pk = Some o'" and r: "running o'"
    and c: "case cost of None \<Rightarrow> True | Some c \<Rightarrow> 0 \<le> money_up c \<and> money_up c \<le> reserved_cost o'"
  obtains d' o1 where "settle pk res cost i p est now d = Inr d'"
    "get_row operation_pk (operations d') pk = Some o1"
    "operation_cost o1 = (case cost of None \<Rightarrow> authorized_cost o' | Some c \<Rightarrow> money_up c)"
    "operation_state o1 = (if res \<noteq> [] then Complete else Uncertain)"
    "operation_result o1 = res" "result_expires_at o1 = Some (now + 300000000)"
    "operation_fingerprint o1 = operation_fingerprint o'"
proof -
  have mem: "o' \<in> set (operations d)" "operation_pk o' = pk" using get_row_Some [OF g] by auto
  let ?a = "case cost of None \<Rightarrow> usd (authorized_cost o') | Some c \<Rightarrow> c"
  let ?st = "if res \<noteq> [] then Complete else Uncertain"
  have b: "0 \<le> money_up ?a" "money_up ?a \<le> reserved_cost o'"
    using c ledger_op_ok [OF inv mem(1)] by (auto simp: op_ok_def split: option.splits)
  obtain d' where d': "settle_locked o' ?a res i p ?st (est \<or> cost = None) now d = Inr d'"
    "operations d' = put_row operation_pk (settled_operation o' (money_up ?a) res i p ?st (est \<or> cost = None) now) (operations d)"
    by (rule settle_locked_inv [OF inv mem(1) r b, of ?st res i p "est \<or> cost = None"]) auto
  have "settle pk res cost i p est now d = Inr d'" using g d'(1) by (simp add: settle_def)
  moreover have "get_row operation_pk (operations d') pk
      = Some (settled_operation o' (money_up ?a) res i p ?st (est \<or> cost = None) now)"
    using mem by (auto simp: d'(2) get_put_row)
  ultimately show thesis by (rule that) (simp_all split: option.split)
qed

lemma settle_twice:
  assumes inv: "ledger_inv d now" and s: "settle pk res cost i p est now d = Inr d'"
  shows "settle pk res' cost' i' p' est' now' d' = Inr d'"
  using inv s
proof (cases rule: settle_cases)
  case (final o')
  then show ?thesis by (simp add: settle_def settle_locked_def)
next
  case (settled o' c)
  let ?o = "settled_operation o' c res i p (if res \<noteq> [] then Complete else Uncertain) (est \<or> cost = None) now"
  have "o' \<in> set (operations d)" "operation_pk o' = pk" using get_row_Some [OF settled(1)] by auto
  then have "get_row operation_pk (operations d') pk = Some ?o" by (auto simp: settled(7) get_put_row)
  then show ?thesis by (simp add: settle_def settle_locked_def)
qed

lemma expired_row_running: "running (expired_row now o') \<Longrightarrow> expired_row now o' = o' \<and> now \<le> lease_until o'"
  by (auto simp: expired_row_def split: if_splits)

lemma find_operation_map:
  assumes "operations d' = map f (operations d)"
    and "\<And>o'. operation_user (f o') = operation_user o' \<and> operation_id (f o') = operation_id o'"
  shows "find_operation d' u i = map_option f (find_operation d u i)"
proof -
  have "find P (map f xs) = map_option f (find (\<lambda>x. P (f x)) xs)" for P xs by (induction xs) auto
  then show ?thesis using assms by (simp add: find_operation_def)
qed

lemma find_operation_append:
  "find_operation d u i = None \<Longrightarrow> operations d' = operations d @ [o'] \<Longrightarrow>
     operation_user o' = Some u \<Longrightarrow> operation_id o' = i \<Longrightarrow> find_operation d' u i = Some o'"
proof -
  have "find P xs = None \<Longrightarrow> P o' \<Longrightarrow> find P (xs @ [o']) = Some o'" for P and xs :: "operation_row list"
    by (induction xs) (auto split: if_splits)
  then show "find_operation d u i = None \<Longrightarrow> operations d' = operations d @ [o'] \<Longrightarrow>
     operation_user o' = Some u \<Longrightarrow> operation_id o' = i \<Longrightarrow> find_operation d' u i = Some o'"
    by (simp add: find_operation_def)
qed

lemma expired_row_fields [simp]:
  "operation_user (expired_row now o') = operation_user o'" "operation_id (expired_row now o') = operation_id o'"
  by (simp_all add: expired_row_def)

lemma reserve_fresh:
  assumes inv: "service_inv st (d, T)" and ck: "clock_from T clk" and ok: "settings_ok st"
    and r: "reserve st u opid fp ms txt clk d = Inr (d', Inr (o', True))"
  obtains d1 where "service_inv st (d1, clk 0)" "find_operation d' (user_pk u) opid = Some o'"
    "running o'" "operation_fingerprint o' = fp" "operations d' = operations d1 @ [o']"
    "funded_enabled st" "groq_key st \<noteq> []" "user_funded_access u" "reserved_cost o' \<le> 20000000"
    "lease_until o' = clk 4 + 180000000"
    "\<exists>b \<in> set (budgets d'). budget_month b = month_start (clk 3)
      \<and> usd (budget_spent b + held (\<lambda>_. True) (operations d')) \<le> monthly_budget st"
proof -
  have t: "T \<le> clk 0" "clk 0 \<le> clk 2" using clock_from_mono [OF ck] by auto
  obtain d1 where e: "expire_leases (clk 0) d = Inr d1" "service_inv st (d1, clk 0)"
    using expire_service [OF inv t(1)] by blast
  have rl: "reserve_locked st (user_pk u) opid fp ms txt clk d1 = Inr ((o', True), d')"
    and en: "funded_enabled st" "groq_key st \<noteq> []" "user_funded_access u"
    using r e(1) by (auto simp: reserve_def split: if_splits sum.splits prod.splits)
  from rl show thesis
  proof (cases rule: reserve_locked_cases)
    case (admitted q p s d2)
    note base = service_invI [OF e(2) t(2)]
    have "ledger_inv d1 (clk 2) \<and> cash_bound d1 (clk 2)" using base by simp
    note ad = quota.admitted_inv [OF this admitted(5,6)]
    have "find_operation d1 (user_pk u) opid = None"
      using admitted(2) by (auto simp: previous_def split: option.splits if_splits)
    note fo = find_operation_append [OF this ad(2,4,5)]
    have lease: "lease_until o' = clk 4 + 180000000" using admitted(6) by (rule admit_cases) simp
    note fr = quota_locked_frame [OF admitted(5)]
    have inv2: "ledger_inv d2 (clk 2)" by (rule quota_locked_ledger [OF base(1,4) admitted(5)])
    have cb2: "cash_bound d2 (clk 2)" using base(4) fr cash_bound_frame [of d2 d1 "clk 2"] by simp
    have cap2: "cap_ok st d2" using base(3) fr cap_ok_frame [of d2 d1 st] by simp
    note admit_cap(2) [OF inv2 cb2 cap2 ok admitted(6)]
    with fo lease show thesis using e(2) ad en by (intro that)
  qed simp
qed


end
