(* ===== verification/Scenario.thy ===== *)
theory Scenario
  imports Service
begin

text \<open>
  One concrete history of the service, evaluated in the kernel: a contribution of 100 dollars, its
  approval and the weekly distribution, the admission of a five-second dictation, the authorization
  of its provider call and the settlement. It shows that the hypotheses of the service's theorems
  hold together.
\<close>

definition demo_now :: time where "demo_now = 1749513600000000"

definition demo_settings :: settings where
  "demo_settings = \<lparr>funded_enabled = True, groq_key = ulit ''k'', monthly_budget = usd 5000000000,
     global_concurrency = 4, iexact = (=)\<rparr>"

definition demo_user :: user_row where
  "demo_user = \<lparr>user_pk = 7, user_email = ulit ''a'', user_is_active = True, user_funded_access = True,
     hosted_requested_at = None, hosted_last_active_at = None\<rparr>"

definition demo_empty :: db where
  "demo_empty = empty_db [demo_user]
     [\<lparr>email_user = 7, email_text = ulit ''a'', email_verified = True, email_primary = True\<rparr>]"

definition demo_receipt :: "time option \<Rightarrow> funding_entry" where
  "demo_receipt ready = \<lparr>entry_pk = 1, entry_kind = Contribution, amount_usd = 100000000000,
     reserve_consumed_usd = 0, entry_source = ulit ''stripe'', entry_reference = ulit ''r1'',
     occurred_at = Some 1740873600000000, release_until = Some 1743552000000000,
     processing_ready_at = ready, processing_basis_usd = 100000000000\<rparr>"

definition demo_cash :: db where
  "demo_cash = demo_empty\<lparr>treasury := \<lparr>processing_spent = 0, processing_reserved = 0,
     treasury_updated_at = 1749513600000000\<rparr>, entries := [demo_receipt None], next_entry_pk := 2\<rparr>"

definition demo_ready :: db where
  "demo_ready = demo_cash\<lparr>entries := [demo_receipt (Some 1749513600000000)]\<rparr>"

definition demo_period :: "int \<Rightarrow> funding_period" where
  "demo_period newcomers = \<lparr>period_start = 1749427200000000, period_reset_at = 1750032000000000,
     released_usd = 100000000000, regular_share_usd = 80000000000,
     newcomers_remaining_usd = newcomers, population = 0\<rparr>"

definition demo_week :: db where
  "demo_week = demo_ready\<lparr>periods := [demo_period 20000000000]\<rparr>"

definition demo_quota :: "int \<Rightarrow> nat \<Rightarrow> weekly_quota" where
  "demo_quota reserved ops = \<lparr>quota_pk = 1, quota_user = Some 7, quota_period = 1749427200000000,
     allocated_usd = 20000000000, used_usd = 0, reserved_usd = reserved, quota_operations = ops\<rparr>"

definition demo_owner :: user_row where
  "demo_owner = demo_user\<lparr>hosted_requested_at := Some 1749513600000002,
     hosted_last_active_at := Some 1749513600000002\<rparr>"

definition demo_granted :: db where
  "demo_granted = demo_week\<lparr>users := [demo_owner], periods := [demo_period 0], quotas := [demo_quota 0 0],
     next_quota_pk := 2, treasury := \<lparr>processing_spent = 0, processing_reserved = 0,
     treasury_updated_at = 1749513600000002\<rparr>\<rparr>"

definition demo_operation :: operation_row where
  "demo_operation = \<lparr>operation_pk = 1, operation_user = Some 7, operation_id = 1, operation_month = 739403,
     operation_fingerprint = ulit ''f'', operation_state = Running, operation_created_at = 1749513600000004,
     lease_until = 1749513780000004, audio_ms = 5000, reserved_cost = 20000000, operation_cost = 0,
     input_tokens = 0, output_tokens = 0, operation_result = [], result_expires_at = None,
     operation_quota = Some 1, authorized_cost = 0, quota_debit = 0, cost_estimated = False\<rparr>"

definition demo_admitted :: db where
  "demo_admitted = demo_granted\<lparr>quotas := [demo_quota 20000000 1],
     treasury := \<lparr>processing_spent = 0, processing_reserved = 20000000, treasury_updated_at = 1749513600000004\<rparr>,
     allowances := [\<lparr>allowance_user = 7, allowance_month = 739403, used_ms = 0, reserved_ms = 5000,
       allowance_operations = 1\<rparr>],
     budgets := [\<lparr>budget_month = 739403, budget_spent = 0, budget_reserved = 20000000\<rparr>],
     operations := [demo_operation], next_operation_pk := 2\<rparr>"

definition demo_clk :: "nat \<Rightarrow> time" where "demo_clk i = 1749513600000000 + int i"

lemmas demo_defs = demo_now_def demo_settings_def demo_user_def demo_empty_def demo_receipt_def demo_cash_def
  demo_ready_def demo_period_def demo_week_def demo_quota_def demo_owner_def demo_granted_def
  demo_operation_def demo_admitted_def demo_clk_def

lemma demo_contribute:
  "(case record_contribution (Finite 100) (ulit ''r1'') (Aware 1740873600000000) (ulit ''stripe'')
      1749513600000000 1749513600000000 demo_empty of Inr (e, c, d) \<Rightarrow> c \<and> d = demo_cash | Inl _ \<Rightarrow> False)"
  by code_simp

lemma demo_week_bounds: "week_bounds 1749513600000000 = (1749427200000000, 1750032000000000)"
  "week_bounds 1749513600000002 = (1749427200000000, 1750032000000000)"
  by code_simp+

lemma demo_releasable: "releasable 1749513600000000 1750032000000000 demo_ready = 100000000000"
  by code_simp

lemma demo_shares: "regular_share 100000000000 0 = 80000000000" "newcomer_share 100000000000 = 20000000000"
  by code_simp+

lemma demo_totals: "fst (totals demo_ready 1749513600000000) = 100000000000"
  by code_simp

lemma demo_regular: "regular_users (=) demo_ready 1749427200000000 = []"
  by code_simp

lemma demo_no_period: "get_row period_start (periods demo_ready) 1749427200000000 = None"
  by code_simp

lemma demo_pending: "(\<exists>e \<in> set (entries demo_ready). pending_receipt e) = False"
  by code_simp

lemma demo_distribute: "distribute (=) 1749513600000000 True demo_cash = (Some (demo_period 20000000000), demo_week)"
proof -
  have "touch 1749513600000000 (snd (approve_locked 1749513600000000 demo_cash)) = demo_ready" by code_simp
  moreover have "distribute_locked (=) 1749513600000000 demo_ready = (Some (demo_period 20000000000), demo_week)"
    unfolding distribute_locked_def demo_week_bounds prod.case demo_pending demo_no_period
    by (simp add: demo_releasable demo_totals demo_regular Let_def create_period_def demo_shares)
      (simp add: demo_defs empty_db_def get_row_def touch_def)
  ultimately show ?thesis by (simp add: distribute_def)
qed

lemma demo_newcomer: "newcomer_amount (demo_period 20000000000) 1749513600000002 = 20000000000"
  by code_simp

lemma demo_quota_locked:
  "quota_locked (=) 7 1749513600000002 demo_week = (Some (demo_quota 0 0), Some (demo_period 0), Available, demo_granted)"
proof -
  have f: "find (\<lambda>u. user_pk u = 7) (eligible_users (=) demo_week) = Some demo_user" by code_simp
  have o: "request_access 1749513600000002 demo_user = demo_owner" by code_simp
  have p: "put_row user_pk demo_owner (users demo_week) = [demo_owner]" by code_simp
  have d: "distribute_locked (=) 1749513600000002 (demo_week\<lparr>users := [demo_owner]\<rparr>)
      = (Some (demo_period 20000000000), demo_week\<lparr>users := [demo_owner]\<rparr>)"
    unfolding distribute_locked_def demo_week_bounds by (simp add: demo_defs get_row_def)
  have q: "find_quota (demo_week\<lparr>users := [demo_owner]\<rparr>) 7 (period_start (demo_period 20000000000)) = None"
    by code_simp
  have g: "grant_newcomer 7 (demo_period 20000000000) 20000000000 1749513600000002 (demo_week\<lparr>users := [demo_owner]\<rparr>)
      = (demo_quota 0 0, demo_period 0, demo_granted)"
    by code_simp
  have s: "quota_status (Some (demo_quota 0 0)) = Available" by code_simp
  show ?thesis unfolding quota_locked_def f option.case Let_def o p d prod.case q demo_newcomer g s
    by (simp add: demo_defs)
qed

lemma demo_amounts:
  "asr_cost 5000 = 111112" "month_start 1749513600000003 = 739403"
  "money (min (min MAX_COST (usd 20000000000)) (usd 5000000000)) = 20000000"
  by code_simp+

lemma demo_cap:
  "remaining_monthly_cap demo_settings 739403
     (snd (get_or_create_allowance 7 739403 (snd (get_or_create_budget 739403 demo_granted)))) = usd 5000000000"
  by code_simp

lemma demo_admit:
  "admit demo_settings 7 1 (ulit ''f'') 5000 False (demo_quota 0 0) 1749513600000003 1749513600000004 demo_granted
     = Inr (demo_operation, demo_admitted)"
proof -
  let ?b = "\<lparr>budget_month = 739403, budget_spent = 0, budget_reserved = 0\<rparr>"
  let ?a = "\<lparr>allowance_user = 7, allowance_month = 739403, used_ms = 0, reserved_ms = 0, allowance_operations = 0\<rparr>"
  have b: "get_or_create_budget 739403 demo_granted = (?b, demo_granted\<lparr>budgets := [?b]\<rparr>)" by code_simp
  have a: "get_or_create_allowance 7 739403 (demo_granted\<lparr>budgets := [?b]\<rparr>)
      = (?a, demo_granted\<lparr>budgets := [?b], allowances := [?a]\<rparr>)" by code_simp
  have cap: "remaining_monthly_cap demo_settings 739403 (demo_granted\<lparr>budgets := [?b], allowances := [?a]\<rparr>)
      = usd 5000000000" using demo_cap unfolding b snd_conv a .
  have av: "allocated_usd (demo_quota 0 0) - used_usd (demo_quota 0 0) - reserved_usd (demo_quota 0 0) = 20000000000"
    by code_simp
  have op: "new_operation (demo_granted\<lparr>budgets := [?b], allowances := [?a]\<rparr>) 7 1 739403 (ulit ''f'') 5000 20000000
      (quota_pk (demo_quota 0 0)) 1749513600000004 = demo_operation" by code_simp
  have bk: "book_operation demo_operation (demo_quota 0 0) ?a ?b 1749513600000004
      (demo_granted\<lparr>budgets := [?b], allowances := [?a]\<rparr>) = demo_admitted" by code_simp
  show ?thesis
    unfolding admit_def Let_def av if_False demo_amounts b prod.case a cap op bk
    by (simp add: demo_quota_def)
qed

lemma demo_reserve:
  "reserve demo_settings demo_user 1 (ulit ''f'') 5000 False demo_clk demo_week
     = Inr (demo_admitted, Inr (demo_operation, True))"
proof -
  have e: "expire_leases (demo_clk 0) demo_week = Inr demo_week" by code_simp
  have p: "previous 7 1 (ulit ''f'') (demo_clk 1) demo_week = Inr None" by code_simp
  have o: "operations demo_week = []" by code_simp
  have c: "demo_clk 2 = 1749513600000002" "demo_clk 3 = 1749513600000003" "demo_clk 4 = 1749513600000004"
    by (simp_all add: demo_clk_def)
  have g: "global_concurrency demo_settings = 4" "iexact demo_settings = (=)" "funded_enabled demo_settings"
    "groq_key demo_settings \<noteq> []" "user_funded_access demo_user" "user_pk demo_user = 7"
    by (simp_all add: demo_settings_def demo_user_def ulit_def)
  have "reserve_locked demo_settings 7 1 (ulit ''f'') 5000 False demo_clk demo_week
      = Inr ((demo_operation, True), demo_admitted)"
    unfolding reserve_locked_def p o g c demo_quota_locked by (simp add: demo_admit del: One_nat_def)
  then show ?thesis unfolding reserve_def by (simp add: g e del: One_nat_def)
qed

definition demo_authorized :: db where
  "demo_authorized = demo_admitted\<lparr>operations := [demo_operation\<lparr>authorized_cost := 1000000\<rparr>]\<rparr>"

lemma demo_authorize: "authorize 1 (1 / 1000) 1749513600000010 demo_admitted = Inr (Inr demo_authorized)"
  by code_simp

definition demo_settled :: db where
  "demo_settled = (case settle 1 [(ulit ''text'', ulit ''hi'')] (Some (1 / 2000)) 0 0 False
     1749513600000020 demo_authorized of Inr d \<Rightarrow> d | Inl _ \<Rightarrow> demo_authorized)"

lemma demo_settle:
  "settle 1 [(ulit ''text'', ulit ''hi'')] (Some (1 / 2000)) 0 0 False 1749513600000020 demo_authorized = Inr demo_settled"
  "processing_spent (treasury demo_settled) = 500000" "processing_reserved (treasury demo_settled) = 0"
  "map operation_state (operations demo_settled) = [Complete]"
  by code_simp+


text \<open>The history as a run of the service.\<close>

definition demo_events :: "service_event list" where
  "demo_events = [Contribute (Finite 100) (ulit ''r1'') (Aware 1740873600000000) (ulit ''stripe''),
     Distribute True, Reserve demo_user 1 (ulit ''f'') 5000 False, Authorize 1 (1 / 1000),
     Settle 1 [(ulit ''text'', ulit ''hi'')] (Some (1 / 2000)) 0 0 False]"

lemma demo_settings_ok: "settings_ok demo_settings"
  by (auto simp: settings_ok_def demo_settings_def)

lemma demo_fresh: "fresh_service demo_settings (demo_empty, 0)"
  by (auto simp: fresh_service_def demo_settings_ok demo_empty_def)

lemma demo_step_contribute:
  "service_step demo_settings (demo_empty, 0)
     (Contribute (Finite 100) (ulit ''r1'') (Aware 1740873600000000) (ulit ''stripe''))
     (demo_cash, 1749513600000000)"
proof -
  obtain e where "record_contribution (Finite 100) (ulit ''r1'') (Aware 1740873600000000) (ulit ''stripe'')
      1749513600000000 1749513600000000 demo_empty = Inr (e, True, demo_cash)"
    using demo_contribute by (auto split: sum.splits)
  moreover have "cash_bound demo_cash 1749513600000000" by code_simp
  ultimately show ?thesis by (intro service_step.contribute) simp_all
qed

lemma demo_clock: "clock_from 1749513600000000 demo_clk"
  by (simp add: clock_from_def demo_clk_def)

lemma demo_run_admitted:
  "run_of (service_step demo_settings) (demo_empty, 0) (take 3 demo_events) (demo_admitted, 1749513600000004)"
proof -
  have ix: "iexact demo_settings = (=)" by (simp add: demo_settings_def)
  have "service_step demo_settings (demo_cash, 1749513600000000) (Distribute True) (demo_week, 1749513600000000)"
    by (rule service_step.distribute [where p = "Some (demo_period 20000000000)"]) (simp_all add: ix demo_distribute)
  moreover have "service_step demo_settings (demo_week, 1749513600000000)
      (Reserve demo_user 1 (ulit ''f'') 5000 False) (demo_admitted, demo_clk 4)"
    by (rule service_step.reserve [OF demo_clock demo_reserve])
  moreover have "demo_clk 4 = 1749513600000004" by (simp add: demo_clk_def)
  ultimately have "run_of (service_step demo_settings) (demo_cash, 1749513600000000)
      [Distribute True, Reserve demo_user 1 (ulit ''f'') 5000 False] (demo_admitted, 1749513600000004)"
    by (auto intro!: run_of.intros)
  from run_cons [of "service_step demo_settings", OF demo_step_contribute this]
  show ?thesis by (simp add: demo_events_def numeral_eq_Suc)
qed

lemma demo_run_week:
  "run_of (service_step demo_settings) (demo_empty, 0) (take 2 demo_events) (demo_week, 1749513600000000)"
proof -
  have ix: "iexact demo_settings = (=)" by (simp add: demo_settings_def)
  have "service_step demo_settings (demo_cash, 1749513600000000) (Distribute True) (demo_week, 1749513600000000)"
    by (rule service_step.distribute [where p = "Some (demo_period 20000000000)"]) (simp_all add: ix demo_distribute)
  then have "run_of (service_step demo_settings) (demo_cash, 1749513600000000) [Distribute True] (demo_week, 1749513600000000)"
    by (auto intro: run_of.intros)
  from run_cons [of "service_step demo_settings", OF demo_step_contribute this]
  show ?thesis by (simp add: demo_events_def numeral_eq_Suc)
qed

lemma demo_run: "run_of (service_step demo_settings) (demo_empty, 0) demo_events (demo_settled, 1749513600000020)"
proof -
  have "service_step demo_settings (demo_admitted, 1749513600000004) (Authorize 1 (1 / 1000)) (demo_authorized, 1749513600000010)"
    by (rule service_step.authorize [OF _ demo_authorize]) simp
  moreover have "service_step demo_settings (demo_authorized, 1749513600000010)
      (Settle 1 [(ulit ''text'', ulit ''hi'')] (Some (1 / 2000)) 0 0 False) (demo_settled, 1749513600000020)"
    by (rule service_step.settle [OF _ demo_settle(1)]) simp
  ultimately have "run_of (service_step demo_settings) (demo_admitted, 1749513600000004) (drop 3 demo_events)
      (demo_settled, 1749513600000020)"
    by (auto simp: demo_events_def numeral_eq_Suc intro!: run_of.intros)
  from run_of_append [OF demo_run_admitted this] show ?thesis by simp
qed


end
