(* ===== verification/Py_Value.thy ===== *)
theory Py_Value
  imports Complex_Main Prelude
begin

text \<open>
  Values that cross a JSON boundary. The code checks such values with \<^verbatim>\<open>isinstance\<close> and
  \<^verbatim>\<open>type(...) is\<close>, so the model keeps Python's types apart: a boolean is not an integer for
  \<^verbatim>\<open>type(x) is int\<close>. A dict is the list of its members in insertion order, with distinct keys.
\<close>

datatype pyval = PNone | PBool bool | PInt int | PFloat rat | PNonfinite | PStr ustr
  | PList "pyval list" | PDict "(ustr \<times> pyval) list"

definition dict_get :: "(ustr \<times> pyval) list \<Rightarrow> ustr \<Rightarrow> pyval option" where
  "dict_get d k = map_of d k"

definition dict_keys :: "(ustr \<times> pyval) list \<Rightarrow> ustr list" where
  "dict_keys d = map fst d"

definition same_set :: "'a list \<Rightarrow> 'a list \<Rightarrow> bool" where
  "same_set xs ys \<longleftrightarrow> (\<forall>x \<in> set xs. x \<in> set ys) \<and> (\<forall>y \<in> set ys. y \<in> set xs)"

lemma same_set_iff: "same_set xs ys \<longleftrightarrow> set xs = set ys"
  by (auto simp: same_set_def)

text \<open>\<^verbatim>\<open>[f(x) for x in xs]\<close> where \<open>f\<close> may raise: the first error ends the loop.\<close>

fun map_err :: "('a \<Rightarrow> 'e + 'b) \<Rightarrow> 'a list \<Rightarrow> 'e + 'b list" where
  "map_err f [] = Inr []"
| "map_err f (x # xs) = (case f x of Inl e \<Rightarrow> Inl e | Inr y \<Rightarrow>
     (case map_err f xs of Inl e \<Rightarrow> Inl e | Inr ys \<Rightarrow> Inr (y # ys)))"

lemma map_err_Inr: "map_err f xs = Inr ys \<longleftrightarrow> list_all2 (\<lambda>x y. f x = Inr y) xs ys"
proof (induction xs arbitrary: ys)
  case (Cons x xs)
  show ?case by (cases "f x"; cases "map_err f xs") (auto simp: list_all2_Cons1 simp flip: Cons.IH)
qed auto

lemma map_err_length: "map_err f xs = Inr ys \<Longrightarrow> length ys = length xs"
  by (simp add: map_err_Inr list_all2_lengthD)

lemma map_err_map: "(\<And>x. x \<in> set xs \<Longrightarrow> f (g x) = Inr x) \<Longrightarrow> map_err f (map g xs) = Inr xs"
  by (induction xs) auto

lemma map_err_set:
  assumes "map_err f xs = Inr ys" "y \<in> set ys"
  shows "\<exists>x \<in> set xs. f x = Inr y"
  using assms by (auto simp: map_err_Inr list_all2_conv_all_nth in_set_conv_nth) (metis nth_mem)

end
