(* ===== verification/History_Service.thy ===== *)
theory History_Service
  imports Py_Value
begin

text \<open>
  \<^verbatim>\<open>server/cloud/service/history.py\<close>: one account's synchronized history. Every change of a record
  gets the next revision of the account, deleted records stay as tombstones, and a client reads the
  changes after its cursor in pages. The JSON renderer and the UUID parser belong to packages and
  are the parameters \<open>render\<close> (the length of the rendered value) and \<open>uuid_of\<close>.
\<close>

section \<open>Data\<close>

record payload =
  pl_id :: ustr
  pl_created :: rat
  pl_transcript :: ustr
  pl_text :: ustr
  pl_rewritten :: bool
  pl_device :: ustr

record history_row =
  hr_id :: ustr
  hr_revision :: int
  hr_payload :: "payload option"
  hr_bytes :: int

record history =
  revision :: int
  rows :: "history_row list"
  clears :: "nat list"

record page =
  pg_cursor :: int
  pg_more :: bool
  pg_entries :: "payload list"
  pg_deleted :: "ustr list"

datatype history_error = Invalid | Denied | Conflicting | Over_capacity

definition empty_history :: history where
  "empty_history = \<lparr>revision = 0, rows = [], clears = []\<rparr>"

definition payload_json :: "payload \<Rightarrow> pyval" where
  "payload_json p = PDict [(ulit ''id'', PStr (pl_id p)), (ulit ''createdAt'', PFloat (pl_created p)),
     (ulit ''transcript'', PStr (pl_transcript p)), (ulit ''text'', PStr (pl_text p)),
     (ulit ''rewritten'', PBool (pl_rewritten p)), (ulit ''sourceDevice'', PStr (pl_device p))]"

definition page_json :: "page \<Rightarrow> pyval" where
  "page_json g = PDict [(ulit ''cursor'', PInt (pg_cursor g)), (ulit ''hasMore'', PBool (pg_more g)),
     (ulit ''entries'', PList (map payload_json (pg_entries g))),
     (ulit ''deleted'', PList (map PStr (pg_deleted g)))]"

section \<open>Validation\<close>

text \<open>\<^verbatim>\<open>[A-Za-z0-9_-]{1,128}\Z\<close>.\<close>

definition record_id :: "pyval \<Rightarrow> unit + ustr" where
  "record_id v = (case v of
     PStr s \<Rightarrow> if 1 \<le> length s \<and> length s \<le> 128 \<and> list_all id_char s then Inr s else Inl ()
   | _ \<Rightarrow> Inl ())"

definition entry_fields :: "ustr list" where
  "entry_fields = map ulit [''id'', ''createdAt'', ''transcript'', ''text'', ''rewritten'', ''sourceDevice'']"

definition number_of :: "pyval \<Rightarrow> rat option" where
  "number_of v = (case v of PInt i \<Rightarrow> Some (of_int i) | PFloat q \<Rightarrow> Some q | _ \<Rightarrow> None)"

definition text_of :: "pyval \<Rightarrow> ustr option" where
  "text_of v = (case v of PStr s \<Rightarrow> (case utf8_len s of Some n \<Rightarrow> if int n \<le> 32768 then Some s else None
     | None \<Rightarrow> None) | _ \<Rightarrow> None)"

definition entry :: "pyval \<Rightarrow> unit + payload" where
  "entry v = (case v of PDict d \<Rightarrow>
     if \<not> same_set (dict_keys d) entry_fields then Inl ()
     else (case (map_of d (ulit ''id''), map_of d (ulit ''createdAt''), map_of d (ulit ''rewritten''),
                 map_of d (ulit ''sourceDevice''), map_of d (ulit ''transcript''), map_of d (ulit ''text'')) of
       (Some i, Some c, Some (PBool r), Some (PStr dev), Some tr, Some tx) \<Rightarrow>
         (case (record_id i, number_of c, text_of tr, text_of tx) of
            (Inr rid, Some t, Some transcript, Some text) \<Rightarrow>
              if 0 < t \<and> t < 4102444800 \<and> (dev = ulit ''mobile'' \<or> dev = ulit ''desktop'') \<and> py_strip text \<noteq> []
              then Inr \<lparr>pl_id = rid, pl_created = t, pl_transcript = transcript, pl_text = text,
                        pl_rewritten = r, pl_device = dev\<rparr>
              else Inl ()
          | _ \<Rightarrow> Inl ())
     | _ \<Rightarrow> Inl ())
   | _ \<Rightarrow> Inl ())"

record change_request =
  cr_cursor :: int
  cr_upserts :: "payload list"
  cr_deletes :: "ustr list"
  cr_clear :: "nat option"

definition clear_of :: "(ustr \<Rightarrow> nat option) \<Rightarrow> (ustr \<times> pyval) list \<Rightarrow> bool \<Rightarrow> unit + nat option" where
  "clear_of uuid_of d no_changes = (case map_of d (ulit ''clearID'') of
     None \<Rightarrow> Inr None
   | Some (PStr s) \<Rightarrow> if \<not> no_changes then Inl () else (case uuid_of s of None \<Rightarrow> Inl () | Some u \<Rightarrow> Inr (Some u))
   | Some _ \<Rightarrow> Inl ())"

definition validate :: "(pyval \<Rightarrow> int) \<Rightarrow> (ustr \<Rightarrow> nat option) \<Rightarrow> pyval \<Rightarrow> unit + change_request" where
  "validate render uuid_of v = (case v of PDict d \<Rightarrow>
     if \<not> set (dict_keys d) \<subseteq> set (map ulit [''cursor'', ''upserts'', ''deletes'', ''clearID'']) then Inl ()
     else (case (map_of d (ulit ''cursor''), map_of d (ulit ''upserts''), map_of d (ulit ''deletes'')) of
       (Some (PInt cursor), Some (PList us), Some (PList ds)) \<Rightarrow>
         if \<not> (0 \<le> cursor \<and> cursor \<le> 2 ^ 63 - 1) \<or> 50 < length us \<or> 50 < length ds then Inl ()
         else (case (map_err entry us, map_err record_id ds) of
           (Inr upserts, Inr deletes) \<Rightarrow>
             let ids = map pl_id upserts in
             if \<not> distinct ids \<or> \<not> distinct deletes \<or> (\<exists>i \<in> set ids. i \<in> set deletes) then Inl ()
             else (case clear_of uuid_of d (upserts = [] \<and> deletes = []) of
               Inl e \<Rightarrow> Inl e
             | Inr clear \<Rightarrow> if 409600 < render v then Inl ()
                 else Inr \<lparr>cr_cursor = cursor, cr_upserts = upserts, cr_deletes = deletes, cr_clear = clear\<rparr>)
         | _ \<Rightarrow> Inl ())
     | _ \<Rightarrow> Inl ())
   | _ \<Rightarrow> Inl ())"

section \<open>Changes\<close>

definition tombstone :: "history_row \<Rightarrow> int \<Rightarrow> history_row" where
  "tombstone r n = r\<lparr>hr_payload := None, hr_revision := n, hr_bytes := 0\<rparr>"

text \<open>The rows a clear visits, in the order of their revisions.\<close>

definition live_rows :: "history_row list \<Rightarrow> history_row list" where
  "live_rows rs = sort_key hr_revision (filter (\<lambda>r. hr_payload r \<noteq> None) rs)"

fun clear_rows :: "history_row list \<Rightarrow> history \<Rightarrow> history" where
  "clear_rows [] h = h"
| "clear_rows (r # rs) h =
     (let n = revision h + 1
      in clear_rows rs (h\<lparr>revision := n, rows := put_row hr_id (tombstone r n) (rows h)\<rparr>))"

definition apply_clear :: "nat \<Rightarrow> history \<Rightarrow> history_error + history" where
  "apply_clear op h =
     (if op \<in> set (clears h) then Inr h
      else let h' = h\<lparr>clears := clears h @ [op]\<rparr> in
        if 10000 < int (length (clears h')) then Inl Over_capacity
        else Inr (clear_rows (live_rows (rows h')) h'))"

definition conflicts :: "history_row list \<Rightarrow> payload list \<Rightarrow> bool" where
  "conflicts rs upserts \<longleftrightarrow> (\<exists>p \<in> set upserts. case get_row hr_id rs (pl_id p) of
     None \<Rightarrow> False | Some r \<Rightarrow> hr_payload r \<noteq> None \<and> hr_payload r \<noteq> Some p)"

text \<open>\<open>existing\<close> are the rows read before the first change.\<close>

fun apply_upserts :: "(pyval \<Rightarrow> int) \<Rightarrow> history_row list \<Rightarrow> payload list \<Rightarrow> history \<Rightarrow> history" where
  "apply_upserts render existing [] h = h"
| "apply_upserts render existing (p # ps) h =
     (if get_row hr_id existing (pl_id p) \<noteq> None then apply_upserts render existing ps h
      else let n = revision h + 1 in apply_upserts render existing ps
        (h\<lparr>revision := n, rows := rows h @ [\<lparr>hr_id = pl_id p, hr_revision = n, hr_payload = Some p,
           hr_bytes = render (payload_json p)\<rparr>]\<rparr>))"

fun apply_deletes :: "history_row list \<Rightarrow> ustr list \<Rightarrow> history \<Rightarrow> history" where
  "apply_deletes existing [] h = h"
| "apply_deletes existing (i # is) h = (case get_row hr_id existing i of
     None \<Rightarrow> let n = revision h + 1 in apply_deletes existing is
       (h\<lparr>revision := n, rows := rows h @ [\<lparr>hr_id = i, hr_revision = n, hr_payload = None, hr_bytes = 0\<rparr>]\<rparr>)
   | Some r \<Rightarrow> if hr_payload r = None then apply_deletes existing is h
       else let n = revision h + 1 in apply_deletes existing is
         (h\<lparr>revision := n, rows := put_row hr_id (tombstone r n) (rows h)\<rparr>))"

definition over_capacity :: "history \<Rightarrow> bool" where
  "over_capacity h \<longleftrightarrow> 20971520 < sum_list (map hr_bytes (rows h)) \<or> 50000 < int (length (rows h))"

definition apply_changes :: "(pyval \<Rightarrow> int) \<Rightarrow> change_request \<Rightarrow> history \<Rightarrow> history_error + history" where
  "apply_changes render c h = (let existing = rows h in
     if conflicts existing (cr_upserts c) then Inl Conflicting
     else let h' = apply_deletes existing (cr_deletes c) (apply_upserts render existing (cr_upserts c) h) in
       if ((\<exists>p \<in> set (cr_upserts c). get_row hr_id existing (pl_id p) = None)
           \<or> (\<exists>i \<in> set (cr_deletes c). get_row hr_id existing i = None)) \<and> over_capacity h'
       then Inl Over_capacity else Inr h')"

section \<open>Pages\<close>

definition after_cursor :: "int \<Rightarrow> history_row list \<Rightarrow> history_row list" where
  "after_cursor cursor rs = sort_key hr_revision (filter (\<lambda>r. cursor < hr_revision r) rs)"

definition add_row :: "page \<Rightarrow> history_row \<Rightarrow> page" where
  "add_row g r = \<lparr>pg_cursor = hr_revision r, pg_more = True,
     pg_entries = pg_entries g @ (case hr_payload r of Some p \<Rightarrow> [p] | None \<Rightarrow> []),
     pg_deleted = pg_deleted g @ (if hr_payload r = None then [hr_id r] else [])\<rparr>"

text \<open>The page and the number of rows it consumed.\<close>

fun fill_page :: "(pyval \<Rightarrow> int) \<Rightarrow> history_row list \<Rightarrow> page \<Rightarrow> page \<times> nat" where
  "fill_page render [] g = (g, 0)"
| "fill_page render (r # rs) g = (let candidate = add_row g r in
     if 409600 < render (page_json candidate) then (g, 0)
     else case fill_page render rs candidate of (g', n) \<Rightarrow> (g', Suc n))"

definition read_page :: "(pyval \<Rightarrow> int) \<Rightarrow> int \<Rightarrow> history \<Rightarrow> page" where
  "read_page render cursor h = (let found = take 21 (after_cursor cursor (rows h)) in
     case fill_page render (take 20 found) \<lparr>pg_cursor = cursor, pg_more = False, pg_entries = [], pg_deleted = []\<rparr> of
       (g, consumed) \<Rightarrow> g\<lparr>pg_more := consumed < length found\<rparr>)"

definition synchronize ::
  "(pyval \<Rightarrow> int) \<Rightarrow> (ustr \<Rightarrow> nat option) \<Rightarrow> bool \<Rightarrow> pyval \<Rightarrow> history \<Rightarrow> history_error + page \<times> history" where
  "synchronize render uuid_of active v h = (case validate render uuid_of v of
     Inl _ \<Rightarrow> Inl Invalid
   | Inr c \<Rightarrow>
       if \<not> active then Inl Denied
       else if revision h < cr_cursor c then Inl Invalid
       else (case (case cr_clear c of Some op \<Rightarrow> apply_clear op h | None \<Rightarrow> apply_changes render c h) of
         Inl e \<Rightarrow> Inl e
       | Inr h' \<Rightarrow> Inr (read_page render (cr_cursor c) h', h')))"

section \<open>The invariant of an account's history\<close>

definition row_ok :: "history_row \<Rightarrow> bool" where
  "row_ok r \<longleftrightarrow> 0 < hr_revision r \<and> (case hr_payload r of None \<Rightarrow> hr_bytes r = 0 | Some p \<Rightarrow> pl_id p = hr_id r)"

definition history_inv :: "history \<Rightarrow> bool" where
  "history_inv h \<longleftrightarrow> 0 \<le> revision h \<and> keyed hr_id (rows h) \<and> keyed hr_revision (rows h)
     \<and> (\<forall>r \<in> set (rows h). row_ok r \<and> hr_revision r \<le> revision h)"

text \<open>What the account knows of a record: nothing, its content, or that it was deleted.\<close>

definition lookup :: "history \<Rightarrow> ustr \<Rightarrow> payload option option" where
  "lookup h i = map_option hr_payload (get_row hr_id (rows h) i)"

text \<open>
  Later states: revisions grow, and a row that an earlier reader has seen is either the same or
  carries a revision above everything the reader saw.
\<close>

definition later :: "history \<Rightarrow> history \<Rightarrow> bool" where
  "later h h' \<longleftrightarrow> revision h \<le> revision h' \<and> set (map hr_id (rows h)) \<subseteq> set (map hr_id (rows h'))
     \<and> (\<forall>r \<in> set (rows h'). r \<in> set (rows h) \<or> revision h < hr_revision r)
     \<and> (\<forall>i. lookup h i = Some None \<longrightarrow> lookup h' i = Some None)"

lemma later_refl [simp]: "later h h"
  by (simp add: later_def)

lemma later_trans:
  assumes "later a b" "later b c"
  shows "later a c"
  unfolding later_def
proof (intro conjI ballI allI impI)
  fix r assume "r \<in> set (rows c)"
  then show "r \<in> set (rows a) \<or> revision a < hr_revision r"
    using assms by (auto simp: later_def dest!: bspec)
qed (use assms in \<open>auto simp: later_def\<close>)

lemma lookup_put:
  "hr_id r \<in> hr_id ` set (rows h) \<Longrightarrow>
     lookup (h\<lparr>revision := v, rows := put_row hr_id r (rows h)\<rparr>) i = (if i = hr_id r then Some (hr_payload r) else lookup h i)"
  by (auto simp: lookup_def get_put_row)

lemma lookup_append:
  "hr_id r \<notin> hr_id ` set (rows h) \<Longrightarrow>
     lookup (h\<lparr>revision := v, rows := rows h @ [r]\<rparr>) i = (if i = hr_id r then Some (hr_payload r) else lookup h i)"
  unfolding get_row_None [symmetric] by (auto simp: lookup_def get_row_append split: option.splits)

text \<open>One new revision: a row is added, or an existing row is replaced.\<close>

lemma history_append:
  assumes inv: "history_inv h" and new: "hr_id r \<notin> hr_id ` set (rows h)"
    and r: "hr_revision r = revision h + 1" "row_ok r"
  defines "h' \<equiv> h\<lparr>revision := revision h + 1, rows := rows h @ [r]\<rparr>"
  shows "history_inv h'" "later h h'"
proof -
  show "history_inv h'"
    using inv new r by (fastforce simp: history_inv_def h'_def)
  show "later h h'"
    using r new unfolding get_row_None [symmetric]
    by (auto simp: later_def h'_def lookup_def get_row_append split: option.splits)
qed

lemma history_replace:
  assumes inv: "history_inv h" and r0: "get_row hr_id (rows h) (hr_id r) = Some r0"
    and r: "hr_revision r = revision h + 1" "row_ok r" "hr_payload r = None"
  defines "h' \<equiv> h\<lparr>revision := revision h + 1, rows := put_row hr_id r (rows h)\<rparr>"
  shows "history_inv h'" "later h h'"
proof -
  have k: "keyed hr_id (rows h)" and bnd: "\<forall>x \<in> set (rows h). hr_revision x \<le> revision h"
    using inv by (auto simp: history_inv_def)
  have "inj_on hr_revision (set (put_row hr_id r (rows h)))"
  proof (rule inj_onI)
    fix x y assume "x \<in> set (put_row hr_id r (rows h))" "y \<in> set (put_row hr_id r (rows h))"
      and eq: "hr_revision x = hr_revision y"
    then have "x = r \<or> x \<in> set (rows h)" "y = r \<or> y \<in> set (rows h)" by (auto dest: put_row_member)
    then show "x = y" using eq bnd r(1) inv by (fastforce simp: history_inv_def distinct_map dest: inj_onD)
  qed
  moreover have "keyed hr_id (put_row hr_id r (rows h))" using k by simp
  then have "distinct (put_row hr_id r (rows h))" by (rule distinct_map [THEN iffD1, THEN conjunct1])
  ultimately have "keyed hr_revision (put_row hr_id r (rows h))" by (simp add: distinct_map)
  then show "history_inv h'"
    using inv k r by (auto simp: history_inv_def h'_def dest!: put_row_member)
  have mem: "hr_id r \<in> hr_id ` set (rows h)" using get_row_Some [OF r0] by (metis imageI)
  show "later h h'"
    unfolding later_def
  proof (intro conjI ballI allI impI)
    fix x assume "x \<in> set (rows h')"
    then show "x \<in> set (rows h) \<or> revision h < hr_revision x" using r(1) by (auto simp: h'_def dest!: put_row_member)
  next
    fix i assume "lookup h i = Some None"
    then show "lookup h' i = Some None" unfolding h'_def using lookup_put [OF mem, of "revision h + 1" i] r(3) by simp
  qed (auto simp: h'_def)
qed

section \<open>Each kind of change\<close>

lemma upserts_spec:
  assumes "history_inv h" "distinct (map pl_id ps)"
    and "\<And>p. p \<in> set ps \<Longrightarrow> (get_row hr_id (rows h) (pl_id p) = None) = (get_row hr_id existing (pl_id p) = None)"
  shows "history_inv (apply_upserts render existing ps h)" "later h (apply_upserts render existing ps h)"
    "lookup (apply_upserts render existing ps h) i =
       (case lookup h i of None \<Rightarrow> map_option (\<lambda>p. Some p) (find (\<lambda>p. pl_id p = i) ps) | Some x \<Rightarrow> Some x)"
proof -
  have "history_inv (apply_upserts render existing ps h) \<and> later h (apply_upserts render existing ps h)
    \<and> (\<forall>i. lookup (apply_upserts render existing ps h) i =
       (case lookup h i of None \<Rightarrow> map_option (\<lambda>p. Some p) (find (\<lambda>p. pl_id p = i) ps) | Some x \<Rightarrow> Some x))"
    using assms
  proof (induction ps arbitrary: h)
    case Nil
    then show ?case by (auto split: option.splits)
  next
    case (Cons p ps)
    show ?case
    proof (cases "get_row hr_id existing (pl_id p) = None")
      case False
      then have old: "get_row hr_id (rows h) (pl_id p) \<noteq> None" using Cons.prems(3) by simp
      have "history_inv (apply_upserts render existing ps h) \<and> later h (apply_upserts render existing ps h)
        \<and> (\<forall>i. lookup (apply_upserts render existing ps h) i =
           (case lookup h i of None \<Rightarrow> map_option (\<lambda>p. Some p) (find (\<lambda>p. pl_id p = i) ps) | Some x \<Rightarrow> Some x))"
        by (rule Cons.IH) (use Cons.prems in auto)
      then show ?thesis using False old by (auto simp: lookup_def split: option.splits)
    next
      case True
      define r where "r = \<lparr>hr_id = pl_id p, hr_revision = revision h + 1, hr_payload = Some p, hr_bytes = render (payload_json p)\<rparr>"
      define h1 where "h1 = h\<lparr>revision := revision h + 1, rows := rows h @ [r]\<rparr>"
      have new: "hr_id r \<notin> hr_id ` set (rows h)" using Cons.prems(3) True by (simp add: r_def get_row_None)
      have "0 \<le> revision h" using Cons.prems(1) by (simp add: history_inv_def)
      then have ok: "hr_revision r = revision h + 1" "row_ok r" by (simp_all add: r_def row_ok_def)
      note st = history_append [OF Cons.prems(1) new ok, folded h1_def]
      have lk: "lookup h1 i = (if i = pl_id p then Some (Some p) else lookup h i)" for i
        unfolding h1_def using lookup_append [OF new, of "revision h + 1" i] by (simp add: r_def)
      have other: "pl_id q \<noteq> pl_id p" if "q \<in> set ps" for q
        using Cons.prems(2) imageI [OF that, of pl_id] by (metis distinct.simps(2) list.set_map list.simps(9))
      have ex: "(get_row hr_id (rows h1) (pl_id q) = None) = (get_row hr_id existing (pl_id q) = None)" if "q \<in> set ps" for q
      proof -
        have "get_row hr_id (rows h1) (pl_id q) = get_row hr_id (rows h) (pl_id q)"
          using other [OF that] by (simp add: h1_def get_row_append r_def split: option.split)
        then show ?thesis using Cons.prems(3) [of q] that by simp
      qed
      have ih: "history_inv (apply_upserts render existing ps h1) \<and> later h1 (apply_upserts render existing ps h1)
        \<and> (\<forall>i. lookup (apply_upserts render existing ps h1) i =
           (case lookup h1 i of None \<Rightarrow> map_option (\<lambda>p. Some p) (find (\<lambda>p. pl_id p = i) ps) | Some x \<Rightarrow> Some x))"
        by (rule Cons.IH [OF st(1)]) (use Cons.prems(2) ex in auto)
      have eq: "apply_upserts render existing (p # ps) h = apply_upserts render existing ps h1"
        using True by (simp add: h1_def r_def Let_def)
      have none: "lookup h (pl_id p) = None" using new by (simp add: lookup_def r_def get_row_None)
      show ?thesis unfolding eq using ih later_trans [OF st(2)] lk none by (auto split: option.split)
    qed
  qed
  then show "history_inv (apply_upserts render existing ps h)" "later h (apply_upserts render existing ps h)"
    "lookup (apply_upserts render existing ps h) i =
       (case lookup h i of None \<Rightarrow> map_option (\<lambda>p. Some p) (find (\<lambda>p. pl_id p = i) ps) | Some x \<Rightarrow> Some x)"
    by blast+
qed


lemma deletes_spec:
  assumes "history_inv h" "distinct is"
    and "\<And>i. i \<in> set is \<Longrightarrow> get_row hr_id (rows h) i = get_row hr_id existing i"
  shows "history_inv (apply_deletes existing is h)" "later h (apply_deletes existing is h)"
    "lookup (apply_deletes existing is h) i = (if i \<in> set is then Some None else lookup h i)"
proof -
  have "history_inv (apply_deletes existing is h) \<and> later h (apply_deletes existing is h)
    \<and> (\<forall>i. lookup (apply_deletes existing is h) i = (if i \<in> set is then Some None else lookup h i))"
    using assms
  proof (induction "is" arbitrary: h)
    case (Cons j js)
    have gj: "get_row hr_id (rows h) j = get_row hr_id existing j" using Cons.prems(3) by simp
    have fin: ?case
      if eq: "apply_deletes existing (j # js) h = apply_deletes existing js h1"
        and st: "history_inv h1" "later h h1"
        and lk: "\<And>i. lookup h1 i = (if i = j then Some None else lookup h i)"
        and ex: "\<And>i. i \<noteq> j \<Longrightarrow> get_row hr_id (rows h1) i = get_row hr_id (rows h) i" for h1
    proof -
      have "history_inv (apply_deletes existing js h1) \<and> later h1 (apply_deletes existing js h1)
        \<and> (\<forall>i. lookup (apply_deletes existing js h1) i = (if i \<in> set js then Some None else lookup h1 i))"
      proof (rule Cons.IH [OF st(1)])
        fix i assume i: "i \<in> set js"
        then have "i \<noteq> j" using Cons.prems(2) by auto
        then show "get_row hr_id (rows h1) i = get_row hr_id existing i" using ex Cons.prems(3) [of i] i by simp
      qed (use Cons.prems(2) in simp)
      then show ?thesis unfolding eq using later_trans [OF st(2)] lk by auto
    qed
    have r0: "0 \<le> revision h" using Cons.prems(1) by (simp add: history_inv_def)
    show ?case
    proof (cases "get_row hr_id existing j")
      case None
      define r where "r = \<lparr>hr_id = j, hr_revision = revision h + 1, hr_payload = None, hr_bytes = 0\<rparr>"
      have new: "hr_id r \<notin> hr_id ` set (rows h)" using None gj unfolding get_row_None [symmetric] by (simp add: r_def)
      have ok: "hr_revision r = revision h + 1" "row_ok r" using r0 by (simp_all add: r_def row_ok_def)
      show ?thesis
        by (rule fin [OF _ history_append [OF Cons.prems(1) new ok]])
          (use None lookup_append [OF new] in \<open>simp_all add: r_def Let_def get_row_append split: option.splits\<close>)
    next
      case (Some r)
      note r = get_row_Some [OF Some [folded gj]]
      show ?thesis
      proof (cases "hr_payload r = None")
        case True
        then show ?thesis using Cons.prems(1) Some
          by (intro fin [of h]) (auto simp: lookup_def gj)
      next
        case False
        let ?t = "tombstone r (revision h + 1)"
        have t: "hr_id ?t = j" "hr_payload ?t = None" using r by (simp_all add: tombstone_def)
        have g: "get_row hr_id (rows h) (hr_id ?t) = Some r" using Some gj t by simp
        have mem: "hr_id ?t \<in> hr_id ` set (rows h)" using r t by (metis imageI)
        have ok: "hr_revision ?t = revision h + 1" "row_ok ?t" using r0 by (simp_all add: tombstone_def row_ok_def)
        show ?thesis
          by (rule fin [OF _ history_replace [OF Cons.prems(1) g ok t(2)]])
            (use False Some t lookup_put [OF mem] in \<open>auto simp: Let_def get_put_row\<close>)
      qed
    qed
  qed simp
  then show "history_inv (apply_deletes existing is h)" "later h (apply_deletes existing is h)"
    "lookup (apply_deletes existing is h) i = (if i \<in> set is then Some None else lookup h i)"
    by blast+
qed

lemma clear_spec:
  assumes "history_inv h" "distinct (map hr_id rs)" "\<And>r. r \<in> set rs \<Longrightarrow> r \<in> set (rows h)"
  shows "history_inv (clear_rows rs h)" "later h (clear_rows rs h)"
    "lookup (clear_rows rs h) i = (if i \<in> hr_id ` set rs then Some None else lookup h i)"
proof -
  have "history_inv (clear_rows rs h) \<and> later h (clear_rows rs h)
    \<and> (\<forall>i. lookup (clear_rows rs h) i = (if i \<in> hr_id ` set rs then Some None else lookup h i))"
    using assms
  proof (induction rs arbitrary: h)
    case (Cons r rs)
    have r0: "0 \<le> revision h" and k: "keyed hr_id (rows h)" using Cons.prems(1) by (simp_all add: history_inv_def)
    have rm: "r \<in> set (rows h)" using Cons.prems(3) by simp
    let ?t = "tombstone r (revision h + 1)"
    have t: "hr_id ?t = hr_id r" "hr_payload ?t = None" by (simp_all add: tombstone_def)
    have g: "get_row hr_id (rows h) (hr_id ?t) = Some r" using get_row_keyed [OF k rm] t by simp
    have mem: "hr_id ?t \<in> hr_id ` set (rows h)" using rm t by simp
    have ok: "hr_revision ?t = revision h + 1" "row_ok ?t" using r0 by (simp_all add: tombstone_def row_ok_def)
    define h1 where "h1 = h\<lparr>revision := revision h + 1, rows := put_row hr_id ?t (rows h)\<rparr>"
    note st = history_replace [OF Cons.prems(1) g ok t(2), folded h1_def]
    have lk: "lookup h1 i = (if i = hr_id r then Some None else lookup h i)" for i
      unfolding h1_def using lookup_put [OF mem, of "revision h + 1" i] t by simp
    have ne: "hr_id x \<noteq> hr_id r" if "x \<in> set rs" for x
      using Cons.prems(2) imageI [OF that, of hr_id] by (metis distinct.simps(2) list.set_map list.simps(9))
    have "x \<in> set (rows h1)" if "x \<in> set rs" for x
      using Cons.prems(3) [of x] that ne [OF that] t(1) by (auto simp: h1_def put_row_def image_iff)
    then have "history_inv (clear_rows rs h1) \<and> later h1 (clear_rows rs h1)
      \<and> (\<forall>i. lookup (clear_rows rs h1) i = (if i \<in> hr_id ` set rs then Some None else lookup h1 i))"
      by (intro Cons.IH [OF st(1)]) (use Cons.prems(2) in auto)
    moreover have "clear_rows (r # rs) h = clear_rows rs h1" by (simp add: h1_def Let_def)
    ultimately show ?case using later_trans [OF st(2)] lk by auto
  qed simp
  then show "history_inv (clear_rows rs h)" "later h (clear_rows rs h)"
    "lookup (clear_rows rs h) i = (if i \<in> hr_id ` set rs then Some None else lookup h i)" by blast+
qed


text \<open>The change that a request asks for, on what the account knows of each record.\<close>

definition wanted :: "change_request \<Rightarrow> history \<Rightarrow> ustr \<Rightarrow> payload option option" where
  "wanted c h i = (case cr_clear c of
     Some op \<Rightarrow> if op \<in> set (clears h) then lookup h i else map_option (\<lambda>_. None) (lookup h i)
   | None \<Rightarrow> if i \<in> set (cr_deletes c) then Some None
       else case lookup h i of Some x \<Rightarrow> Some x | None \<Rightarrow> map_option (\<lambda>p. Some p) (find (\<lambda>p. pl_id p = i) (cr_upserts c)))"

definition request_ok :: "change_request \<Rightarrow> bool" where
  "request_ok c \<longleftrightarrow> distinct (map pl_id (cr_upserts c)) \<and> distinct (cr_deletes c)
     \<and> (\<forall>p \<in> set (cr_upserts c). pl_id p \<notin> set (cr_deletes c))"

lemma validate_ok: "validate render uuid_of v = Inr c \<Longrightarrow> request_ok c"
  by (auto simp: validate_def request_ok_def Let_def split: pyval.splits option.splits sum.splits if_splits prod.splits)

lemma live_rows_props:
  assumes "history_inv h"
  shows "distinct (map hr_id (live_rows (rows h)))" "r \<in> set (live_rows (rows h)) \<Longrightarrow> r \<in> set (rows h)"
    "set (live_rows (rows h)) = {r \<in> set (rows h). hr_payload r \<noteq> None}"
proof -
  have "distinct (map hr_id (filter (\<lambda>r. hr_payload r \<noteq> None) (rows h)))"
    using assms by (intro distinct_map_filter) (simp add: history_inv_def)
  then show "distinct (map hr_id (live_rows (rows h)))"
    unfolding live_rows_def by (simp add: distinct_map)
qed (auto simp: live_rows_def)

lemma clear_lookup:
  assumes inv: "history_inv h"
  shows "(if i \<in> hr_id ` set (live_rows (rows h)) then Some None else lookup h i) = map_option (\<lambda>_. None) (lookup h i)"
proof (cases "get_row hr_id (rows h) i")
  case None
  then have "i \<notin> hr_id ` set (live_rows (rows h))"
    using live_rows_props(3) [OF inv] by (auto simp: get_row_None)
  then show ?thesis using None by (simp add: lookup_def)
next
  case (Some r)
  have k: "keyed hr_id (rows h)" using inv by (simp add: history_inv_def)
  note r = get_row_Some [OF Some]
  show ?thesis
  proof (cases "hr_payload r")
    case None
    then show ?thesis using Some by (simp add: lookup_def)
  next
    case (Some p)
    then have "r \<in> set (live_rows (rows h))" using r live_rows_props(3) [OF inv] by simp
    then have "i \<in> hr_id ` set (live_rows (rows h))" using r by (metis imageI)
    then show ?thesis using \<open>get_row hr_id (rows h) i = Some r\<close> by (simp add: lookup_def)
  qed
qed

lemma apply_upserts_keeps: "r \<in> set (rows h) \<Longrightarrow> r \<in> set (rows (apply_upserts render existing ps h))"
  by (induction ps arbitrary: h) (auto simp: Let_def)

lemma changes_spec:
  assumes inv: "history_inv h" and ok: "request_ok c"
    and ch: "(case cr_clear c of Some op \<Rightarrow> apply_clear op h | None \<Rightarrow> apply_changes render c h) = Inr h'"
  shows "history_inv h'" "later h h'" "lookup h' i = wanted c h i"
proof -
  have "history_inv h' \<and> later h h' \<and> (\<forall>i. lookup h' i = wanted c h i)"
  proof (cases "cr_clear c")
    case (Some op)
    show ?thesis
    proof (cases "op \<in> set (clears h)")
      case True
      then show ?thesis using ch Some inv by (simp add: apply_clear_def wanted_def)
    next
      case False
      define h0 where "h0 = h\<lparr>clears := clears h @ [op]\<rparr>"
      have h': "h' = clear_rows (live_rows (rows h0)) h0"
        using ch Some False by (simp add: apply_clear_def h0_def Let_def split: if_splits)
      have inv0: "history_inv h0" using inv by (simp add: history_inv_def h0_def)
      have lat: "later h h0" by (simp add: later_def h0_def lookup_def)
      have lk: "lookup h0 i = lookup h i" for i by (simp add: lookup_def h0_def)
      note cs = clear_spec [OF inv0 live_rows_props(1,2) [OF inv0]]
      show ?thesis
        using cs(1) later_trans [OF lat cs(2)] cs(3) clear_lookup [OF inv0] Some False
        by (simp add: h' wanted_def lk)
    qed
  next
    case None
    let ?e = "rows h"
    define h1 where "h1 = apply_upserts render ?e (cr_upserts c) h"
    have h': "h' = apply_deletes ?e (cr_deletes c) h1"
      using ch None by (simp add: apply_changes_def Let_def h1_def split: if_splits)
    have d: "distinct (map pl_id (cr_upserts c))" "distinct (cr_deletes c)" using ok by (auto simp: request_ok_def)
    note us = upserts_spec [OF inv d(1), of ?e render, folded h1_def, OF refl]
    have same: "get_row hr_id (rows h1) i = get_row hr_id ?e i" if "i \<in> set (cr_deletes c)" for i
    proof -
      have "find (\<lambda>p. pl_id p = i) (cr_upserts c) = None"
        using ok that by (auto simp: request_ok_def find_None_iff)
      then have l: "lookup h1 i = lookup h i" using us(3) by (auto split: option.splits)
      show ?thesis
      proof (cases "get_row hr_id ?e i")
        case None
        then show ?thesis using l by (auto simp: lookup_def)
      next
        case (Some r)
        then obtain r1 where r1: "get_row hr_id (rows h1) i = Some r1" using l by (auto simp: lookup_def)
        have "r1 = r"
        proof -
          have "r \<in> set (rows h1)" "hr_id r = i"
            using get_row_Some [OF Some] apply_upserts_keeps [of r h] by (auto simp: h1_def)
          moreover have "keyed hr_id (rows h1)" using us(1) by (simp add: history_inv_def)
          ultimately show ?thesis using get_row_keyed [of hr_id "rows h1" r] r1 by simp
        qed
        then show ?thesis using Some r1 by simp
      qed
    qed
    note ds = deletes_spec [OF us(1) d(2) same]
    show ?thesis unfolding h' using ds us later_trans [OF us(2) ds(2)] None by (auto simp: wanted_def)
  qed
  then show "history_inv h'" "later h h'" "lookup h' i = wanted c h i" by blast+
qed


section \<open>Pages\<close>

definition row_entries :: "history_row list \<Rightarrow> payload list" where
  "row_entries rs = List.map_filter hr_payload rs"

definition row_deleted :: "history_row list \<Rightarrow> ustr list" where
  "row_deleted rs = map hr_id (filter (\<lambda>r. hr_payload r = None) rs)"

lemma row_lists [simp]:
  "row_entries [] = []" "row_deleted [] = []"
  "row_entries (r # rs) = (case hr_payload r of Some p \<Rightarrow> [p] | None \<Rightarrow> []) @ row_entries rs"
  "row_deleted (r # rs) = (if hr_payload r = None then [hr_id r] else []) @ row_deleted rs"
  by (simp_all add: row_entries_def row_deleted_def List.map_filter_def split: option.splits)

lemma fill_page_spec:
  assumes "fill_page render rs g = (g', n)"
  shows "n \<le> length rs \<and> pg_entries g' = pg_entries g @ row_entries (take n rs)
    \<and> pg_deleted g' = pg_deleted g @ row_deleted (take n rs)
    \<and> pg_cursor g' = (if n = 0 then pg_cursor g else hr_revision (rs ! (n - 1)))"
  using assms
proof (induction rs arbitrary: g n)
  case (Cons r rs)
  show ?case
  proof (cases "409600 < render (page_json (add_row g r))")
    case True
    then show ?thesis using Cons.prems by (simp add: Let_def)
  next
    case False
    then obtain m where m: "fill_page render rs (add_row g r) = (g', m)" "n = Suc m"
      using Cons.prems by (auto simp: Let_def split: prod.splits)
    show ?thesis using Cons.IH [OF m(1)] m(2) by (cases m) (auto simp: add_row_def)
  qed
qed simp

lemma after_cursor_props:
  assumes "history_inv h"
  shows "sorted (map hr_revision (after_cursor c (rows h)))" "distinct (map hr_revision (after_cursor c (rows h)))"
    "set (after_cursor c (rows h)) = {r \<in> set (rows h). c < hr_revision r}"
proof -
  have "distinct (map hr_revision (filter (\<lambda>r. c < hr_revision r) (rows h)))"
    using assms by (intro distinct_map_filter) (simp add: history_inv_def)
  then show "distinct (map hr_revision (after_cursor c (rows h)))"
    unfolding after_cursor_def by (simp add: distinct_map)
qed (auto simp: after_cursor_def)

text \<open>
  A page holds exactly the rows between the client's cursor and its own, in the order of their
  revisions; the last page holds all of them.
\<close>

lemma read_page_spec:
  assumes inv: "history_inv h" and g: "read_page render c h = g"
  obtains n where "n \<le> length (after_cursor c (rows h))"
    "pg_entries g = row_entries (take n (after_cursor c (rows h)))"
    "pg_deleted g = row_deleted (take n (after_cursor c (rows h)))"
    "pg_cursor g = (if n = 0 then c else hr_revision (after_cursor c (rows h) ! (n - 1)))"
    "set (take n (after_cursor c (rows h))) = {r \<in> set (rows h). c < hr_revision r \<and> hr_revision r \<le> pg_cursor g}"
    "pg_more g \<longleftrightarrow> n < length (after_cursor c (rows h))"
proof -
  let ?l = "after_cursor c (rows h)"
  let ?g0 = "\<lparr>pg_cursor = c, pg_more = False, pg_entries = [], pg_deleted = []\<rparr>"
  obtain g1 n where f: "fill_page render (take 20 (take 21 ?l)) ?g0 = (g1, n)" by fastforce
  have g': "g = g1\<lparr>pg_more := n < length (take 21 ?l)\<rparr>" using g f by (simp add: read_page_def Let_def)
  note sp = fill_page_spec [OF f]
  have n: "n \<le> 20" "n \<le> length ?l" using sp by auto
  have tk: "take n (take 20 (take 21 ?l)) = take n ?l" using n by (simp add: min_def)
  have nth: "n \<noteq> 0 \<Longrightarrow> take 20 (take 21 ?l) ! (n - 1) = ?l ! (n - 1)" using n by simp
  have cur: "pg_cursor g = (if n = 0 then c else hr_revision (?l ! (n - 1)))" using sp nth by (simp add: g')
  note ac = after_cursor_props [OF inv, of c]
  have "set (take n ?l) = {r \<in> set ?l. hr_revision r \<le> pg_cursor g}" (is "?t = ?s")
  proof (cases n)
    case 0
    then show ?thesis using cur ac(3) by auto
  next
    case (Suc m)
    have m: "m < length ?l" using n Suc by simp
    have cm: "pg_cursor g = hr_revision (?l ! m)" using cur Suc by simp
    show ?thesis
    proof (intro equalityI subsetI)
      fix r assume "r \<in> ?t"
      then obtain i where i: "i < n" "i < length ?l" "r = ?l ! i" by (auto simp: in_set_conv_nth)
      have "hr_revision (?l ! i) \<le> hr_revision (?l ! m)"
        using sorted_nth_mono [OF ac(1), of i m] i m Suc by simp
      then show "r \<in> ?s" using i cm by simp
    next
      fix r assume r: "r \<in> ?s"
      then obtain j where j: "j < length ?l" "r = ?l ! j" by (auto simp: in_set_conv_nth)
      have "j < n"
      proof (rule ccontr)
        assume "\<not> j < n"
        then have "m < j" using Suc by simp
        then have "hr_revision (?l ! m) \<le> hr_revision (?l ! j)" using sorted_nth_mono [OF ac(1), of m j] j m by simp
        moreover have "hr_revision (?l ! m) \<noteq> hr_revision (?l ! j)"
          using ac(2) \<open>m < j\<close> j m by (metis length_map nat_neq_iff nth_eq_iff_index_eq nth_map)
        ultimately show False using r j cm by simp
      qed
      then show "r \<in> ?t" using j by (metis in_set_conv_nth length_take min_less_iff_conj nth_take)
    qed
  qed
  then have st: "set (take n ?l) = {r \<in> set (rows h). c < hr_revision r \<and> hr_revision r \<le> pg_cursor g}"
    using ac(3) by auto
  have "pg_more g \<longleftrightarrow> n < length ?l" using n by (auto simp: g')
  with sp cur st n tk show thesis by (intro that [of n]) (simp_all add: g')
qed

section \<open>A client's copy\<close>

text \<open>The live records a client holds, and how a page changes them.\<close>

definition apply_page :: "page \<Rightarrow> (ustr \<rightharpoonup> payload) \<Rightarrow> ustr \<rightharpoonup> payload" where
  "apply_page g copy i = (if i \<in> set (pg_deleted g) then None
     else case find (\<lambda>p. pl_id p = i) (pg_entries g) of Some p \<Rightarrow> Some p | None \<Rightarrow> copy i)"

text \<open>The copy agrees with the account on every row up to the cursor.\<close>

definition in_step :: "int \<Rightarrow> history \<Rightarrow> (ustr \<rightharpoonup> payload) \<Rightarrow> bool" where
  "in_step c h copy \<longleftrightarrow> (\<forall>r \<in> set (rows h). hr_revision r \<le> c \<longrightarrow> copy (hr_id r) = hr_payload r)"

lemma in_step_later:
  assumes "in_step c h copy" "later h h'" "c \<le> revision h"
  shows "in_step c h' copy"
  using assms by (fastforce simp: in_step_def later_def)

lemma row_entries_mem: "p \<in> set (row_entries rs) \<longleftrightarrow> (\<exists>r \<in> set rs. hr_payload r = Some p)"
  by (induction rs) (auto split: option.splits)

lemma row_deleted_mem: "i \<in> set (row_deleted rs) \<longleftrightarrow> (\<exists>r \<in> set rs. hr_payload r = None \<and> hr_id r = i)"
  by (auto simp: row_deleted_def)

lemma apply_page_row:
  assumes inv: "history_inv h" and sub: "set rs \<subseteq> set (rows h)" and r: "r \<in> set (rows h)"
    and g: "pg_entries g = row_entries rs" "pg_deleted g = row_deleted rs"
  shows "apply_page g copy (hr_id r) = (if r \<in> set rs then hr_payload r else copy (hr_id r))"
proof -
  have k: "keyed hr_id (rows h)" using inv by (simp add: history_inv_def)
  have uniq: "x = r" if "x \<in> set (rows h)" "hr_id x = hr_id r" for x
    using get_row_keyed [OF k that(1)] get_row_keyed [OF k r] that(2) by (metis option.inject)
  have del: "hr_id r \<in> set (pg_deleted g) \<longleftrightarrow> r \<in> set rs \<and> hr_payload r = None"
    using uniq sub by (auto simp: g row_deleted_mem)
  have pid: "pl_id p = hr_id x" if "x \<in> set (rows h)" "hr_payload x = Some p" for x p
    using inv that by (auto simp: history_inv_def row_ok_def split: option.splits)
  have ent: "p \<in> set (pg_entries g) \<and> pl_id p = hr_id r \<longleftrightarrow> r \<in> set rs \<and> hr_payload r = Some p" for p
    using uniq sub pid by (auto simp: g row_entries_mem) (metis subsetD)+
  show ?thesis
  proof (cases "r \<in> set rs")
    case False
    then have "find (\<lambda>p. pl_id p = hr_id r) (pg_entries g) = None" using ent by (auto simp: find_None_iff)
    then show ?thesis using False del by (simp add: apply_page_def)
  next
    case True
    show ?thesis
    proof (cases "hr_payload r")
      case None
      then show ?thesis using True del by (simp add: apply_page_def)
    next
      case (Some p)
      have "find (\<lambda>p. pl_id p = hr_id r) (pg_entries g) = Some p"
      proof (cases "find (\<lambda>p. pl_id p = hr_id r) (pg_entries g)")
        case None
        then show ?thesis using ent [of p] True Some by (auto simp: find_None_iff)
      next
        case (Some q)
        then have "q \<in> set (pg_entries g) \<and> pl_id q = hr_id r" by (auto simp: find_Some_iff)
        then show ?thesis using ent [of q] \<open>hr_payload r = Some p\<close> Some by simp
      qed
      then show ?thesis using Some True del by (simp add: apply_page_def)
    qed
  qed
qed

lemma apply_page_in_step:
  assumes inv: "history_inv h" and st: "in_step c h copy" and g: "read_page render c h = g"
  shows "in_step (pg_cursor g) h (apply_page g copy)" "\<not> pg_more g \<Longrightarrow> in_step (revision h) h (apply_page g copy)"
proof -
  obtain n where n: "pg_entries g = row_entries (take n (after_cursor c (rows h)))"
    "pg_deleted g = row_deleted (take n (after_cursor c (rows h)))"
    "set (take n (after_cursor c (rows h))) = {r \<in> set (rows h). c < hr_revision r \<and> hr_revision r \<le> pg_cursor g}"
    "pg_more g \<longleftrightarrow> n < length (after_cursor c (rows h))"
    by (rule read_page_spec [OF inv g])
  have sub: "set (take n (after_cursor c (rows h))) \<subseteq> set (rows h)" using n(3) by auto
  note row = apply_page_row [OF inv sub _ n(1,2)]
  show "in_step (pg_cursor g) h (apply_page g copy)"
    unfolding in_step_def using row n(3) st by (auto simp: in_step_def)
  show "in_step (revision h) h (apply_page g copy)" if "\<not> pg_more g"
  proof -
    have "take n (after_cursor c (rows h)) = after_cursor c (rows h)" using n(4) that by simp
    then have "set (take n (after_cursor c (rows h))) = {r \<in> set (rows h). c < hr_revision r}"
      using after_cursor_props(3) [OF inv] by simp
    then show ?thesis unfolding in_step_def using row st by (auto simp: in_step_def)
  qed
qed


lemma synchronize_cases:
  assumes "synchronize render uuid_of active v h = Inr (g, h')"
  obtains c where "validate render uuid_of v = Inr c" "active" "cr_cursor c \<le> revision h"
    "(case cr_clear c of Some op \<Rightarrow> apply_clear op h | None \<Rightarrow> apply_changes render c h) = Inr h'"
    "g = read_page render (cr_cursor c) h'"
  using assms by (auto simp: synchronize_def split: sum.splits if_splits)

lemma read_page_cursor:
  assumes inv: "history_inv h" and c: "c \<le> revision h"
  shows "pg_cursor (read_page render c h) \<le> revision h" "c \<le> pg_cursor (read_page render c h)"
proof -
  let ?g = "read_page render c h"
  obtain n where n: "n \<le> length (after_cursor c (rows h))"
    "pg_cursor ?g = (if n = 0 then c else hr_revision (after_cursor c (rows h) ! (n - 1)))"
    by (rule read_page_spec [OF inv refl])
  have "pg_cursor ?g \<le> revision h \<and> c \<le> pg_cursor ?g"
  proof (cases "n = 0")
    case False
    then have "after_cursor c (rows h) ! (n - 1) \<in> set (after_cursor c (rows h))" using n(1) by simp
    then show ?thesis using False n(2) after_cursor_props(3) [OF inv, of c] inv by (auto simp: history_inv_def)
  qed (use n c in simp)
  then show "pg_cursor ?g \<le> revision h" "c \<le> pg_cursor ?g" by auto
qed

text \<open>
  One client reads while any number of other devices of the account write: the state is the
  account's history with the client's cursor and copy.
\<close>

inductive sync_step ::
  "(pyval \<Rightarrow> int) \<Rightarrow> (ustr \<Rightarrow> nat option) \<Rightarrow> history \<times> int \<times> (ustr \<rightharpoonup> payload) \<Rightarrow> pyval
     \<Rightarrow> history \<times> int \<times> (ustr \<rightharpoonup> payload) \<Rightarrow> bool" for render uuid_of where
  other_device: "synchronize render uuid_of True v h = Inr (g, h') \<Longrightarrow>
    sync_step render uuid_of (h, c, copy) v (h', c, copy)"
| this_client: "synchronize render uuid_of True v h = Inr (g, h') \<Longrightarrow> validate render uuid_of v = Inr req \<Longrightarrow>
    cr_cursor req = c \<Longrightarrow>
    sync_step render uuid_of (h, c, copy) v (h', pg_cursor g, apply_page g copy)"

definition sync_inv :: "history \<times> int \<times> (ustr \<rightharpoonup> payload) \<Rightarrow> bool" where
  "sync_inv s \<longleftrightarrow> (case s of (h, c, copy) \<Rightarrow> history_inv h \<and> c \<le> revision h \<and> in_step c h copy)"

lemma sync_step_inv:
  assumes "sync_step render uuid_of s v s'" "sync_inv s"
  shows "sync_inv s'"
  using assms(1)
proof cases
  case (other_device h g h' c copy)
  then obtain req where "validate render uuid_of v = Inr req"
    "(case cr_clear req of Some op \<Rightarrow> apply_clear op h | None \<Rightarrow> apply_changes render req h) = Inr h'"
    by (blast elim: synchronize_cases)
  from changes_spec(1,2) [OF _ validate_ok [OF this(1)] this(2)] assms(2) other_device(1,2)
  show ?thesis by (auto simp: sync_inv_def later_def intro: in_step_later)
next
  case (this_client h g h' req c copy)
  then have ch: "(case cr_clear req of Some op \<Rightarrow> apply_clear op h | None \<Rightarrow> apply_changes render req h) = Inr h'"
    and g: "g = read_page render c h'"
    by (auto elim!: synchronize_cases)
  have inv: "history_inv h" "c \<le> revision h" "in_step c h copy" using assms(2) this_client(1) by (auto simp: sync_inv_def)
  note cs = changes_spec(1,2) [OF inv(1) validate_ok [OF this_client(4)] ch]
  have "in_step c h' copy" by (rule in_step_later [OF inv(3) cs(2) inv(2)])
  from apply_page_in_step(1) [OF cs(1) this g [symmetric]]
  have "in_step (pg_cursor g) h' (apply_page g copy)" .
  moreover have "c \<le> revision h'" using inv(2) cs(2) by (simp add: later_def)
  ultimately show ?thesis
    using cs(1) read_page_cursor(1) [OF cs(1)] this_client(2) g by (simp add: sync_inv_def)
qed

definition sync_start :: "history \<times> int \<times> (ustr \<rightharpoonup> payload) \<Rightarrow> bool" where
  "sync_start s \<longleftrightarrow> fst s = empty_history \<and> fst (snd s) = 0"

interpretation sync: stateful_component sync_start "sync_step render uuid_of" sync_inv
proof unfold_locales
  fix s assume "sync_start s"
  then show "sync_inv s" by (cases s) (auto simp: sync_start_def sync_inv_def empty_history_def history_inv_def in_step_def)
qed (rule sync_step_inv)

lemma reachable_sync:
  assumes "sync_start s" "run_of (sync_step render uuid_of) s vs (h, c, copy)"
  shows "history_inv h" "c \<le> revision h" "in_step c h copy"
  using sync.reachable_inv [OF assms] by (auto simp: sync_inv_def)

section \<open>Properties\<close>


definition demo_payload :: payload where
  "demo_payload = \<lparr>pl_id = ulit ''a'', pl_created = 5, pl_transcript = ulit ''hi'', pl_text = ulit ''Hi'',
     pl_rewritten = True, pl_device = ulit ''mobile''\<rparr>"

definition demo_request :: pyval where
  "demo_request = PDict [(ulit ''cursor'', PInt 0), (ulit ''upserts'', PList [payload_json demo_payload]),
     (ulit ''deletes'', PList [])]"

definition demo_history :: history where
  "demo_history = \<lparr>revision = 1, rows = [\<lparr>hr_id = ulit ''a'', hr_revision = 1, hr_payload = Some demo_payload,
     hr_bytes = 7\<rparr>], clears = []\<rparr>"

definition demo_page :: page where
  "demo_page = \<lparr>pg_cursor = 1, pg_more = False, pg_entries = [demo_payload], pg_deleted = []\<rparr>"

lemma demo_validate:
  "validate (\<lambda>_. 7) (\<lambda>_. None) demo_request
     = Inr \<lparr>cr_cursor = 0, cr_upserts = [demo_payload], cr_deletes = [], cr_clear = None\<rparr>"
  by code_simp

lemma demo_synchronize:
  "synchronize (\<lambda>_. 7) (\<lambda>_. None) True demo_request empty_history = Inr (demo_page, demo_history)"
  unfolding synchronize_def demo_validate by code_simp


text \<open>
  C16. What one request does. In a reachable state an accepted request leaves the account knowing
  exactly what it asked for: deleted records are tombstones, new records are stored, records the
  account already knows keep their state, and a new clear turns every record into a tombstone.
\<close>

theorem request_takes_effect:
  assumes "sync_start s" "run_of (sync_step render uuid_of) s vs (h, c, copy)"
    and "validate render uuid_of v = Inr req" "synchronize render uuid_of True v h = Inr (g, h')"
  shows "lookup h' i = wanted req h i"
proof -
  have "(case cr_clear req of Some op \<Rightarrow> apply_clear op h | None \<Rightarrow> apply_changes render req h) = Inr h'"
    using assms(3,4) by (auto elim!: synchronize_cases)
  from changes_spec(3) [OF reachable_sync(1) [OF assms(1,2)] validate_ok [OF assms(3)] this] show ?thesis .
qed

theorem request_takes_effect_witness: "lookup demo_history (ulit ''a'') = Some (Some demo_payload)"
proof -
  have s: "sync_start (empty_history, 0, \<lambda>_. None)" by (simp add: sync_start_def)
  from request_takes_effect [OF s run_nil demo_validate demo_synchronize, of "ulit ''a''"]
  show ?thesis by (simp add: wanted_def lookup_def empty_history_def get_row_def) (simp add: demo_payload_def)
qed








end
