(* ===== verification/Codecs.thy ===== *)
theory Codecs
  imports Py_Value
begin

text \<open>
  The standard-library codecs the repository relies on, as executable functions: strict UTF-8
  decoding, base64 in both alphabets, and the JSON reader and writer with the options the relay
  uses (\<^verbatim>\<open>ensure_ascii\<close>, compact separators, an \<^verbatim>\<open>object_pairs_hook\<close> that refuses duplicate members
  and a \<^verbatim>\<open>parse_constant\<close> that refuses \<^verbatim>\<open>NaN\<close> and the infinities). The lemmas are the round trips the
  components build on.
\<close>

section \<open>UTF-8\<close>

definition continuation :: "nat \<Rightarrow> bool" where
  "continuation b \<longleftrightarrow> 128 \<le> b \<and> b \<le> 191"

definition surrogate :: "nat \<Rightarrow> bool" where
  "surrogate c \<longleftrightarrow> 55296 \<le> c \<and> c \<le> 57343"

fun utf8_decode :: "bytes \<Rightarrow> ustr option" where
  "utf8_decode [] = Some []"
| "utf8_decode (a # s) =
     (if a < 128 then map_option (Cons a) (utf8_decode s)
      else if 194 \<le> a \<and> a \<le> 223 then (case s of
          b # t \<Rightarrow> if continuation b then map_option (Cons ((a - 192) * 64 + (b - 128))) (utf8_decode t) else None
        | [] \<Rightarrow> None)
      else if 224 \<le> a \<and> a \<le> 239 then (case s of
          b # c # t \<Rightarrow> (let n = (a - 224) * 4096 + (b - 128) * 64 + (c - 128) in
            if continuation b \<and> continuation c \<and> 2048 \<le> n \<and> \<not> surrogate n
            then map_option (Cons n) (utf8_decode t) else None)
        | _ \<Rightarrow> None)
      else if 240 \<le> a \<and> a \<le> 244 then (case s of
          b # c # d # t \<Rightarrow> (let n = (a - 240) * 262144 + (b - 128) * 4096 + (c - 128) * 64 + (d - 128) in
            if continuation b \<and> continuation c \<and> continuation d \<and> 65536 \<le> n \<and> n < 1114112
            then map_option (Cons n) (utf8_decode t) else None)
        | _ \<Rightarrow> None)
      else None)"

lemma utf8_decode_ascii: "list_all (\<lambda>b. b < 128) s \<Longrightarrow> utf8_decode s = Some s"
  by (induction s) auto

section \<open>Base64\<close>

text \<open>The standard alphabet ends in \<^verbatim>\<open>+/\<close>, the URL-safe one in \<^verbatim>\<open>-_\<close>.\<close>

definition b64_char :: "bool \<Rightarrow> nat \<Rightarrow> nat" where
  "b64_char url n = (if n < 26 then 65 + n else if n < 52 then 71 + n else if n < 62 then n - 4
     else if n = 62 then (if url then 45 else 43) else (if url then 95 else 47))"

definition b64_value :: "bool \<Rightarrow> nat \<Rightarrow> nat option" where
  "b64_value url c = (if 65 \<le> c \<and> c \<le> 90 then Some (c - 65) else if 97 \<le> c \<and> c \<le> 122 then Some (c - 71)
     else if 48 \<le> c \<and> c \<le> 57 then Some (c + 4)
     else if c = (if url then 45 else 43) then Some 62 else if c = (if url then 95 else 47) then Some 63 else None)"

fun b64_encode :: "bool \<Rightarrow> bytes \<Rightarrow> ustr" where
  "b64_encode url [] = []"
| "b64_encode url [a] = [b64_char url (a div 4), b64_char url (a mod 4 * 16), 61, 61]"
| "b64_encode url [a, b] =
     [b64_char url (a div 4), b64_char url (a mod 4 * 16 + b div 16), b64_char url (b mod 16 * 4), 61]"
| "b64_encode url (a # b # c # s) =
     b64_char url (a div 4) # b64_char url (a mod 4 * 16 + b div 16) # b64_char url (b mod 16 * 4 + c div 64)
       # b64_char url (c mod 64) # b64_encode url s"

text \<open>
  Decoding of a text of complete quads. Bits beyond the last byte are dropped, as \<^verbatim>\<open>binascii\<close> does;
  the callers compare with the encoding to refuse such texts.
\<close>

fun b64_decode :: "bool \<Rightarrow> ustr \<Rightarrow> bytes option" where
  "b64_decode url [] = Some []"
| "b64_decode url (a # b # c # d # s) = (case (b64_value url a, b64_value url b) of
     (Some w, Some x) \<Rightarrow>
       if s = [] \<and> d = 61 then
         (if c = 61 then Some [w * 4 + x div 16]
          else (case b64_value url c of None \<Rightarrow> None | Some y \<Rightarrow> Some [w * 4 + x div 16, x mod 16 * 16 + y div 4]))
       else (case (b64_value url c, b64_value url d, b64_decode url s) of
         (Some y, Some z, Some r) \<Rightarrow>
           Some ((w * 4 + x div 16) # (x mod 16 * 16 + y div 4) # (y mod 4 * 64 + z) # r)
       | _ \<Rightarrow> None)
   | _ \<Rightarrow> None)"
| "b64_decode url _ = None"

abbreviation is_bytes :: "bytes \<Rightarrow> bool" where
  "is_bytes s \<equiv> list_all (\<lambda>b. b < 256) s"

lemma b64_value_char [simp]: "n < 64 \<Longrightarrow> b64_value url (b64_char url n) = Some n"
  by (auto simp: b64_value_def b64_char_def)

lemma b64_char_pad [simp]: "n < 64 \<Longrightarrow> b64_char url n \<noteq> 61"
  by (auto simp: b64_char_def)

lemma b64_value_bound: "b64_value url c = Some n \<Longrightarrow> n < 64"
  by (auto simp: b64_value_def split: if_splits)

lemma b64_char_value: "b64_value url c = Some n \<Longrightarrow> b64_char url n = c"
  by (auto simp: b64_value_def b64_char_def split: if_splits)

lemma b64_roundtrip: "is_bytes s \<Longrightarrow> b64_decode url (b64_encode url s) = Some s"
proof (induction url s rule: b64_encode.induct)
  case (2 url a)
  then have "a div 4 < 64" "a mod 4 * 16 < 64" by auto
  then show ?case by simp
next
  case (3 url a b)
  then have "a div 4 < 64" "a mod 4 * 16 + b div 16 < 64" "b mod 16 * 4 < 64" by auto
  moreover have "(a mod 4 * 16 + b div 16) div 16 = a mod 4" "(a mod 4 * 16 + b div 16) mod 16 = b div 16"
    using 3 by auto
  ultimately show ?case by simp
next
  case (4 url a b c s)
  then have "a div 4 < 64" "a mod 4 * 16 + b div 16 < 64" "b mod 16 * 4 + c div 64 < 64" "c mod 64 < 64" by auto
  moreover have "(a mod 4 * 16 + b div 16) div 16 = a mod 4" "(a mod 4 * 16 + b div 16) mod 16 = b div 16"
    "(b mod 16 * 4 + c div 64) div 4 = b mod 16" "(b mod 16 * 4 + c div 64) mod 4 = c div 64"
    using 4 by auto
  ultimately show ?case using 4 by simp
qed simp

lemma b64_decode_bytes: "b64_decode url s = Some r \<Longrightarrow> is_bytes r"
proof (induction url s arbitrary: r rule: b64_decode.induct)
  case (2 url a b c d s)
  obtain w x where wx: "b64_value url a = Some w" "b64_value url b = Some x"
    using 2(2) by (auto split: option.splits)
  note wx [THEN b64_value_bound]
  then have 1: "w * 4 + x div 16 < 256" by auto
  have 2: "x mod 16 * 16 + y div 4 < 256" "y mod 4 * 64 + z < 256" if "y < 64" "z < 64" for y z
    using that by auto
  have ih: "is_bytes t" if "\<not> (s = [] \<and> d = 61)" "b64_decode url s = Some t" for t
    using "2.IH" wx that by auto
  show ?case using "2.prems" wx 1 2 ih
    by (fastforce split: if_splits option.splits dest: b64_value_bound)
qed auto

text \<open>\<^verbatim>\<open>urlsafe_b64encode(...).rstrip("=")\<close> and the padding the decoders add again.\<close>

definition strip_pad :: "ustr \<Rightarrow> ustr" where
  "strip_pad s = rev (dropWhile (\<lambda>c. c = 61) (rev s))"

lemma strip_pad_simps:
  "strip_pad [] = []" "c \<noteq> 61 \<Longrightarrow> strip_pad (s @ [c]) = s @ [c]"
  "strip_pad (s @ [61]) = strip_pad s"
  by (simp_all add: strip_pad_def)

lemma strip_pad_Cons: "c \<noteq> 61 \<Longrightarrow> strip_pad (c # s) = c # strip_pad s"
proof (induction s rule: rev_induct)
  case Nil
  then show ?case by (simp add: strip_pad_def)
next
  case (snoc x xs)
  then show ?case using strip_pad_simps(2) [of x "c # xs"] strip_pad_simps(3) [of "c # xs"]
    by (cases "x = 61") (auto simp: strip_pad_simps)
qed

definition repad :: "ustr \<Rightarrow> ustr" where
  "repad s = s @ replicate ((4 - length s mod 4) mod 4) 61"

lemma repad_quad: "repad (a # b # c # d # s) = a # b # c # d # repad s"
  by (simp add: repad_def)

lemma strip_pad_encode: "is_bytes s \<Longrightarrow> repad (strip_pad (b64_encode url s)) = b64_encode url s
   \<and> length (strip_pad (b64_encode url s)) = (4 * length s + 2) div 3"
proof (induction url s rule: b64_encode.induct)
  case (1 url)
  then show ?case by (simp add: strip_pad_def repad_def)
next
  case (2 url a)
  then have "a div 4 < 64" "a mod 4 * 16 < 64" by auto
  then show ?case by (simp add: strip_pad_Cons) (simp add: strip_pad_def repad_def numeral_2_eq_2)
next
  case (3 url a b)
  then have "a div 4 < 64" "a mod 4 * 16 + b div 16 < 64" "b mod 16 * 4 < 64" by auto
  then show ?case by (simp add: strip_pad_Cons) (simp add: strip_pad_def repad_def)
next
  case (4 url a b c s)
  then have "a div 4 < 64" "a mod 4 * 16 + b div 16 < 64" "b mod 16 * 4 + c div 64 < 64" "c mod 64 < 64" by auto
  then show ?case using 4 by (simp add: strip_pad_Cons repad_quad)
qed

lemma strip_pad_encode_chars:
  "is_bytes s \<Longrightarrow> list_all (\<lambda>c. b64_value url c \<noteq> None) (strip_pad (b64_encode url s))"
proof (induction url s rule: b64_encode.induct)
  case (2 url a)
  then have "a div 4 < 64" "a mod 4 * 16 < 64" by auto
  then show ?case by (simp add: strip_pad_Cons) (simp add: strip_pad_def)
next
  case (3 url a b)
  then have "a div 4 < 64" "a mod 4 * 16 + b div 16 < 64" "b mod 16 * 4 < 64" by auto
  then show ?case by (simp add: strip_pad_Cons) (simp add: strip_pad_def)
next
  case (4 url a b c s)
  then have "a div 4 < 64" "a mod 4 * 16 + b div 16 < 64" "b mod 16 * 4 + c div 64 < 64" "c mod 64 < 64" by auto
  then show ?case using 4 by (simp add: strip_pad_Cons)
qed (simp add: strip_pad_def)

lemma b64_value_id_char: "b64_value True c \<noteq> None \<longleftrightarrow> id_char c"
  by (auto simp: b64_value_def id_char_def ascii_alnum_def)

section \<open>Reading JSON\<close>

definition json_space :: "nat \<Rightarrow> bool" where
  "json_space c \<longleftrightarrow> c = 32 \<or> c = 9 \<or> c = 10 \<or> c = 13"

abbreviation skip :: "ustr \<Rightarrow> ustr" where
  "skip s \<equiv> dropWhile json_space s"

definition hex_value :: "nat \<Rightarrow> nat option" where
  "hex_value c = (if 48 \<le> c \<and> c \<le> 57 then Some (c - 48) else if 97 \<le> c \<and> c \<le> 102 then Some (c - 87)
     else if 65 \<le> c \<and> c \<le> 70 then Some (c - 55) else None)"

fun hex4 :: "ustr \<Rightarrow> (nat \<times> ustr) option" where
  "hex4 (a # b # c # d # s) = (case (hex_value a, hex_value b, hex_value c, hex_value d) of
     (Some w, Some x, Some y, Some z) \<Rightarrow> Some (w * 4096 + x * 256 + y * 16 + z, s) | _ \<Rightarrow> None)"
| "hex4 _ = None"

text \<open>The second half of a surrogate pair, if the text goes on with one.\<close>

definition joined :: "nat \<Rightarrow> ustr \<Rightarrow> (nat \<times> ustr) option" where
  "joined n s = (case s of a # b # t \<Rightarrow>
     if 55296 \<le> n \<and> n \<le> 56319 \<and> a = 92 \<and> b = 117 then (case hex4 t of
       Some (m, u) \<Rightarrow> if 56320 \<le> m \<and> m \<le> 57343 then Some (65536 + (n - 55296) * 1024 + (m - 56320), u) else None
     | None \<Rightarrow> None) else None
   | _ \<Rightarrow> None)"

definition unescape :: "nat \<Rightarrow> nat option" where
  "unescape e = (if e = 34 \<or> e = 92 \<or> e = 47 then Some e else if e = 98 then Some 8 else if e = 102 then Some 12
     else if e = 110 then Some 10 else if e = 114 then Some 13 else if e = 116 then Some 9 else None)"

definition prepend :: "'a \<Rightarrow> ('a list \<times> 'b) option \<Rightarrow> ('a list \<times> 'b) option" where
  "prepend x r = map_option (\<lambda>(xs, s). (x # xs, s)) r"

lemma hex4_length: "hex4 s = Some (n, t) \<Longrightarrow> length s = length t + 4"
  by (induction s rule: hex4.induct) (auto split: option.splits)

lemma joined_length: "joined n s = Some (m, t) \<Longrightarrow> length t < length s"
  by (auto simp: joined_def split: list.splits if_splits option.splits dest: hex4_length)

lemma prepend_Some: "prepend x r = Some (ys, s) \<longleftrightarrow> (\<exists>xs. r = Some (xs, s) \<and> ys = x # xs)"
  by (auto simp: prepend_def)

text \<open>The characters after an opening quote, up to the closing one.\<close>

function json_chars :: "ustr \<Rightarrow> (ustr \<times> ustr) option" where
  "json_chars [] = None"
| "json_chars (c # s) =
     (if c = 34 then Some ([], s)
      else if c < 32 then None
      else if c = 92 then (case s of [] \<Rightarrow> None | e # t \<Rightarrow>
        if e = 117 then (case hex4 t of None \<Rightarrow> None | Some (n, u) \<Rightarrow>
          (case joined n u of Some (m, w) \<Rightarrow> prepend m (json_chars w) | None \<Rightarrow> prepend n (json_chars u)))
        else (case unescape e of None \<Rightarrow> None | Some x \<Rightarrow> prepend x (json_chars t)))
      else prepend c (json_chars s))"
  by pat_completeness auto
termination
  by (relation "measure length") (auto dest!: hex4_length joined_length)

definition is_digit :: "nat \<Rightarrow> bool" where
  "is_digit c \<longleftrightarrow> 48 \<le> c \<and> c \<le> 57"

definition dec_value :: "ustr \<Rightarrow> nat" where
  "dec_value ds = foldl (\<lambda>n d. 10 * n + (d - 48)) 0 ds"

definition number_frac :: "ustr \<Rightarrow> ustr \<times> ustr" where
  "number_frac s = (case s of c # t \<Rightarrow>
     if c = 46 \<and> takeWhile is_digit t \<noteq> [] then (takeWhile is_digit t, dropWhile is_digit t) else ([], s)
   | [] \<Rightarrow> ([], s))"

definition number_exp :: "ustr \<Rightarrow> int option \<times> ustr" where
  "number_exp s = (case s of c # t \<Rightarrow>
     if c = 101 \<or> c = 69 then
       (let neg = (case t of g # u \<Rightarrow> g = 45 | [] \<Rightarrow> False);
            u = (case t of g # u \<Rightarrow> if g = 43 \<or> g = 45 then u else t | [] \<Rightarrow> t);
            ds = takeWhile is_digit u in
        if ds = [] then (None, s)
        else (Some ((if neg then -1 else 1) * int (dec_value ds)), dropWhile is_digit u))
     else (None, s)
   | [] \<Rightarrow> (None, s))"

definition int_digits :: "ustr \<Rightarrow> ustr" where
  "int_digits t = (case t of c # _ \<Rightarrow> if c = 48 then [c] else takeWhile is_digit t | [] \<Rightarrow> [])"

text \<open>
  A number. One with a fraction or an exponent is a float; the model keeps its exact decimal value,
  and the code that reads frames refuses every float.
\<close>

definition json_number :: "ustr \<Rightarrow> (pyval \<times> ustr) option" where
  "json_number s =
     (let neg = (case s of c # _ \<Rightarrow> c = 45 | [] \<Rightarrow> False);
          t = (if neg then tl s else s);
          ds = int_digits t;
          sign = (if neg then - 1 else 1 :: int)
      in if ds = [] then None
         else (case number_frac (drop (length ds) t) of (fs, u) \<Rightarrow> (case number_exp u of (ex, w) \<Rightarrow>
           if fs = [] \<and> ex = None then Some (PInt (sign * int (dec_value ds)), w)
           else Some (PFloat (of_int (sign * int (dec_value (ds @ fs)))
                        * 10 powi ((case ex of Some e \<Rightarrow> e | None \<Rightarrow> 0) - int (length fs))), w))))"

definition literal :: "ustr \<Rightarrow> pyval \<Rightarrow> ustr \<Rightarrow> (pyval \<times> ustr) option" where
  "literal word v s = (if take (length word) s = word then Some (v, drop (length word) s) else None)"

text \<open>
  The recursive reader. Its fuel bounds the nesting and the number of members; a text has fewer of
  either than characters. The hook that collects an object refuses a repeated member.
\<close>

fun json_value :: "nat \<Rightarrow> ustr \<Rightarrow> (pyval \<times> ustr) option"
  and json_members :: "nat \<Rightarrow> ustr \<Rightarrow> ((ustr \<times> pyval) list \<times> ustr) option"
  and json_items :: "nat \<Rightarrow> ustr \<Rightarrow> (pyval list \<times> ustr) option" where
  "json_value 0 s = None"
| "json_value (Suc n) s = (case s of [] \<Rightarrow> None | c # t \<Rightarrow>
     if c = 34 then map_option (\<lambda>(x, r). (PStr x, r)) (json_chars t)
     else if c = 123 then
       (if skip t \<noteq> [] \<and> hd (skip t) = 125 then Some (PDict [], tl (skip t))
        else (case json_members n (skip t) of None \<Rightarrow> None
          | Some (ms, r) \<Rightarrow> if distinct (map fst ms) then Some (PDict ms, r) else None))
     else if c = 91 then
       (if skip t \<noteq> [] \<and> hd (skip t) = 93 then Some (PList [], tl (skip t))
        else map_option (\<lambda>(xs, r). (PList xs, r)) (json_items n (skip t)))
     else if c = 110 then literal (ulit ''null'') PNone s
     else if c = 116 then literal (ulit ''true'') (PBool True) s
     else if c = 102 then literal (ulit ''false'') (PBool False) s
     else json_number s)"
| "json_members 0 s = None"
| "json_members (Suc n) s = (case s of [] \<Rightarrow> None | c # t \<Rightarrow>
     if c \<noteq> 34 then None
     else (case json_chars t of None \<Rightarrow> None | Some (k, r) \<Rightarrow>
       if skip r = [] \<or> hd (skip r) \<noteq> 58 then None
       else (case json_value n (skip (tl (skip r))) of None \<Rightarrow> None | Some (v, r2) \<Rightarrow>
         (case skip r2 of [] \<Rightarrow> None | d # r3 \<Rightarrow>
           if d = 125 then Some ([(k, v)], r3)
           else if d = 44 then prepend (k, v) (json_members n (skip r3))
           else None))))"
| "json_items 0 s = None"
| "json_items (Suc n) s = (case json_value n s of None \<Rightarrow> None | Some (v, r) \<Rightarrow>
     (case skip r of [] \<Rightarrow> None | d # r1 \<Rightarrow>
       if d = 93 then Some ([v], r1)
       else if d = 44 then prepend v (json_items n (skip r1))
       else None))"

definition json_loads :: "ustr \<Rightarrow> pyval option" where
  "json_loads s =
     (if s \<noteq> [] \<and> hd s = 65279 then None
      else (case json_value (2 * length s + 1) (skip s) of None \<Rightarrow> None
        | Some (v, r) \<Rightarrow> if skip r = [] then Some v else None))"

section \<open>Writing JSON\<close>

definition hex_char :: "nat \<Rightarrow> nat" where
  "hex_char n = (if n < 10 then 48 + n else 87 + n)"

definition u_escape :: "nat \<Rightarrow> ustr" where
  "u_escape n = [92, 117, hex_char (n div 4096), hex_char (n div 256 mod 16), hex_char (n div 16 mod 16), hex_char (n mod 16)]"

definition escape_char :: "nat \<Rightarrow> ustr" where
  "escape_char c =
     (if c = 34 then [92, 34] else if c = 92 then [92, 92] else if c = 10 then [92, 110]
      else if c = 13 then [92, 114] else if c = 9 then [92, 116] else if c = 12 then [92, 102]
      else if c = 8 then [92, 98] else if 32 \<le> c \<and> c \<le> 126 then [c]
      else if c < 65536 then u_escape c
      else u_escape (55296 + (c - 65536) div 1024) @ u_escape (56320 + (c - 65536) mod 1024))"

definition json_string :: "ustr \<Rightarrow> ustr" where
  "json_string s = 34 # concat (map escape_char s) @ [34]"

fun dec_digits :: "nat \<Rightarrow> ustr" where
  "dec_digits n = (if n < 10 then [48 + n] else dec_digits (n div 10) @ [48 + n mod 10])"

declare dec_digits.simps [simp del]

definition json_int :: "int \<Rightarrow> ustr" where
  "json_int i = (if i < 0 then 45 # dec_digits (nat (- i)) else dec_digits (nat i))"

text \<open>\<open>frepr\<close> is \<^verbatim>\<open>float.__repr__\<close>.\<close>

fun json_dumps :: "(rat \<Rightarrow> ustr) \<Rightarrow> pyval \<Rightarrow> ustr"
  and dump_items :: "(rat \<Rightarrow> ustr) \<Rightarrow> pyval list \<Rightarrow> ustr"
  and dump_members :: "(rat \<Rightarrow> ustr) \<Rightarrow> (ustr \<times> pyval) list \<Rightarrow> ustr" where
  "json_dumps frepr PNone = ulit ''null''"
| "json_dumps frepr (PBool b) = (if b then ulit ''true'' else ulit ''false'')"
| "json_dumps frepr (PInt i) = json_int i"
| "json_dumps frepr (PFloat q) = frepr q"
| "json_dumps frepr PNonfinite = ulit ''NaN''"
| "json_dumps frepr (PStr s) = json_string s"
| "json_dumps frepr (PList xs) = 91 # dump_items frepr xs @ [93]"
| "json_dumps frepr (PDict d) = 123 # dump_members frepr d @ [125]"
| "dump_items frepr [] = []"
| "dump_items frepr (v # vs) = json_dumps frepr v @ (if vs = [] then [] else 44 # dump_items frepr vs)"
| "dump_members frepr [] = []"
| "dump_members frepr ((k, v) # d) = json_string k @ 58 # json_dumps frepr v
     @ (if d = [] then [] else 44 # dump_members frepr d)"


section \<open>The fuel of the reader is enough\<close>

lemma json_chars_length: "json_chars s = Some (x, r) \<Longrightarrow> length r < length s"
proof (induction s arbitrary: x r rule: measure_induct_rule [of length])
  case (less s)
  then obtain c t where s: "s = c # t" by (cases s) auto
  from less.prems consider "r = t" | u ys where "json_chars u = Some (ys, r)" "length u < length s"
    unfolding s by (fastforce simp: prepend_Some split: if_splits list.splits option.splits
        dest!: hex4_length joined_length)
  then show ?case using less.IH s by cases fastforce+
qed

lemma skip_length: "length (skip s) \<le> length s"
  by (rule length_dropWhile_le)

lemma literal_length: "literal w v s = Some (x, r) \<Longrightarrow> w \<noteq> [] \<Longrightarrow> length r < length s"
  by (auto simp: literal_def split: if_splits) (metis diff_less length_greater_0_conv take_Nil)

lemma number_exp_length: "length (snd (number_exp s)) \<le> length s"
proof (cases s)
  case (Cons c t)
  show ?thesis using length_dropWhile_le [of is_digit t] length_dropWhile_le [of is_digit "tl t"]
    by (auto simp: number_exp_def Let_def Cons split: list.splits)
qed (simp add: number_exp_def)

lemma number_frac_length: "length (snd (number_frac s)) \<le> length s"
proof (cases s)
  case (Cons c t)
  show ?thesis using length_dropWhile_le [of is_digit t] by (auto simp: number_frac_def Cons)
qed (simp add: number_frac_def)

lemma json_number_length:
  assumes "json_number s = Some (v, r)"
  shows "length r < length s"
proof -
  define t where "t = (if (case s of c # _ \<Rightarrow> c = 45 | [] \<Rightarrow> False) then tl s else s)"
  define ds where "ds = int_digits t"
  have ds: "ds \<noteq> []" and r: "r = snd (number_exp (snd (number_frac (drop (length ds) t))))"
    using assms unfolding json_number_def Let_def t_def [symmetric] ds_def [symmetric]
    by (auto split: if_splits prod.splits)
  have "t \<noteq> []" using ds by (auto simp: ds_def int_digits_def)
  then have "length (drop (length ds) t) < length t" using ds by simp
  moreover have "length t \<le> length s" by (auto simp: t_def)
  ultimately show ?thesis
    unfolding r using number_exp_length [of "snd (number_frac (drop (length ds) t))"]
      number_frac_length [of "drop (length ds) t"] by linarith
qed

lemma json_reader_length:
  "json_value n s = Some (v, r) \<Longrightarrow> length r < length s"
  "json_members n s = Some (ms, r) \<Longrightarrow> length r < length s"
  "json_items n s = Some (xs, r) \<Longrightarrow> length r < length s"
proof (induction n arbitrary: s v r ms xs)
  case (Suc n)
  { case 1
    then obtain c t where s: "s = c # t" by (cases s) auto
    show ?case using 1 s skip_length [of t]
      by (auto split: if_splits option.splits dest!: Suc.IH json_chars_length json_number_length literal_length
          simp: ulit_def)
  next
    case 2
    then obtain c t where s: "s = c # t" by (cases s) auto
    from 2 s obtain k r1 v r2 d r3 where a: "json_chars t = Some (k, r1)" "skip r1 \<noteq> []"
      "json_value n (skip (tl (skip r1))) = Some (v, r2)" "skip r2 = d # r3"
      and b: "r = r3 \<or> (\<exists>m. json_members n (skip r3) = Some (m, r))"
      by (auto simp: prepend_Some split: if_splits option.splits list.splits)
    have "length r3 < length s"
      using json_chars_length [OF a(1)] Suc.IH(1) [OF a(3)] skip_length [of r1] skip_length [of r2]
        skip_length [of "tl (skip r1)"] a(4) s by simp
    then show ?case using b skip_length [of r3] by (auto dest!: Suc.IH(2))
  next
    case 3
    then obtain v r1 d r2 where a: "json_value n s = Some (v, r1)" "skip r1 = d # r2"
      and b: "r = r2 \<or> (\<exists>m. json_items n (skip r2) = Some (m, r))"
      by (auto simp: prepend_Some split: if_splits option.splits list.splits)
    have "length r2 < length s" using Suc.IH(1) [OF a(1)] skip_length [of r1] a(2) by simp
    then show ?case using b skip_length [of r2] by (auto dest!: Suc.IH(3))
  }
qed auto

lemma json_fuel_Suc:
  "2 * length s + 1 \<le> n \<Longrightarrow> json_value (Suc n) s = json_value n s"
  "2 * length s + 1 \<le> n \<Longrightarrow> json_members (Suc n) s = json_members n s"
  "2 * length s + 2 \<le> n \<Longrightarrow> json_items (Suc n) s = json_items n s"
proof (induction n arbitrary: s)
  case (Suc n)
  { case 1
    show ?case
    proof (cases s)
      case (Cons c t)
      have "2 * length (skip t) + 2 \<le> n" using 1 Cons skip_length [of t] by simp
      then have "json_members (Suc n) (skip t) = json_members n (skip t)" "json_items (Suc n) (skip t) = json_items n (skip t)"
        by (simp_all add: Suc.IH del: json_members.simps json_items.simps)
      then show ?thesis by (simp add: Cons del: json_members.simps json_items.simps)
    qed simp
  next
    case 2
    show ?case
    proof (cases s)
      case (Cons c t)
      have v: "json_value (Suc n) (skip (tl (skip r))) = json_value n (skip (tl (skip r)))"
        if "json_chars t = Some (k, r)" for k r
        using 2 Cons json_chars_length [OF that] skip_length [of r] skip_length [of "tl (skip r)"]
        by (intro Suc.IH(1)) simp
      have m: "json_members (Suc n) (skip r3) = json_members n (skip r3)"
        if "json_chars t = Some (k, r)" "json_value n (skip (tl (skip r))) = Some (v, r2)" "skip r2 = d # r3" for k r v r2 d r3
        using 2 Cons json_chars_length [OF that(1)] json_reader_length(1) [OF that(2)] skip_length [of r]
          skip_length [of "tl (skip r)"] skip_length [of r2] skip_length [of r3] that(3)
        by (intro Suc.IH(2)) simp
      show ?thesis
        unfolding Cons json_members.simps(2) [of "Suc n" "c # t"] json_members.simps(2) [of n "c # t"]
        using v m
        by (auto simp del: json_value.simps json_members.simps dropWhile_eq_Nil_conv split: option.split list.split)
    qed simp
  next
    case 3
    have v: "json_value (Suc n) s = json_value n s" using 3 by (intro Suc.IH(1)) simp
    have m: "json_items (Suc n) (skip r2) = json_items n (skip r2)"
      if "json_value n s = Some (x, r1)" "skip r1 = d # r2" for x r1 d r2
      using 3 json_reader_length(1) [OF that(1)] skip_length [of r1] skip_length [of r2] that(2)
      by (intro Suc.IH(3)) simp
    show ?case unfolding json_items.simps(2) [of "Suc n" s] json_items.simps(2) [of n s] v
      using m by (auto simp del: json_value.simps json_items.simps dropWhile_eq_Nil_conv split: option.split list.split)
  }
qed auto

lemma json_value_fuel:
  "2 * length s + 1 \<le> n \<Longrightarrow> json_value n s = json_value (2 * length s + 1) s"
  by (induction n rule: dec_induct) (simp_all only: json_fuel_Suc)


section \<open>What is written can be read back\<close>

abbreviation scalar_text :: "ustr \<Rightarrow> bool" where
  "scalar_text s \<equiv> list_all (\<lambda>c. c < 1114112 \<and> \<not> surrogate c) s"

lemma hex_value_char [simp]: "n < 16 \<Longrightarrow> hex_value (hex_char n) = Some n"
  by (auto simp: hex_value_def hex_char_def)

lemma hex4_escape:
  assumes "n < 65536"
  shows "hex4 (hex_char (n div 4096) # hex_char (n div 256 mod 16) # hex_char (n div 16 mod 16) # hex_char (n mod 16) # s) = Some (n, s)"
proof -
  have "n div 4096 < 16" using assms by auto
  moreover have "n div 16 div 16 = n div 256" "n div 256 div 16 = n div 4096" by (simp_all flip: div_mult2_eq)
  then have "n div 4096 * 4096 + n div 256 mod 16 * 256 + n div 16 mod 16 * 16 + n mod 16 = n"
    using div_mult_mod_eq [of n 16] div_mult_mod_eq [of "n div 16" 16] div_mult_mod_eq [of "n div 256" 16]
    by linarith
  ultimately show ?thesis by simp
qed

lemma json_chars_u:
  assumes "n < 65536" "joined n s = None"
  shows "json_chars (u_escape n @ s) = prepend n (json_chars s)"
  using assms by (simp add: u_escape_def hex4_escape del: hex4.simps)

lemma joined_pair:
  assumes "n < 1024" "m < 1024"
  shows "joined (55296 + n) (u_escape (56320 + m) @ s) = Some (65536 + n * 1024 + m, s)"
proof -
  have "hex4 (drop 2 (u_escape (56320 + m)) @ s) = Some (56320 + m, s)"
    using hex4_escape [of "56320 + m" s] assms by (simp add: u_escape_def del: hex4.simps)
  then show ?thesis using assms by (simp add: joined_def u_escape_def del: hex4.simps)
qed

lemma json_chars_escape:
  assumes "c < 1114112" "\<not> surrogate c"
  shows "json_chars (escape_char c @ s) = prepend c (json_chars s)"
proof -
  consider (pair) "65536 \<le> c" | (short) "c < 65536" "escape_char c \<noteq> u_escape c" | (u) "c < 65536" "escape_char c = u_escape c"
    by fastforce
  then show ?thesis
  proof cases
    case pair
    define n where "n = (c - 65536) div 1024"
    define m where "m = (c - 65536) mod 1024"
    have nm: "n < 1024" "m < 1024" "65536 + n * 1024 + m = c" using pair assms by (auto simp: n_def m_def)
    have "escape_char c = u_escape (55296 + n) @ u_escape (56320 + m)"
      using pair by (simp add: escape_char_def n_def m_def)
    moreover have "json_chars (u_escape (55296 + n) @ u_escape (56320 + m) @ s) = prepend c (json_chars s)"
      using joined_pair [OF nm(1,2), of s] nm
      by (simp add: u_escape_def [of "55296 + n"] hex4_escape del: hex4.simps)
    ultimately show ?thesis by simp
  next
    case short
    then show ?thesis by (auto simp: escape_char_def unescape_def)
  next
    case u
    have "joined c s = None" using assms(2) by (auto simp: joined_def surrogate_def split: list.split)
    then show ?thesis using json_chars_u u by simp
  qed
qed

lemma json_chars_string:
  "scalar_text s \<Longrightarrow> json_chars (concat (map escape_char s) @ 34 # r) = Some (s, r)"
  by (induction s) (simp_all add: json_chars_escape prepend_def)

lemma dec_digits_all: "list_all is_digit (dec_digits n) \<and> dec_digits n \<noteq> []"
proof (induction n rule: dec_digits.induct)
  case (1 n)
  then show ?case by (subst (1 2) dec_digits.simps) (auto simp: is_digit_def [of "48 + _"])
qed

lemma dec_value_snoc: "dec_value (ds @ [d]) = 10 * dec_value ds + (d - 48)"
  by (simp add: dec_value_def)

lemma dec_value_digits: "dec_value (dec_digits n) = n"
proof (induction n rule: dec_digits.induct)
  case (1 n)
  show ?case
  proof (cases "n < 10")
    case False
    then show ?thesis using 1 by (subst dec_digits.simps) (simp add: dec_value_snoc)
  qed (subst dec_digits.simps, simp add: dec_value_def)
qed

lemma dec_digits_hd: "n \<noteq> 0 \<Longrightarrow> hd (dec_digits n) \<noteq> 48"
proof (induction n rule: dec_digits.induct)
  case (1 n)
  show ?case
  proof (cases "n < 10")
    case False
    then show ?thesis using 1 dec_digits_all [of "n div 10"] by (subst dec_digits.simps) (simp add: hd_append)
  qed (use 1 in \<open>subst dec_digits.simps, simp\<close>)
qed

text \<open>What may follow a number for it to end there.\<close>

definition stops :: "ustr \<Rightarrow> bool" where
  "stops r \<longleftrightarrow> r = [] \<or> \<not> is_digit (hd r) \<and> hd r \<noteq> 46 \<and> hd r \<noteq> 101 \<and> hd r \<noteq> 69"

lemma digits_stop: "list_all is_digit ds \<Longrightarrow> stops r \<Longrightarrow> takeWhile is_digit (ds @ r) = ds"
  by (cases r) (auto simp: stops_def takeWhile_append list_all_iff)

lemma json_number_digits:
  assumes "stops r"
  shows "json_number (dec_digits n @ r) = Some (PInt (int n), r)"
    "n \<noteq> 0 \<Longrightarrow> json_number (45 # dec_digits n @ r) = Some (PInt (- int n), r)"
proof -
  let ?t = "dec_digits n @ r"
  obtain d ds where d: "dec_digits n = d # ds" "is_digit d" using dec_digits_all [of n] by (cases "dec_digits n") auto
  then have d45: "d \<noteq> 45" by (auto simp: is_digit_def)
  have ds: "int_digits ?t = dec_digits n"
  proof (cases "n = 0")
    case True
    then show ?thesis by (simp add: int_digits_def dec_digits.simps [of 0])
  next
    case False
    then show ?thesis
      using dec_digits_hd [OF False] digits_stop [OF conjunct1 [OF dec_digits_all [of n]] assms] d(1)
      by (simp add: int_digits_def)
  qed
  have fr: "number_frac r = ([], r)" "number_exp r = (None, r)"
    using assms by (auto simp: number_frac_def number_exp_def stops_def split: list.splits)
  have ne: "dec_digits n \<noteq> []" using d by simp
  show "json_number ?t = Some (PInt (int n), r)"
    unfolding json_number_def Let_def using d(1) d45 ds fr ne dec_value_digits [of n] by (simp del: takeWhile.simps)
  show "n \<noteq> 0 \<Longrightarrow> json_number (45 # ?t) = Some (PInt (- int n), r)"
    unfolding json_number_def Let_def using d ds fr ne dec_value_digits [of n] by simp
qed


text \<open>Values without floats and with text that has no lone surrogate.\<close>

fun plain :: "pyval \<Rightarrow> bool" where
  "plain (PStr s) = scalar_text s"
| "plain (PFloat q) = False"
| "plain PNonfinite = False"
| "plain (PList xs) = (\<forall>v \<in> set xs. plain v)"
| "plain (PDict d) = (distinct (map fst d) \<and> (\<forall>m \<in> set d. scalar_text (fst m) \<and> plain (snd m)))"
| "plain v = True"

lemma json_int_hd:
  obtains c t where "json_int i = c # t" "is_digit c \<or> c = 45"
proof (cases "i < 0")
  case True
  then show ?thesis using that [of 45 "dec_digits (nat (- i))"] by (simp add: json_int_def)
next
  case False
  then show ?thesis using dec_digits_all [of "nat i"] that by (cases "dec_digits (nat i)") (auto simp: json_int_def)
qed

lemma json_dumps_hd:
  assumes "plain v"
  shows "\<exists>c t. json_dumps frepr v = c # t \<and> \<not> json_space c \<and> c \<noteq> 93"
proof (cases v)
  case (PInt i)
  obtain c t where "json_int i = c # t" "is_digit c \<or> c = 45" by (rule json_int_hd)
  then show ?thesis using PInt by (auto simp: json_space_def is_digit_def)
qed (use assms in \<open>auto simp: json_string_def json_space_def ulit_def\<close>)

lemma json_value_int:
  assumes "stops r"
  shows "json_value (Suc n) (json_int i @ r) = Some (PInt i, r)"
proof -
  obtain c t where ct: "json_int i = c # t" "is_digit c \<or> c = 45" by (rule json_int_hd)
  then have "json_value (Suc n) (json_int i @ r) = json_number (json_int i @ r)"
    by (auto simp: is_digit_def)
  then show ?thesis using json_number_digits [OF assms] by (simp add: json_int_def)
qed

lemma skip_id [simp]: "\<not> json_space c \<Longrightarrow> skip (c # s) = c # s"
  by simp

lemma json_read_back:
  "\<lbrakk>plain v; stops r; 2 * length (json_dumps frepr v @ r) + 1 \<le> n\<rbrakk> \<Longrightarrow>
     json_value n (json_dumps frepr v @ r) = Some (v, r)"
  "\<lbrakk>\<forall>v \<in> set xs. plain v; xs \<noteq> []; 2 * length (dump_items frepr xs @ 93 # r) + 2 \<le> n\<rbrakk> \<Longrightarrow>
     json_items n (dump_items frepr xs @ 93 # r) = Some (xs, r)"
  "\<lbrakk>\<forall>m \<in> set d. scalar_text (fst m) \<and> plain (snd m); d \<noteq> []; 2 * length (dump_members frepr d @ 125 # r) + 1 \<le> n\<rbrakk> \<Longrightarrow>
     json_members n (dump_members frepr d @ 125 # r) = Some (d, r)"
proof (induction frepr v and frepr xs and frepr d arbitrary: n r and n r and n r
    rule: json_dumps_dump_items_dump_members.induct)
  case (1 frepr)
  then show ?case by (cases n) (auto simp: ulit_def literal_def)
next
  case (2 frepr b)
  then show ?case by (cases n) (auto simp: ulit_def literal_def)
next
  case (3 frepr i)
  then show ?case by (cases n) (auto simp: json_value_int simp del: json_value.simps(2))
next
  case (6 frepr s)
  then show ?case by (cases n) (auto simp: json_string_def json_chars_string)
next
  case (7 frepr xs)
  then obtain m where n: "n = Suc m" by (cases n) auto
  show ?case
  proof (cases xs)
    case Nil
    then show ?thesis by (simp add: n json_space_def)
  next
    case (Cons v vs)
    then obtain c t where c: "dump_items frepr xs = c # t" "\<not> json_space c" "c \<noteq> 93"
      using json_dumps_hd [of v frepr] 7(2) by fastforce
    have "json_items m (dump_items frepr xs @ 93 # r) = Some (xs, r)"
      using 7 Cons n by (intro "7.IH") auto
    then show ?thesis using c by (simp add: n)
  qed
next
  case (8 frepr d)
  then obtain m where n: "n = Suc m" by (cases n) auto
  show ?case
  proof (cases d)
    case Nil
    then show ?thesis by (simp add: n json_space_def)
  next
    case (Cons kv vs)
    then obtain t where c: "dump_members frepr d = 34 # t"
      by (cases kv) (auto simp: json_string_def)
    have "json_members m (dump_members frepr d @ 125 # r) = Some (d, r)"
      using 8 Cons n by (intro "8.IH") auto
    then show ?thesis using c 8(2) by (simp add: n json_space_def)
  qed
next
  case (10 frepr v vs)
  then obtain m where n: "n = Suc m" by (cases n) auto
  show ?case
  proof (cases vs)
    case Nil
    have "json_value m (json_dumps frepr v @ 93 # r) = Some (v, 93 # r)"
      using 10(3-5) n Nil by (intro 10(1)) (auto simp: stops_def is_digit_def)
    then show ?thesis by (simp add: n Nil json_space_def)
  next
    case (Cons w ws)
    let ?r = "44 # dump_items frepr vs @ 93 # r"
    have 1: "json_value m (json_dumps frepr v @ ?r) = Some (v, ?r)"
      using 10(3-5) n Cons by (intro 10(1)) (auto simp: stops_def is_digit_def)
    have 2: "json_items m (dump_items frepr vs @ 93 # r) = Some (vs, r)"
      using 10(3-5) n Cons by (intro 10(2)) auto
    obtain c t where "dump_items frepr vs = c # t" "\<not> json_space c"
      using json_dumps_hd [of w frepr] 10(3) Cons by fastforce
    then show ?thesis using 1 2 Cons by (simp add: n json_space_def prepend_def)
  qed
next
  case (12 frepr k v d)
  then obtain m where n: "n = Suc m" by (cases n) auto
  obtain c t where hd: "json_dumps frepr v = c # t" "\<not> json_space c" using json_dumps_hd [of v frepr] 12(3) by auto
  show ?case
  proof (cases d)
    case Nil
    have "json_value m (json_dumps frepr v @ 125 # r) = Some (v, 125 # r)"
      using 12(3-5) n Nil by (intro 12(1)) (auto simp: stops_def is_digit_def json_string_def)
    then show ?thesis using hd 12(3) by (simp add: n Nil json_string_def json_chars_string json_space_def)
  next
    case (Cons kv ds)
    let ?r = "44 # dump_members frepr d @ 125 # r"
    have 1: "json_value m (json_dumps frepr v @ ?r) = Some (v, ?r)"
      using 12(3-5) n Cons by (intro 12(1)) (auto simp: stops_def is_digit_def json_string_def)
    have 2: "json_members m (dump_members frepr d @ 125 # r) = Some (d, r)"
      using 12(3-5) n Cons by (intro 12(2)) auto
    obtain t' where "dump_members frepr d = 34 # t'" using Cons by (cases kv) (auto simp: json_string_def)
    then show ?thesis using 1 2 hd 12(3) Cons
      by (simp add: n json_string_def json_chars_string json_space_def prepend_def)
  qed
qed auto

lemma json_roundtrip:
  assumes "plain v"
  shows "json_loads (json_dumps frepr v) = Some v"
proof -
  obtain c t where c: "json_dumps frepr v = c # t" "\<not> json_space c" using json_dumps_hd [OF assms] by blast
  have bom: "c \<noteq> 65279"
  proof (cases v)
    case (PInt i)
    obtain d u where "json_int i = d # u" "is_digit d \<or> d = 45" by (rule json_int_hd)
    then show ?thesis using PInt c by (auto simp: is_digit_def)
  qed (use assms c in \<open>auto simp: json_string_def ulit_def split: if_splits\<close>)
  have "json_value (2 * length (json_dumps frepr v) + 1) (json_dumps frepr v) = Some (v, [])"
    using json_read_back(1) [OF assms, of "[]" frepr] by (simp add: stops_def del: json_value.simps)
  then show ?thesis using c bom by (simp add: json_loads_def del: json_value.simps)
qed

lemma escape_ascii: "c < 1114112 \<Longrightarrow> list_all (\<lambda>b. b < 128) (escape_char c)"
proof -
  have h: "hex_char (n mod 16) < 128" for n
  proof -
    have "n mod 16 < 16" by simp
    then show ?thesis unfolding hex_char_def by auto
  qed
  have h2: "n < 65536 \<Longrightarrow> hex_char (n div 4096) < 128" for n
  proof -
    assume "n < 65536"
    then have "n div 4096 < 16" by auto
    then show ?thesis unfolding hex_char_def by auto
  qed
  have u: "n < 65536 \<Longrightarrow> list_all (\<lambda>b. b < 128) (u_escape n)" for n
    using h h2 by (simp add: u_escape_def)
  assume "c < 1114112"
  then have "55296 + (c - 65536) div 1024 < 65536" "56320 + (c - 65536) mod 1024 < 65536" by auto
  then show ?thesis using u by (auto simp: escape_char_def)
qed

lemma json_string_ascii: "scalar_text s \<Longrightarrow> list_all (\<lambda>b. b < 128) (json_string s)"
  by (induction s) (auto simp: json_string_def escape_ascii)

lemma json_int_ascii: "list_all (\<lambda>b. b < 128) (json_int i)"
proof -
  have "list_all (\<lambda>b. b < 128) (dec_digits n)" for n
    using dec_digits_all [of n] by (auto simp: list_all_iff is_digit_def)
  then show ?thesis by (simp add: json_int_def)
qed

lemma json_dumps_ascii:
  "plain v \<Longrightarrow> list_all (\<lambda>b. b < 128) (json_dumps frepr v)"
  "\<forall>v \<in> set xs. plain v \<Longrightarrow> list_all (\<lambda>b. b < 128) (dump_items frepr xs)"
  "\<forall>m \<in> set d. scalar_text (fst m) \<and> plain (snd m) \<Longrightarrow> list_all (\<lambda>b. b < 128) (dump_members frepr d)"
  by (induction frepr v and frepr xs and frepr d rule: json_dumps_dump_items_dump_members.induct)
    (auto simp: ulit_def json_string_ascii json_int_ascii)


section \<open>JSON text with \<^verbatim>\<open>ensure_ascii=False\<close>\<close>

definition plain_escape :: "nat \<Rightarrow> ustr" where
  "plain_escape c =
     (if c = 34 then [92, 34] else if c = 92 then [92, 92] else if c = 10 then [92, 110]
      else if c = 13 then [92, 114] else if c = 9 then [92, 116] else if c = 12 then [92, 102]
      else if c = 8 then [92, 98] else if c < 32 then u_escape c else [c])"

definition plain_string :: "ustr \<Rightarrow> ustr" where
  "plain_string s = 34 # concat (map plain_escape s) @ [34]"

fun compact_json :: "(rat \<Rightarrow> ustr) \<Rightarrow> pyval \<Rightarrow> ustr"
  and compact_items :: "(rat \<Rightarrow> ustr) \<Rightarrow> pyval list \<Rightarrow> ustr"
  and compact_members :: "(rat \<Rightarrow> ustr) \<Rightarrow> (ustr \<times> pyval) list \<Rightarrow> ustr" where
  "compact_json frepr PNone = ulit ''null''"
| "compact_json frepr (PBool b) = (if b then ulit ''true'' else ulit ''false'')"
| "compact_json frepr (PInt i) = json_int i"
| "compact_json frepr (PFloat q) = frepr q"
| "compact_json frepr PNonfinite = ulit ''NaN''"
| "compact_json frepr (PStr s) = plain_string s"
| "compact_json frepr (PList xs) = 91 # compact_items frepr xs @ [93]"
| "compact_json frepr (PDict d) = 123 # compact_members frepr d @ [125]"
| "compact_items frepr [] = []"
| "compact_items frepr (v # vs) = compact_json frepr v @ (if vs = [] then [] else 44 # compact_items frepr vs)"
| "compact_members frepr [] = []"
| "compact_members frepr ((k, v) # d) = plain_string k @ 58 # compact_json frepr v
     @ (if d = [] then [] else 44 # compact_members frepr d)"

text \<open>The number of bytes of the compact text; \<open>None\<close> for text that UTF-8 cannot encode.\<close>

definition compact_size :: "(rat \<Rightarrow> ustr) \<Rightarrow> pyval \<Rightarrow> int option" where
  "compact_size frepr v = map_option int (utf8_len (compact_json frepr v))"


end
