(* ===== verification/Relay_Protocol.thy ===== *)
theory Relay_Protocol
  imports Codecs
begin

text \<open>
  \<^verbatim>\<open>computer_relay_protocol.py\<close>: the wire contract between the relay, a computer and a phone. Frames
  are length-prefixed JSON objects of a few fixed shapes; a computer proves its certificate by
  signing a challenge. The certificate parser, the signature scheme and SHA-256 belong to packages
  and are parameters: \<open>load_cert\<close> (the certificate's own encoding and its P-256 key, if any),
  \<open>check\<close> and \<open>sha256\<close>.
\<close>

section \<open>Names, ports and tokens\<close>

datatype relay_error = Invalid_hostname | Invalid_port | Invalid_token | Invalid_certificate | Invalid_purpose
  | Invalid_signature | Invalid_proof | Identity_proof_failed | Invalid_limits | Invalid_frame
  | Invalid_frame_limit | Frame_limit | Connection_closed | Invalid_read_size | Invalid_budget
  | Budget_unavailable | Budget_clock_or_config | Budget_exhausted | Host_limit | Invalid_attach
  | Invalid_sni | Host_offline | Stream_limit | Stale_owner | Invalid_control | Invalid_preface | Drain_failed

definition label_char :: "nat \<Rightarrow> bool" where
  "label_char c \<longleftrightarrow> (97 \<le> c \<and> c \<le> 122) \<or> (48 \<le> c \<and> c \<le> 57) \<or> c = 45"

definition dns_label :: "ustr \<Rightarrow> bool" where
  "dns_label p \<longleftrightarrow> 1 \<le> length p \<and> length p \<le> 63 \<and> list_all label_char p \<and> hd p \<noteq> 45 \<and> last p \<noteq> 45"

text \<open>An IPv4 address; an IPv6 address has a colon, which no label allows.\<close>

definition ipv4_address :: "ustr \<Rightarrow> bool" where
  "ipv4_address s \<longleftrightarrow> (let ps = split_on 46 s in length ps = 4 \<and> list_all (\<lambda>p. 1 \<le> length p \<and> length p \<le> 3
     \<and> list_all is_digit p \<and> (hd p \<noteq> 48 \<or> length p = 1) \<and> dec_value p \<le> 255) ps)"

definition ascii_upper :: "nat \<Rightarrow> bool" where
  "ascii_upper c \<longleftrightarrow> 65 \<le> c \<and> c \<le> 90"

definition dns_name :: "ustr \<Rightarrow> relay_error + ustr" where
  "dns_name value =
     (if \<not> (3 \<le> length value \<and> length value \<le> 200) then Inl Invalid_hostname
      else if list_ex ascii_upper value \<or> 46 \<notin> set value then Inl Invalid_hostname
      else if \<not> list_all dns_label (split_on 46 value) then Inl Invalid_hostname
      else if ipv4_address value then Inl Invalid_hostname
      else Inr value)"

definition port_number :: "int \<Rightarrow> bool \<Rightarrow> relay_error + int" where
  "port_number value ephemeral =
     (if \<not> ((if ephemeral then 0 else 1) \<le> value \<and> value \<le> 65535) then Inl Invalid_port else Inr value)"

definition token :: "bytes \<Rightarrow> relay_error + ustr" where
  "token value = (if length value \<noteq> 32 then Inl Invalid_token else Inr (strip_pad (b64_encode True value)))"

definition untoken :: "ustr \<Rightarrow> relay_error + bytes" where
  "untoken value =
     (if length value \<noteq> 43 \<or> \<not> list_all id_char value then Inl Invalid_token
      else (case b64_decode True (value @ [61]) of
        None \<Rightarrow> Inl Invalid_token
      | Some result \<Rightarrow> if token result \<noteq> Inr value then Inl Invalid_token else Inr result))"

section \<open>Certificates, challenges and signatures\<close>

definition certificate_key :: "(bytes \<Rightarrow> (bytes \<times> 'key option) option) \<Rightarrow> bytes \<Rightarrow> relay_error + 'key" where
  "certificate_key load_cert der =
     (if \<not> (128 \<le> length der \<and> length der \<le> 4096) then Inl Invalid_certificate
      else (case load_cert der of
        Some (again, Some key) \<Rightarrow> if again \<noteq> der then Inl Invalid_certificate else Inr key
      | _ \<Rightarrow> Inl Invalid_certificate))"

text \<open>\<^verbatim>\<open>base64.b32encode(...).lower()\<close>, with its padding.\<close>

definition b32_char :: "nat \<Rightarrow> nat" where
  "b32_char n = (if n < 26 then 97 + n else 24 + n)"

fun b32_encode :: "bytes \<Rightarrow> ustr" where
  "b32_encode (a # b # c # d # e # s) =
     [b32_char (a div 8), b32_char (a mod 8 * 4 + b div 64), b32_char (b div 2 mod 32), b32_char (b mod 2 * 16 + c div 16),
      b32_char (c mod 16 * 2 + d div 128), b32_char (d div 4 mod 32), b32_char (d mod 4 * 8 + e div 32), b32_char (e mod 32)]
     @ b32_encode s"
| "b32_encode [a, b, c, d] =
     [b32_char (a div 8), b32_char (a mod 8 * 4 + b div 64), b32_char (b div 2 mod 32), b32_char (b mod 2 * 16 + c div 16),
      b32_char (c mod 16 * 2 + d div 128), b32_char (d div 4 mod 32), b32_char (d mod 4 * 8), 61]"
| "b32_encode [a, b, c] =
     [b32_char (a div 8), b32_char (a mod 8 * 4 + b div 64), b32_char (b div 2 mod 32), b32_char (b mod 2 * 16 + c div 16),
      b32_char (c mod 16 * 2), 61, 61, 61]"
| "b32_encode [a, b] =
     [b32_char (a div 8), b32_char (a mod 8 * 4 + b div 64), b32_char (b div 2 mod 32), b32_char (b mod 2 * 16), 61, 61, 61, 61]"
| "b32_encode [a] = [b32_char (a div 8), b32_char (a mod 8 * 4), 61, 61, 61, 61, 61, 61]"
| "b32_encode [] = []"

definition namespace :: "(bytes \<Rightarrow> (bytes \<times> 'key option) option) \<Rightarrow> (bytes \<Rightarrow> bytes) \<Rightarrow> bytes \<Rightarrow> relay_error + ustr" where
  "namespace load_cert sha256 der = (case certificate_key load_cert der of
     Inl e \<Rightarrow> Inl e | Inr _ \<Rightarrow> Inr (strip_pad (b32_encode (sha256 der))))"

datatype purpose = Register | Attach

definition purpose_text :: "purpose \<Rightarrow> bytes" where
  "purpose_text p = (case p of Register \<Rightarrow> ulit ''register'' | Attach \<Rightarrow> ulit ''attach'')"

definition challenge :: "purpose \<Rightarrow> ustr \<Rightarrow> bytes \<Rightarrow> bytes option \<Rightarrow> relay_error + bytes" where
  "challenge p host nonce pending = (case dns_name host of Inl e \<Rightarrow> Inl e | Inr _ \<Rightarrow>
     (case token nonce of Inl e \<Rightarrow> Inl e | Inr _ \<Rightarrow>
       let message = (\<lambda>suffix. ulit ''clarify-computer-relay'' @ [0] @ ulit ''v1'' @ [0] @ purpose_text p @ [0]
         @ host @ [0] @ nonce @ suffix) in
       (case (p, pending) of
          (Register, None) \<Rightarrow> Inr (message [])
        | (Attach, Some q) \<Rightarrow> (case token q of Inl e \<Rightarrow> Inl e | Inr _ \<Rightarrow> Inr (message q))
        | _ \<Rightarrow> Inl Invalid_purpose)))"

definition signature_text :: "bytes \<Rightarrow> relay_error + ustr" where
  "signature_text s = (if \<not> (8 \<le> length s \<and> length s \<le> 72) then Inl Invalid_signature
     else Inr (strip_pad (b64_encode True s)))"

definition signature_bytes :: "ustr \<Rightarrow> relay_error + bytes" where
  "signature_bytes value =
     (if \<not> (11 \<le> length value \<and> length value \<le> 96) \<or> \<not> list_all id_char value then Inl Invalid_signature
      else (case b64_decode True (repad value) of
        None \<Rightarrow> Inl Invalid_signature
      | Some raw \<Rightarrow> if signature_text raw \<noteq> Inr value then Inl Invalid_signature else Inr raw))"

definition verify :: "('key \<Rightarrow> bytes \<Rightarrow> bytes \<Rightarrow> bool) \<Rightarrow> 'key \<Rightarrow> ustr \<Rightarrow> bytes \<Rightarrow> relay_error + unit" where
  "verify check key signature message = (case signature_bytes signature of
     Inl _ \<Rightarrow> Inl Invalid_proof
   | Inr raw \<Rightarrow> if check key raw message then Inr () else Inl Invalid_proof)"

text \<open>\<^verbatim>\<open>RelayIdentity.proof\<close>; the signer is the callback, \<open>None\<close> when it raises.\<close>

definition proof_of ::
  "(bytes \<Rightarrow> (bytes \<times> 'key option) option) \<Rightarrow> ('key \<Rightarrow> bytes \<Rightarrow> bytes \<Rightarrow> bool) \<Rightarrow> bytes \<Rightarrow> (bytes \<Rightarrow> bytes option)
     \<Rightarrow> purpose \<Rightarrow> ustr \<Rightarrow> bytes \<Rightarrow> bytes option \<Rightarrow> relay_error + ustr" where
  "proof_of load_cert check der sign p host nonce pending = (case challenge p host nonce pending of
     Inl e \<Rightarrow> Inl e
   | Inr message \<Rightarrow> (case sign message of
       None \<Rightarrow> Inl Identity_proof_failed
     | Some raw \<Rightarrow> (case (signature_text raw, certificate_key load_cert der) of
         (Inr text, Inr key) \<Rightarrow> (case verify check key text message of
            Inr _ \<Rightarrow> Inr text | Inl _ \<Rightarrow> Inl Identity_proof_failed)
       | _ \<Rightarrow> Inl Identity_proof_failed)))"

section \<open>Limits\<close>

record limits =
  max_hosts :: nat
  max_connections :: nat
  max_handshakes :: nat
  max_pending :: nat
  max_tunnels :: nat
  streams_per_host :: nat
  connections_per_ip :: nat
  admissions_per_ip_minute :: nat
  admissions_per_minute :: nat
  ip_entries :: nat
  frame_bytes :: nat
  preface_bytes :: nat
  buffer_bytes :: nat
  lease_bytes :: nat
  handshake_timeout :: rat
  setup_timeout :: rat
  idle_timeout :: rat
  heartbeat_interval :: rat
  tunnel_idle_timeout :: rat

definition default_limits :: limits where
  "default_limits = \<lparr>max_hosts = 64, max_connections = 256, max_handshakes = 32, max_pending = 64, max_tunnels = 128,
     streams_per_host = 4, connections_per_ip = 32, admissions_per_ip_minute = 60, admissions_per_minute = 600,
     ip_entries = 1024, frame_bytes = 8192, preface_bytes = 65536, buffer_bytes = 16384, lease_bytes = 65536,
     handshake_timeout = 5, setup_timeout = 10, idle_timeout = 60, heartbeat_interval = 15, tunnel_idle_timeout = 120\<rparr>"

text \<open>The float literal \<^verbatim>\<open>0.05\<close> is the fraction below.\<close>

definition timeout_ok :: "rat \<Rightarrow> bool" where
  "timeout_ok t \<longleftrightarrow> 3602879701896397 / 72057594037927936 \<le> t \<and> t \<le> 3600"

definition count_ok :: "nat \<Rightarrow> bool" where
  "count_ok n \<longleftrightarrow> 1 \<le> n \<and> n \<le> 1000000"

definition checked_limits :: "limits \<Rightarrow> relay_error + limits" where
  "checked_limits l =
     (if \<not> (list_all timeout_ok [handshake_timeout l, setup_timeout l, idle_timeout l, heartbeat_interval l, tunnel_idle_timeout l]
            \<and> list_all count_ok [max_hosts l, max_connections l, max_handshakes l, max_pending l, max_tunnels l,
                streams_per_host l, connections_per_ip l, admissions_per_ip_minute l, admissions_per_minute l,
                ip_entries l, frame_bytes l, preface_bytes l, buffer_bytes l, lease_bytes l]) then Inl Invalid_limits
      else if \<not> (1024 \<le> frame_bytes l \<and> frame_bytes l \<le> 8192) \<or> \<not> (1024 \<le> buffer_bytes l \<and> buffer_bytes l \<le> 65536)
        then Inl Invalid_limits
      else if \<not> (1024 \<le> preface_bytes l \<and> preface_bytes l \<le> 65536) \<or> heartbeat_interval l \<ge> idle_timeout l
        then Inl Invalid_limits
      else Inr l)"

section \<open>Frames\<close>

type_synonym message = "(ustr \<times> pyval) list"

definition shapes :: "(ustr \<times> ustr list) list" where
  "shapes = [(ulit ''challenge'', [ulit ''nonce'']), (ulit ''register'', [ulit ''certificate'', ulit ''signature'']),
     (ulit ''registered'', [ulit ''namespace'']), (ulit ''open'', [ulit ''pending'']),
     (ulit ''attach'', [ulit ''pending'', ulit ''signature'']), (ulit ''attached'', []), (ulit ''ping'', []),
     (ulit ''pong'', [])]"

definition namespace_char :: "nat \<Rightarrow> bool" where
  "namespace_char c \<longleftrightarrow> (97 \<le> c \<and> c \<le> 122) \<or> (50 \<le> c \<and> c \<le> 55)"

definition namespace_text :: "ustr \<Rightarrow> bool" where
  "namespace_text s \<longleftrightarrow> length s = 52 \<and> list_all namespace_char (butlast s) \<and> (last s = 97 \<or> last s = 113)"

definition certificate_text :: "ustr \<Rightarrow> bool" where
  "certificate_text s \<longleftrightarrow> 172 \<le> length s \<and> length s \<le> 5464 \<and> (case b64_decode False s of
     None \<Rightarrow> False | Some raw \<Rightarrow> 128 \<le> length raw \<and> length raw \<le> 4096 \<and> b64_encode False raw = s)"

definition text_member :: "message \<Rightarrow> string \<Rightarrow> (ustr \<Rightarrow> bool) \<Rightarrow> bool" where
  "text_member m key ok = (case map_of m (ulit key) of Some (PStr s) \<Rightarrow> ok s | Some _ \<Rightarrow> False | None \<Rightarrow> True)"

text \<open>The checks of a decoded object.\<close>

definition frame_ok :: "message \<Rightarrow> bool" where
  "frame_ok m \<longleftrightarrow> map_of m (ulit ''v'') = Some (PInt 1)
     \<and> (case map_of m (ulit ''kind'') of Some (PStr kind) \<Rightarrow> (case map_of shapes kind of
          Some keys \<Rightarrow> same_set (dict_keys m) (keys @ [ulit ''v'', ulit ''kind'']) | None \<Rightarrow> False)
        | _ \<Rightarrow> False)
     \<and> list_all (\<lambda>(key, value). key = ulit ''v'' \<or> (case value of PStr _ \<Rightarrow> True | _ \<Rightarrow> False)) m
     \<and> text_member m ''nonce'' (\<lambda>s. \<not> isl (untoken s)) \<and> text_member m ''pending'' (\<lambda>s. \<not> isl (untoken s))
     \<and> text_member m ''signature'' (\<lambda>s. \<not> isl (signature_bytes s))
     \<and> text_member m ''namespace'' namespace_text \<and> text_member m ''certificate'' certificate_text"

definition decode_frame :: "bytes \<Rightarrow> relay_error + message" where
  "decode_frame data =
     (if \<not> (1 \<le> length data \<and> length data \<le> 8192) then Inl Invalid_frame
      else (case utf8_decode data of None \<Rightarrow> Inl Invalid_frame | Some text \<Rightarrow>
        (case json_loads text of
           Some (PDict m) \<Rightarrow> if frame_ok m then Inr m else Inl Invalid_frame
         | _ \<Rightarrow> Inl Invalid_frame)))"

text \<open>\<^verbatim>\<open>struct.pack("!I", n)\<close> and its inverse.\<close>

definition pack_length :: "nat \<Rightarrow> bytes" where
  "pack_length n = [n div 16777216 mod 256, n div 65536 mod 256, n div 256 mod 256, n mod 256]"

definition unpack_length :: "bytes \<Rightarrow> nat" where
  "unpack_length b = foldl (\<lambda>n x. 256 * n + x) 0 b"

definition encode_frame :: "(rat \<Rightarrow> ustr) \<Rightarrow> message \<Rightarrow> nat \<Rightarrow> relay_error + bytes" where
  "encode_frame frepr m maximum =
     (if \<not> (1 \<le> maximum \<and> maximum \<le> 8192) then Inl Invalid_frame_limit
      else let raw = json_dumps frepr (PDict m) in
        (case decode_frame raw of
           Inl _ \<Rightarrow> Inl Invalid_frame
         | Inr _ \<Rightarrow> if \<not> (1 \<le> length raw \<and> length raw \<le> maximum) then Inl Frame_limit
             else Inr (pack_length (length raw) @ raw)))"

section \<open>Streams\<close>

text \<open>
  A reader is the list of pieces in which its bytes arrive; an empty list is the end of the stream.
\<close>

fun reader_read :: "nat \<Rightarrow> bytes list \<Rightarrow> bytes \<times> bytes list" where
  "reader_read n [] = ([], [])"
| "reader_read n (p # ps) = (take n p, if drop n p = [] then ps else drop n p # ps)"

definition stream_read :: "nat \<Rightarrow> nat \<Rightarrow> bytes list \<Rightarrow> relay_error + bytes \<times> bytes list" where
  "stream_read buffer want ps = (if want = 0 then Inl Invalid_read_size else Inr (reader_read (min want buffer) ps))"

function read_loop :: "nat \<Rightarrow> nat \<Rightarrow> bytes \<Rightarrow> bytes list \<Rightarrow> relay_error + bytes \<times> bytes list" where
  "read_loop buffer want data ps =
     (if want \<le> length data then Inr (data, ps)
      else (case stream_read buffer (want - length data) ps of
        Inl e \<Rightarrow> Inl e
      | Inr (part, ps') \<Rightarrow> if part = [] then Inl Connection_closed else read_loop buffer want (data @ part) ps'))"
  by pat_completeness auto
termination
  by (relation "measure (\<lambda>(buffer, want, data, ps). want - length data)") (auto intro!: diff_less_mono2)

declare read_loop.simps [simp del]

definition read_exact :: "nat \<Rightarrow> nat \<Rightarrow> bytes list \<Rightarrow> relay_error + bytes \<times> bytes list" where
  "read_exact buffer want ps =
     (if \<not> (1 \<le> want \<and> want \<le> 8192) then Inl Invalid_frame_limit else read_loop buffer want [] ps)"

definition read_frame :: "nat \<Rightarrow> nat \<Rightarrow> bytes list \<Rightarrow> relay_error + message \<times> bytes list" where
  "read_frame buffer maximum ps =
     (if \<not> (1 \<le> maximum \<and> maximum \<le> 8192) then Inl Invalid_frame_limit
      else (case read_exact buffer 4 ps of Inl e \<Rightarrow> Inl e | Inr (header, ps1) \<Rightarrow>
        let want = unpack_length header in
        if \<not> (1 \<le> want \<and> want \<le> maximum) then Inl Frame_limit
        else (case read_exact buffer want ps1 of Inl e \<Rightarrow> Inl e | Inr (data, ps2) \<Rightarrow>
          (case decode_frame data of Inl e \<Rightarrow> Inl e | Inr m \<Rightarrow> Inr (m, ps2)))))"

text \<open>The pieces in which \<^verbatim>\<open>Stream.write\<close> hands its data on.\<close>

function write_parts :: "nat \<Rightarrow> bytes \<Rightarrow> bytes list" where
  "write_parts buffer data =
     (if data = [] \<or> buffer = 0 then [] else take buffer data # write_parts buffer (drop buffer data))"
  by pat_completeness auto
termination
  by (relation "measure (\<lambda>(buffer, data). length data)") auto

declare write_parts.simps [simp del]

section \<open>Tokens and signatures\<close>

lemma repad_43: "length s = 43 \<Longrightarrow> repad s = s @ [61]"
  by (simp add: repad_def)

lemma id_chars_encode: "is_bytes b \<Longrightarrow> list_all id_char (strip_pad (b64_encode True b))"
  using strip_pad_encode_chars [of b True] by (simp add: b64_value_id_char del: not_None_eq)

lemma untoken_iff: "untoken s = Inr b \<longleftrightarrow> is_bytes b \<and> token b = Inr s"
proof
  assume "untoken s = Inr b"
  then show "is_bytes b \<and> token b = Inr s"
    by (auto simp: untoken_def split: if_splits option.splits dest: b64_decode_bytes)
next
  assume a: "is_bytes b \<and> token b = Inr s"
  then have s: "s = strip_pad (b64_encode True b)" "length b = 32" by (auto simp: token_def split: if_splits)
  then have "length s = 43" "repad s = b64_encode True b" using strip_pad_encode [of b True] a by auto
  then have "b64_decode True (s @ [61]) = Some b" using b64_roundtrip [of b True] a by (simp flip: repad_43)
  then show "untoken s = Inr b"
    using a s(1) \<open>length s = 43\<close> id_chars_encode [of b] by (simp add: untoken_def)
qed

lemma signature_bytes_iff: "signature_bytes s = Inr b \<longleftrightarrow> is_bytes b \<and> signature_text b = Inr s"
proof
  assume "signature_bytes s = Inr b"
  then show "is_bytes b \<and> signature_text b = Inr s"
    by (auto simp: signature_bytes_def split: if_splits option.splits dest: b64_decode_bytes)
next
  assume a: "is_bytes b \<and> signature_text b = Inr s"
  then have s: "s = strip_pad (b64_encode True b)" "8 \<le> length b" "length b \<le> 72"
    by (auto simp: signature_text_def split: if_splits)
  then have "length s = (4 * length b + 2) div 3" "repad s = b64_encode True b" using strip_pad_encode [of b True] a by auto
  then have "11 \<le> length s" "length s \<le> 96" "b64_decode True (repad s) = Some b" using b64_roundtrip [of b True] a s by auto
  then show "signature_bytes s = Inr b"
    using a s(1) id_chars_encode [of b] by (simp add: signature_bytes_def)
qed

section \<open>Challenges\<close>

lemma split_on_chars: "c \<in> set s \<Longrightarrow> c = d \<or> (\<exists>p \<in> set (split_on d s). c \<in> set p)"
proof (induction s)
  case (Cons x s)
  have "split_on d s \<noteq> []" by (cases s) auto
  then obtain p ps where p: "split_on d s = p # ps" by (cases "split_on d s") auto
  then show ?case using Cons by auto
qed simp

lemma dns_name_chars:
  assumes "dns_name h = Inr h'"
  shows "h' = h" "c \<in> set h \<Longrightarrow> label_char c \<or> c = 46"
  using assms split_on_chars [of c h 46]
  by (auto simp: dns_name_def dns_label_def list_all_iff split: if_splits)

lemma zero_terminated:
  assumes "s @ 0 # r = s' @ 0 # r'" "0 \<notin> set s" "0 \<notin> set (s' :: nat list)"
  shows "s = s' \<and> r = r'"
  using assms
proof (induction s arbitrary: s')
  case Nil
  then show ?case by (cases s') auto
next
  case (Cons c s)
  then show ?case by (cases s') auto
qed

lemma challenge_cases:
  assumes "challenge p h n q = Inr m"
  shows "0 \<notin> set h" "length n = 32" "q \<noteq> None \<longleftrightarrow> p = Attach"
    "m = ulit ''clarify-computer-relay'' @ 0 # ulit ''v1'' @ 0 # purpose_text p @ 0 # h @ 0 # n @ (case q of Some x \<Rightarrow> x | None \<Rightarrow> [])"
proof -
  from assms obtain h' where h: "dns_name h = Inr h'" by (cases "dns_name h") (auto simp: challenge_def)
  from dns_name_chars(2) [OF this, of 0] show "0 \<notin> set h" by (auto simp: label_char_def)
  from assms h show "length n = 32" "q \<noteq> None \<longleftrightarrow> p = Attach"
    "m = ulit ''clarify-computer-relay'' @ 0 # ulit ''v1'' @ 0 # purpose_text p @ 0 # h @ 0 # n @ (case q of Some x \<Rightarrow> x | None \<Rightarrow> [])"
    by (auto simp: challenge_def token_def split: purpose.splits option.splits if_splits)
qed

section \<open>Reading from a stream\<close>

lemma reader_read_spec:
  assumes "reader_read n ps = (part, ps')" "[] \<notin> set ps"
  shows "concat ps = part @ concat ps'" "[] \<notin> set ps'" "length part \<le> n" "0 < n \<Longrightarrow> ps \<noteq> [] \<Longrightarrow> part \<noteq> []"
  using assms by (cases ps; auto split: if_splits)+

lemma read_loop_spec:
  assumes "0 < buffer" "[] \<notin> set ps" "length data \<le> want"
  shows "if want \<le> length (data @ concat ps)
     then \<exists>ps'. read_loop buffer want data ps = Inr (take want (data @ concat ps), ps') \<and> [] \<notin> set ps'
            \<and> concat ps' = drop (want - length data) (concat ps)
     else read_loop buffer want data ps = Inl Connection_closed"
  using assms
proof (induction buffer want data ps rule: read_loop.induct)
  case (1 buffer want data ps)
  show ?case
  proof (cases "want \<le> length data")
    case True
    then have "want = length data" using "1.prems" by simp
    then show ?thesis using "1.prems"(2) by (auto simp: read_loop.simps)
  next
    case False
    obtain part ps' where r: "reader_read (min (want - length data) buffer) ps = (part, ps')" by fastforce
    note spec = reader_read_spec [OF r "1.prems"(2)]
    have st: "stream_read buffer (want - length data) ps = Inr (part, ps')" using False r by (simp add: stream_read_def)
    show ?thesis
    proof (cases "ps = []")
      case True
      then show ?thesis using False r by (simp add: read_loop.simps stream_read_def)
    next
      case ne: False
      have part: "part \<noteq> []" using spec(4) ne False "1.prems"(1) by simp
      have eq: "read_loop buffer want data ps = read_loop buffer want (data @ part) ps'"
        by (subst read_loop.simps) (simp add: False st part)
      have "drop (want - length data) (concat ps) = drop (want - length (data @ part)) (concat ps')"
        using spec(1,3) by simp
      moreover have "(data @ part) @ concat ps' = data @ concat ps" using spec(1) by simp
      moreover have "length (data @ part) \<le> want" using spec(3) False by auto
      note "1.IH" [OF False st refl part "1.prems"(1) spec(2) this]
      ultimately show ?thesis unfolding eq by (simp only: split: if_splits)
    qed
  qed
qed

lemma read_exact_spec:
  assumes "0 < buffer" "[] \<notin> set ps" "1 \<le> want" "want \<le> 8192" "concat ps = front @ rest" "length front = want"
  obtains ps' where "read_exact buffer want ps = Inr (front, ps')" "[] \<notin> set ps'" "concat ps' = rest"
  using read_loop_spec [OF assms(1,2), of "[]" want] assms(3-6) that by (auto simp: read_exact_def)

lemma unpack_pack: "n \<le> 8192 \<Longrightarrow> unpack_length (pack_length n) = n"
  by (simp add: unpack_length_def pack_length_def)

lemma encode_frame_read:
  assumes "encode_frame frepr m maximum = Inr out" "0 < buffer" "[] \<notin> set ps" "concat ps = out @ rest" "plain (PDict m)"
  shows "\<exists>ps'. read_frame buffer maximum ps = Inr (m, ps') \<and> [] \<notin> set ps' \<and> concat ps' = rest"
proof -
  let ?raw = "json_dumps frepr (PDict m)"
  have mx: "1 \<le> maximum" "maximum \<le> 8192" and len: "1 \<le> length ?raw" "length ?raw \<le> maximum"
    and out: "out = pack_length (length ?raw) @ ?raw" and ok: "\<exists>m'. decode_frame ?raw = Inr m'"
    using assms(1) by (auto simp: encode_frame_def Let_def split: if_splits sum.splits simp del: json_dumps.simps)
  have len8: "length ?raw \<le> 8192" using mx len by linarith
  obtain ps1 where 1: "read_exact buffer 4 ps = Inr (pack_length (length ?raw), ps1)" "[] \<notin> set ps1" "concat ps1 = ?raw @ rest"
    using read_exact_spec [OF assms(2,3), of 4 "pack_length (length ?raw)" "?raw @ rest"] assms(4) out
    by (auto simp: pack_length_def simp del: json_dumps.simps)
  obtain ps2 where 2: "read_exact buffer (length ?raw) ps1 = Inr (?raw, ps2)" "[] \<notin> set ps2" "concat ps2 = rest"
    using read_exact_spec [OF assms(2) 1(2) len(1) len8 1(3)] by blast
  have "decode_frame ?raw = Inr m"
  proof -
    have "utf8_decode ?raw = Some ?raw" by (rule utf8_decode_ascii [OF json_dumps_ascii(1) [OF assms(5)]])
    then show ?thesis using ok json_roundtrip [OF assms(5), of frepr]
      by (auto simp: decode_frame_def split: if_splits simp del: json_dumps.simps)
  qed
  then show ?thesis using 1 2 mx len unpack_pack [OF len8] by (simp add: read_frame_def Let_def del: json_dumps.simps)
qed


lemma encode_frame_ok:
  assumes "plain (PDict m)" "frame_ok m" "length (json_dumps frepr (PDict m)) \<le> maximum" "maximum \<le> 8192"
  shows "encode_frame frepr m maximum = Inr (pack_length (length (json_dumps frepr (PDict m))) @ json_dumps frepr (PDict m))"
proof -
  let ?raw = "json_dumps frepr (PDict m)"
  have raw: "1 \<le> length ?raw" by simp
  have "utf8_decode ?raw = Some ?raw" by (rule utf8_decode_ascii [OF json_dumps_ascii(1) [OF assms(1)]])
  then have "decode_frame ?raw = Inr m"
    using json_roundtrip [OF assms(1), of frepr] assms(2-4) raw by (simp add: decode_frame_def del: json_dumps.simps)
  then show ?thesis using assms(3,4) raw by (simp add: encode_frame_def Let_def del: json_dumps.simps)
qed

lemma json_string_id: "list_all id_char s \<Longrightarrow> json_string s = 34 # s @ [34]"
proof (induction s)
  case (Cons c s)
  then have "escape_char c = [c]" by (auto simp: escape_char_def id_char_def ascii_alnum_def)
  then show ?case using Cons by (simp add: json_string_def)
qed (simp add: json_string_def)

lemma id_char_scalar: "list_all id_char s \<Longrightarrow> scalar_text s"
  by (auto simp: list_all_iff id_char_def ascii_alnum_def surrogate_def)

lemma token_text:
  assumes "token b = Inr t" "is_bytes b"
  shows "list_all id_char t" "length t = 43" "\<not> isl (untoken t)"
proof -
  have u: "untoken t = Inr b" using untoken_iff assms by blast
  then show "list_all id_char t" "length t = 43" by (auto simp: untoken_def split: if_splits)
  show "\<not> isl (untoken t)" using u by simp
qed

section \<open>Namespaces\<close>

lemma b32_char_ok: "n < 32 \<Longrightarrow> namespace_char (b32_char n)"
  by (auto simp: b32_char_def namespace_char_def)

lemma b32_groups:
  assumes "length s = 5 * k" "is_bytes s"
  shows "\<exists>g. b32_encode (s @ t) = g @ b32_encode t \<and> length g = 8 * k \<and> list_all namespace_char g"
  using assms
proof (induction k arbitrary: s)
  case (Suc k)
  then have "Suc (Suc (Suc (Suc (Suc (5 * k))))) = length s" by simp
  then obtain a b c d e s' where s: "s = a # b # c # d # e # s'" "length s' = 5 * k"
    by (auto simp: length_Suc_conv dest!: sym [of "Suc _"])
  from Suc.IH [OF s(2)] Suc.prems(2) s(1) obtain g where g: "b32_encode (s' @ t) = g @ b32_encode t"
    "length g = 8 * k" "list_all namespace_char g" by auto
  have "a < 256" "b < 256" "c < 256" "d < 256" "e < 256" using Suc.prems(2) s(1) by auto
  then have "a div 8 < 32" "b div 64 < 4" "c div 16 < 16" "d div 128 < 2" "e div 32 < 8"
    by (simp_all add: less_mult_imp_div_less)
  moreover have "a mod 8 < 8" "b mod 2 < 2" "c mod 16 < 16" "d mod 4 < 4" by simp_all
  ultimately have "a div 8 < 32" "a mod 8 * 4 + b div 64 < 32" "b mod 2 * 16 + c div 16 < 32"
    "c mod 16 * 2 + d div 128 < 32" "d mod 4 * 8 + e div 32 < 32" by linarith+
  note b = this
  define h where "h = [b32_char (a div 8), b32_char (a mod 8 * 4 + b div 64), b32_char (b div 2 mod 32),
    b32_char (b mod 2 * 16 + c div 16), b32_char (c mod 16 * 2 + d div 128), b32_char (d div 4 mod 32),
    b32_char (d mod 4 * 8 + e div 32), b32_char (e mod 32)]"
  have "list_all namespace_char h" unfolding h_def list.pred_inject using b by (intro conjI b32_char_ok) simp_all
  moreover have "b32_encode (s @ t) = (h @ g) @ b32_encode t" unfolding s(1) h_def using g(1) by simp
  moreover have "length (h @ g) = 8 * Suc k" using g(2) by (simp add: h_def)
  ultimately show ?case using g(3) by (metis list_all_append)
qed simp

lemma b32_namespace:
  assumes "length b = 32" "is_bytes b"
  shows "namespace_text (strip_pad (b32_encode b))"
proof -
  have "length (drop 30 b) = Suc (Suc 0)" using assms(1) by simp
  then obtain x y where xy: "drop 30 b = [x, y]" by (auto simp: length_Suc_conv simp del: length_drop)
  have xyb: "x < 256" "y < 256" using assms(2) xy by (metis in_set_dropD list.set_intros list_all_iff)+
  obtain g where g: "b32_encode (take 30 b @ drop 30 b) = g @ b32_encode (drop 30 b)" "length g = 48"
    "list_all namespace_char g"
    using b32_groups [of "take 30 b" 6 "drop 30 b"] assms by (auto simp: list_all_iff dest: in_set_takeD)
  define u where "u = [b32_char (x div 8), b32_char (x mod 8 * 4 + y div 64), b32_char (y div 2 mod 32), b32_char (y mod 2 * 16)]"
  have "x div 8 < 32" "x mod 8 * 4 + y div 64 < 32" "y div 2 mod 32 < 32" using xyb by auto
  then have u: "list_all namespace_char (butlast u)" by (simp add: u_def b32_char_ok)
  have l: "last u = 97 \<or> last u = 113" by (cases "y mod 2 = 0") (auto simp: u_def b32_char_def)
  then have "strip_pad (g @ u @ [61, 61, 61, 61]) = g @ u"
    using strip_pad_simps(2) [of "last u" "g @ butlast u"]
    by (auto simp: strip_pad_def u_def)
  moreover have "b32_encode b = g @ u @ [61, 61, 61, 61]" using g(1) [unfolded append_take_drop_id] xy by (simp add: u_def)
  ultimately have "strip_pad (b32_encode b) = g @ u" by simp
  then show ?thesis using g u l by (simp add: namespace_text_def butlast_append) (simp add: u_def)
qed

lemma namespace_text_chars: "namespace_text s \<Longrightarrow> list_all id_char s \<and> list_all namespace_char s"
proof -
  assume a: "namespace_text s"
  then have "s \<noteq> []" by (auto simp: namespace_text_def)
  then have "s = butlast s @ [last s]" by simp
  then have "set s = insert (last s) (set (butlast s))" by (metis Un_insert_right list.simps(15) set_append sup_bot_right list.set(1))
  then show ?thesis using a
    by (auto simp: namespace_text_def list_all_iff namespace_char_def id_char_def ascii_alnum_def)
qed


section \<open>Properties\<close>

text \<open>
  C18. Tokens and signatures have exactly one spelling: a text is accepted exactly when it is the
  text of the 32 bytes (8 to 72 bytes for a signature) it decodes to, so neither padding nor spare
  bits give a second text for the same bytes.
\<close>

theorem token_roundtrip:
  "(untoken s = Inr b \<longleftrightarrow> is_bytes b \<and> token b = Inr s)
   \<and> (signature_bytes s = Inr b \<longleftrightarrow> is_bytes b \<and> signature_text b = Inr s)"
  using untoken_iff signature_bytes_iff by blast

text \<open>
  C19. Challenges are unambiguous: two challenges with the same bytes have the same purpose, host,
  nonce and pending id. A signed registration can never be replayed as an attachment, for another
  relay or for another pending tunnel.
\<close>

theorem challenge_unambiguous:
  assumes "challenge p h n q = Inr m" "challenge p' h' n' q' = Inr m"
  shows "p = p' \<and> h = h' \<and> n = n' \<and> q = q'"
proof -
  note a = challenge_cases [OF assms(1)] and b = challenge_cases [OF assms(2)]
  have z: "0 \<notin> set (purpose_text r)" for r by (cases r) (auto simp: purpose_text_def ulit_def)
  have "purpose_text p @ 0 # h @ 0 # n @ (case q of Some x \<Rightarrow> x | None \<Rightarrow> [])
      = purpose_text p' @ 0 # h' @ 0 # n' @ (case q' of Some x \<Rightarrow> x | None \<Rightarrow> [])"
    using a(4) b(4) by simp
  from zero_terminated [OF this z z]
  have pt: "purpose_text p = purpose_text p'"
    and rest: "h @ 0 # n @ (case q of Some x \<Rightarrow> x | None \<Rightarrow> []) = h' @ 0 # n' @ (case q' of Some x \<Rightarrow> x | None \<Rightarrow> [])" by auto
  have p: "p = p'" using pt by (cases p; cases p') (auto simp: purpose_text_def ulit_def)
  from zero_terminated [OF rest a(1) b(1)] have h: "h = h'"
    and nq: "n @ (case q of Some x \<Rightarrow> x | None \<Rightarrow> []) = n' @ (case q' of Some x \<Rightarrow> x | None \<Rightarrow> [])" by auto
  have n: "n = n'" and "(case q of Some x \<Rightarrow> x | None \<Rightarrow> []) = (case q' of Some x \<Rightarrow> x | None \<Rightarrow> [])"
    using nq a(2) b(2) by auto
  then have "q = q'" using a(3) b(3) p by (cases q; cases q') auto
  with p h n show ?thesis by simp
qed

theorem challenge_unambiguous_witness:
  "(\<exists>m. challenge Register (ulit ''a.bc'') (replicate 32 7) None = Inr m) \<and> (Register = Register \<and> ulit ''a.bc'' = ulit ''a.bc''
     \<and> replicate 32 (7 :: nat) = replicate 32 7 \<and> (None :: bytes option) = None)"
proof -
  have "\<exists>m. challenge Register (ulit ''a.bc'') (replicate 32 7) None = Inr m"
    by (simp add: challenge_def dns_name_def token_def ulit_def dns_label_def label_char_def ascii_upper_def ipv4_address_def)
  then obtain m where m: "challenge Register (ulit ''a.bc'') (replicate 32 7) None = Inr m" ..
  from challenge_unambiguous [OF m m] m show ?thesis by blast
qed

text \<open>
  C20. Frames survive the wire. A message that was encoded is read back exactly, in whatever pieces
  its bytes arrive and whatever follows them, and the reader leaves the following bytes untouched.
\<close>

theorem frame_roundtrip:
  assumes "encode_frame frepr m maximum = Inr out" "plain (PDict m)"
    and "0 < buffer" "[] \<notin> set pieces" "concat pieces = out @ rest"
  shows "\<exists>pieces'. read_frame buffer maximum pieces = Inr (m, pieces') \<and> concat pieces' = rest"
  using encode_frame_read [OF assms(1,3,4,5,2)] by blast

definition ping_message :: message where
  "ping_message = [(ulit ''v'', PInt 1), (ulit ''kind'', PStr (ulit ''ping''))]"

lemma ping_encodes:
  "encode_frame frepr ping_message 8192 = Inr ([0, 0, 0, 21] @ ulit ''{\"v\":1,\"kind\":\"ping\"}'')"
proof -
  have "frame_ok ping_message"
    by (simp add: ping_message_def frame_ok_def shapes_def ulit_def same_set_def dict_keys_def text_member_def)
  moreover have p: "plain (PDict ping_message)" by (simp add: ping_message_def ulit_def surrogate_def)
  moreover have d: "json_dumps frepr (PDict ping_message) = ulit ''{\"v\":1,\"kind\":\"ping\"}''"
    by (simp add: ping_message_def ulit_def json_string_def escape_char_def json_int_def dec_digits.simps)
  ultimately show ?thesis
    using encode_frame_ok [of ping_message frepr 8192] by (simp only: d) (simp add: ulit_def pack_length_def)
qed

theorem frame_roundtrip_witness:
  "\<exists>pieces'. read_frame 16 8192 [[0, 0], [0, 21] @ ulit ''{\"v\":1,\"ki'', ulit ''nd\":\"ping\"}'' @ [5], [6]]
     = Inr (ping_message, pieces') \<and> concat pieces' = [5, 6]"
  by (rule frame_roundtrip [OF ping_encodes])
    (simp_all add: ulit_def ping_message_def surrogate_def)


end
