(* ===== verification/Relay_Budget.thy ===== *)
theory Relay_Budget
  imports Relay_Protocol "HOL-Library.AList"
begin

text \<open>
  The monthly egress budget of the relay (\<^verbatim>\<open>EgressBudget\<close> in \<^verbatim>\<open>computer_relay_server.py\<close>) and the
  writes that draw on it (\<^verbatim>\<open>Stream.write\<close> in \<^verbatim>\<open>computer_relay_protocol.py\<close>). A process takes a lease
  from the database ahead of its writes and never gives any of it back; several processes, and
  processes that crash and start again, share one database. Months are numbered, in the order of
  their \<^verbatim>\<open>YYYY-MM\<close> texts.
\<close>

section \<open>State\<close>

record budget_db =
  db_month :: int
  db_cap :: int
  db_months :: "(int \<times> int) list"

record budget =
  bg_cap :: int
  bg_lease :: int
  bg_remaining :: int
  bg_month :: "int option"

definition create_db :: "int \<Rightarrow> int \<Rightarrow> budget_db" where
  "create_db current cap = \<lparr>db_month = current, db_cap = cap, db_months = []\<rparr>"

text \<open>Opening an existing database.\<close>

definition open_budget :: "int \<Rightarrow> int \<Rightarrow> budget_db \<Rightarrow> relay_error + budget" where
  "open_budget cap lease db =
     (if \<not> (1 \<le> cap \<and> cap \<le> 2 ^ 63 - 1) \<or> \<not> (1 \<le> lease \<and> lease \<le> 1000000) then Inl Invalid_budget
      else if db_cap db \<noteq> cap then Inl Invalid_budget
      else Inr \<lparr>bg_cap = cap, bg_lease = lease, bg_remaining = 0, bg_month = None\<rparr>)"

definition reserved :: "budget_db \<Rightarrow> int \<Rightarrow> int" where
  "reserved db m = (case map_of (db_months db) m of Some n \<Rightarrow> n | None \<Rightarrow> 0)"

text \<open>A lease ends with its month; a new one takes at least what is needed, within the cap.\<close>

definition renewed :: "int \<Rightarrow> budget \<Rightarrow> budget" where
  "renewed current b = (if bg_month b \<noteq> Some current then b\<lparr>bg_remaining := 0\<rparr> else b)"

definition grant :: "int \<Rightarrow> int \<Rightarrow> budget \<Rightarrow> budget_db \<Rightarrow> int" where
  "grant current needed b db = min (bg_cap b - reserved db current) (max needed (bg_lease b))"

definition record_grant :: "int \<Rightarrow> int \<Rightarrow> budget_db \<Rightarrow> budget_db" where
  "record_grant current g db =
     db\<lparr>db_month := current, db_months := AList.update current (reserved db current + g) (db_months db)\<rparr>"

text \<open>
  \<^verbatim>\<open>consume\<close>: the error, if any, with the object and the database after it. \<open>fails\<close> says that SQLite
  raised, after which the transaction is rolled back.
\<close>

definition consume :: "bool \<Rightarrow> int \<Rightarrow> int \<Rightarrow> budget \<times> budget_db \<Rightarrow> relay_error option \<times> budget \<times> budget_db" where
  "consume fails current amount = (\<lambda>(b0, db).
     if \<not> (0 \<le> amount \<and> amount \<le> 1000000) then (Some Budget_unavailable, b0, db)
     else
       let b = renewed current b0 in
       if amount \<le> bg_remaining b then (None, b\<lparr>bg_remaining := bg_remaining b - amount\<rparr>, db)
       else if fails then (Some Budget_unavailable, b, db)
       else if current < db_month db \<or> db_cap db \<noteq> bg_cap b then (Some Budget_clock_or_config, b, db)
       else if \<not> (0 \<le> reserved db current \<and> reserved db current \<le> bg_cap b) then (Some Budget_unavailable, b, db)
       else
         let needed = amount - bg_remaining b; g = grant current needed b db in
         if g < needed then (Some Budget_exhausted, b, db)
         else (None, b\<lparr>bg_month := Some current, bg_remaining := bg_remaining b + (g - amount)\<rparr>, record_grant current g db))"

text \<open>
  \<^verbatim>\<open>Stream.write\<close>: each piece is paid for before it is handed to the transport. The clock and the
  failures of SQLite are given per piece; the result has the bytes handed on with their months.
\<close>

fun write_paid :: "(bool \<times> int) list \<Rightarrow> bytes list \<Rightarrow> budget \<times> budget_db
     \<Rightarrow> relay_error option \<times> (int \<times> int) list \<times> budget \<times> budget_db" where
  "write_paid env [] s = (None, [], s)"
| "write_paid [] (p # ps) s = (Some Budget_unavailable, [], s)"
| "write_paid ((fails, current) # env) (p # ps) s = (case consume fails current (int (length p)) s of
     (Some e, s') \<Rightarrow> (Some e, [], s')
   | (None, s') \<Rightarrow> (case write_paid env ps s' of (e, sent, s'') \<Rightarrow> (e, (current, int (length p)) # sent, s'')))"

section \<open>Several processes on one database\<close>

record fleet =
  fl_db :: budget_db
  fl_budgets :: "budget list"
  fl_sent :: "(int \<times> int) list"

datatype fleet_event =
    Open int int
  | Crash nat
  | Write nat "(bool \<times> int) list" nat bytes

inductive fleet_step :: "fleet \<Rightarrow> fleet_event \<Rightarrow> fleet \<Rightarrow> bool" where
  step_open: "open_budget cap lease (fl_db s) = Inr b \<Longrightarrow>
    fleet_step s (Open cap lease) (s\<lparr>fl_budgets := fl_budgets s @ [b]\<rparr>)"
| step_crash: "i < length (fl_budgets s) \<Longrightarrow>
    fleet_step s (Crash i) (s\<lparr>fl_budgets := take i (fl_budgets s) @ drop (Suc i) (fl_budgets s)\<rparr>)"
| step_write: "i < length (fl_budgets s) \<Longrightarrow>
    write_paid env (write_parts buffer data) (fl_budgets s ! i, fl_db s) = (e, sent, b, db) \<Longrightarrow>
    fleet_step s (Write i env buffer data) \<lparr>fl_db = db, fl_budgets = (fl_budgets s)[i := b], fl_sent = fl_sent s @ sent\<rparr>"

definition sent_in :: "int \<Rightarrow> (int \<times> int) list \<Rightarrow> int" where
  "sent_in m sent = sum_list (map (\<lambda>(k, n). if k = m then n else 0) sent)"

definition held_in :: "int \<Rightarrow> budget list \<Rightarrow> int" where
  "held_in m bs = sum_list (map (\<lambda>b. if bg_month b = Some m then bg_remaining b else 0) bs)"

definition fleet_start :: "fleet \<Rightarrow> bool" where
  "fleet_start s \<longleftrightarrow> (\<exists>current cap. 1 \<le> cap \<and> cap \<le> 2 ^ 63 - 1 \<and>
     s = \<lparr>fl_db = create_db current cap, fl_budgets = [], fl_sent = []\<rparr>)"

text \<open>What was sent and what processes still hold is covered by the reservation of the month.\<close>

definition covered :: "budget_db \<Rightarrow> int \<Rightarrow> int \<Rightarrow> bool" where
  "covered db m spent \<longleftrightarrow> spent \<le> reserved db m \<and> 0 \<le> reserved db m \<and> reserved db m \<le> db_cap db"

definition fleet_inv :: "fleet \<Rightarrow> bool" where
  "fleet_inv s \<longleftrightarrow> (\<forall>b \<in> set (fl_budgets s). 0 \<le> bg_remaining b) \<and> (\<forall>m. 0 \<le> sent_in m (fl_sent s))
     \<and> (\<forall>m. covered (fl_db s) m (sent_in m (fl_sent s) + held_in m (fl_budgets s)))"

lemma sent_in_simps [simp]:
  "sent_in m [] = 0" "sent_in m ((k, n) # sent) = (if k = m then n else 0) + sent_in m sent"
  "sent_in m (s @ t) = sent_in m s + sent_in m t"
  by (simp_all add: sent_in_def)

lemma held_in_simps [simp]:
  "held_in m [] = 0" "held_in m (b # bs) = (if bg_month b = Some m then bg_remaining b else 0) + held_in m bs"
  "held_in m (bs @ cs) = held_in m bs + held_in m cs"
  by (simp_all add: held_in_def)

lemma held_in_nth:
  "i < length bs \<Longrightarrow> held_in m bs = held_in m [bs ! i] + held_in m (take i bs @ drop (Suc i) bs)"
  by (subst id_take_nth_drop [of i bs]) (simp_all del: append_take_drop_id)

lemma held_in_update:
  assumes "i < length bs"
  shows "held_in m (bs[i := b]) = held_in m [b] + held_in m (take i bs @ drop (Suc i) bs)"
  using assms by (subst upd_conv_take_nth_drop) simp_all

lemma held_in_nonneg: "\<forall>b \<in> set bs. 0 \<le> bg_remaining b \<Longrightarrow> 0 \<le> held_in m bs"
  by (induction bs) auto

lemma record_grant_simps [simp]:
  "reserved (record_grant k g db) m = (if m = k then reserved db k + g else reserved db m)"
  "db_cap (record_grant k g db) = db_cap db"
  by (simp_all add: reserved_def record_grant_def update_conv)

lemma consume_cases:
  assumes "consume fails current amount (b, db) = (e, b', db')"
  obtains (invalid) "e \<noteq> None" "b' = b" "db' = db"
    | (lease) "e = None" "0 \<le> amount" "amount \<le> bg_remaining (renewed current b)" "db' = db"
        "b' = (renewed current b)\<lparr>bg_remaining := bg_remaining (renewed current b) - amount\<rparr>"
    | (refused) "e \<noteq> None" "b' = renewed current b" "db' = db"
    | (granted) g where "e = None" "0 \<le> amount" "\<not> amount \<le> bg_remaining (renewed current b)"
        "db_cap db = bg_cap (renewed current b)" "0 \<le> reserved db current"
        "g = grant current (amount - bg_remaining (renewed current b)) (renewed current b) db"
        "amount - bg_remaining (renewed current b) \<le> g"
        "b' = (renewed current b)\<lparr>bg_month := Some current, bg_remaining := bg_remaining (renewed current b) + (g - amount)\<rparr>"
        "db' = record_grant current g db"
proof -
  let ?b = "renewed current b" let ?g = "grant current (amount - bg_remaining (renewed current b)) (renewed current b) db"
  let ?refused = "fails \<or> (current < db_month db \<or> db_cap db \<noteq> bg_cap ?b)
    \<or> \<not> (0 \<le> reserved db current \<and> reserved db current \<le> bg_cap ?b) \<or> ?g < amount - bg_remaining ?b"
  consider (1) "\<not> (0 \<le> amount \<and> amount \<le> 1000000)"
    | (2) "0 \<le> amount \<and> amount \<le> 1000000" "amount \<le> bg_remaining ?b"
    | (3) "0 \<le> amount \<and> amount \<le> 1000000" "\<not> amount \<le> bg_remaining ?b" "?refused"
    | (4) "0 \<le> amount \<and> amount \<le> 1000000" "\<not> amount \<le> bg_remaining ?b" "\<not> ?refused" by blast
  then show thesis
  proof cases
    case 1
    then show thesis using assms by (intro invalid) (auto simp only: consume_def prod.case if_True if_False simp_thms)
  next
    case 2
    then show thesis using assms by (intro lease) (simp_all add: consume_def Let_def)
  next
    case 3
    then show thesis using assms
      by (intro refused) (auto simp: consume_def Let_def split: if_split_asm)
  next
    case 4
    then have "(None, ?b\<lparr>bg_month := Some current, bg_remaining := bg_remaining ?b + (?g - amount)\<rparr>, record_grant current ?g db) = (e, b', db')"
      using assms by (simp add: consume_def Let_def)
    then show thesis using 4 by (intro granted [of ?g]) auto
  qed
qed

lemma grant_bounds:
  "g = grant current needed b db \<Longrightarrow> needed \<le> g \<Longrightarrow> 0 < needed \<Longrightarrow> 0 < g \<and> reserved db current + g \<le> bg_cap b"
  by (auto simp: grant_def)

text \<open>One payment moves its amount from the reservation to the bytes sent.\<close>

lemma consume_covered:
  assumes c: "consume fails current amount (b, db) = (e, b', db')" and nn: "0 \<le> bg_remaining b"
    and cov: "\<forall>m. covered db m (held_in m [b] + other m)" and o: "\<forall>m. 0 \<le> other m"
  shows "0 \<le> bg_remaining b' \<and> (\<forall>m. covered db' m (held_in m [b'] + other m + (if e = None \<and> m = current then amount else 0)))
     \<and> (e = None \<longrightarrow> 0 \<le> amount)"
proof -
  have b1: "0 \<le> bg_remaining (renewed current b)" "held_in m [renewed current b] \<le> held_in m [b]" for m
    using nn by (auto simp: renewed_def)
  have cov1: "covered db m (held_in m [renewed current b] + other m)" for m
    using cov [rule_format, of m] b1(2) [of m] by (auto simp: covered_def)
  have month: "bg_month (renewed current b) = Some current \<or> bg_remaining (renewed current b) = 0"
    by (auto simp: renewed_def)
  from c show ?thesis
  proof (cases rule: consume_cases)
    case invalid
    then show ?thesis using nn cov by auto
  next
    case lease
    have "covered db' m (held_in m [b'] + other m + (if m = current then amount else 0))" for m
      using cov1 [of m] month lease(2,3) unfolding lease(4,5) covered_def by auto
    then show ?thesis using lease(1-3,5) by auto
  next
    case refused
    then show ?thesis using cov1 b1(1) by auto
  next
    case (granted g)
    have g: "0 < g" "reserved db current + g \<le> db_cap db" using grant_bounds [OF granted(6,7)] granted(3,4) by auto
    have "covered db' m (held_in m [b'] + other m + (if m = current then amount else 0))" for m
      using cov1 [of m] g month granted(4,5,7) o [rule_format, of m]
      unfolding granted(8,9) covered_def by (auto split: if_splits)
    then show ?thesis using g granted(1,2,7,8) by auto
  qed
qed

lemma write_paid_covered:
  assumes "write_paid env ps (b, db) = (e, sent, b', db')" "0 \<le> bg_remaining b"
    and "\<forall>m. covered db m (held_in m [b] + other m)" "\<forall>m. 0 \<le> other m"
  shows "0 \<le> bg_remaining b' \<and> (\<forall>m. covered db' m (held_in m [b'] + other m + sent_in m sent))"
  using assms
proof (induction env ps "(b, db)" arbitrary: b db sent other rule: write_paid.induct)
  case (3 fails current env p ps b db)
  obtain e1 b1 db1 where c: "consume fails current (int (length p)) (b, db) = (e1, b1, db1)" by (metis prod_cases3)
  note step = consume_covered [OF c "3.prems"(2-4)]
  show ?case
  proof (cases e1)
    case None
    obtain sent' where w: "write_paid env ps (b1, db1) = (e, sent', b', db')" "sent = (current, int (length p)) # sent'"
      using "3.prems"(1) c None by (auto split: prod.splits)
    let ?o = "\<lambda>m. other m + (if m = current then int (length p) else 0)"
    have "0 \<le> bg_remaining b' \<and> (\<forall>m. covered db' m (held_in m [b'] + ?o m + sent_in m sent'))"
      using step "3.prems"(4) None
      by (intro "3.hyps" [OF c [symmetric] None w(1)]) (simp_all only: add.assoc, auto)
    moreover have "held_in m [b'] + ?o m + sent_in m sent' = held_in m [b'] + other m + sent_in m sent" for m
      by (simp add: w(2))
    ultimately show ?thesis by (simp only: simp_thms)
  next
    case (Some x)
    then have "e = Some x \<and> sent = [] \<and> b' = b1 \<and> db' = db1" using "3.prems"(1) c by simp
    then show ?thesis using step Some by (simp del: held_in_simps(2))
  qed
qed (simp_all del: held_in_simps(2))

section \<open>Every reachable state\<close>

lemma write_parts_concat: "0 < buffer \<Longrightarrow> concat (write_parts buffer data) = data"
  by (induction buffer data rule: write_parts.induct) (subst write_parts.simps, auto)

lemma write_paid_sent: "write_paid env ps st = (e, sent, st') \<Longrightarrow> 0 \<le> sent_in m sent"
  by (induction env ps st arbitrary: e sent st' rule: write_paid.induct)
    (fastforce split: prod.splits option.splits)+

lemma fleet_step_inv:
  assumes "fleet_step s v s'" "fleet_inv s"
  shows "fleet_inv s'"
  using assms(1)
proof cases
  case (step_open cap lease b)
  then have "bg_remaining b = 0" by (auto simp: open_budget_def split: if_splits)
  then have "held_in m [b] = 0" for m by simp
  then show ?thesis using assms(2) \<open>bg_remaining b = 0\<close> unfolding step_open(2) fleet_inv_def
    by (auto simp del: held_in_simps(2))
next
  case (step_crash i)
  let ?bs = "take i (fl_budgets s) @ drop (Suc i) (fl_budgets s)"
  have nn: "\<forall>b \<in> set (fl_budgets s). 0 \<le> bg_remaining b" using assms(2) by (simp add: fleet_inv_def)
  then have "0 \<le> bg_remaining (fl_budgets s ! i)" using step_crash(3) by simp
  then have "held_in m ?bs \<le> held_in m (fl_budgets s)" for m using held_in_nth [OF step_crash(3), of m] by simp
  moreover have "\<forall>b \<in> set ?bs. 0 \<le> bg_remaining b" using nn by (auto dest: in_set_takeD in_set_dropD)
  ultimately show ?thesis using assms(2) unfolding step_crash(2) fleet_inv_def covered_def
    by (simp del: held_in_simps) (meson add_left_mono order_trans)
next
  case (step_write i env buffer data e sent b db)
  let ?rest = "take i (fl_budgets s) @ drop (Suc i) (fl_budgets s)"
  let ?o = "\<lambda>m. held_in m ?rest + sent_in m (fl_sent s)"
  have nn: "\<forall>b \<in> set (fl_budgets s). 0 \<le> bg_remaining b" "\<And>m. 0 \<le> sent_in m (fl_sent s)"
    using assms(2) by (simp_all add: fleet_inv_def)
  have rest: "\<forall>b \<in> set ?rest. 0 \<le> bg_remaining b" using nn(1) by (auto dest: in_set_takeD in_set_dropD)
  have w: "0 \<le> bg_remaining b \<and> (\<forall>m. covered db m (held_in m [b] + ?o m + sent_in m sent))"
  proof (rule write_paid_covered [OF step_write(4)])
    show "0 \<le> bg_remaining (fl_budgets s ! i)" using nn step_write(3) by simp
    have "held_in m [fl_budgets s ! i] + ?o m = sent_in m (fl_sent s) + held_in m (fl_budgets s)" for m
      using held_in_nth [OF step_write(3), of m] by linarith
    then show "\<forall>m. covered (fl_db s) m (held_in m [fl_budgets s ! i] + ?o m)"
      using assms(2) by (simp only: fleet_inv_def simp_thms)
    show "\<forall>m. 0 \<le> ?o m" using held_in_nonneg [OF rest] nn(2) by (simp del: held_in_simps)
  qed
  have "sent_in m (fl_sent s @ sent) + held_in m ((fl_budgets s)[i := b]) = held_in m [b] + ?o m + sent_in m sent" for m
    unfolding held_in_update [OF step_write(3)] by simp
  moreover have "0 \<le> sent_in m (fl_sent s @ sent)" for m using nn(2) write_paid_sent [OF step_write(4)] by simp
  moreover have "\<forall>x \<in> set ((fl_budgets s)[i := b]). 0 \<le> bg_remaining x" using nn(1) w set_update_subset_insert by fastforce
  ultimately show ?thesis unfolding step_write(2) fleet_inv_def using w
    by (simp del: held_in_simps sent_in_simps)
qed

interpretation egress: stateful_component fleet_start fleet_step fleet_inv
proof unfold_locales
  fix s assume "fleet_start s"
  then show "fleet_inv s" by (auto simp: fleet_start_def fleet_inv_def create_db_def covered_def reserved_def)
qed (rule fleet_step_inv)

text \<open>
  C21. The monthly egress cap. However many relay processes share the budget, crash, restart and
  interleave their writes, and whatever their clocks say, the bytes handed to the network in a month
  never exceed the configured cap.
\<close>

theorem egress_within_cap:
  assumes "fleet_start s0" "run_of fleet_step s0 vs s"
  shows "sent_in m (fl_sent s) \<le> db_cap (fl_db s)"
proof -
  have "fleet_inv s" by (rule egress.reachable_inv [OF assms])
  then have "covered (fl_db s) m (sent_in m (fl_sent s) + held_in m (fl_budgets s))" "0 \<le> held_in m (fl_budgets s)"
    using held_in_nonneg by (auto simp: fleet_inv_def)
  then show ?thesis by (auto simp: covered_def)
qed

text \<open>
  C22. No premature exhaustion. While SQLite answers and the clock has not gone back, a payment is
  refused exactly when the rest of the lease and the unreserved part of the cap do not cover it.
\<close>

theorem consume_exact:
  assumes "0 \<le> amount" "amount \<le> 1000000" "db_month db \<le> current" "db_cap db = bg_cap b"
    and "0 \<le> reserved db current" "reserved db current \<le> bg_cap b" "0 \<le> bg_remaining (renewed current b)"
  shows "fst (consume False current amount (b, db)) =
    (if amount \<le> bg_remaining (renewed current b) + (db_cap db - reserved db current) then None else Some Budget_exhausted)"
proof -
  have "bg_cap (renewed current b) = bg_cap b" by (simp add: renewed_def)
  then show ?thesis using assms by (auto simp: consume_def Let_def grant_def)
qed

definition demo_fleet :: "budget_db \<Rightarrow> budget list \<Rightarrow> (int \<times> int) list \<Rightarrow> fleet" where
  "demo_fleet db bs sent = \<lparr>fl_db = db, fl_budgets = bs, fl_sent = sent\<rparr>"

lemma demo_fleet_run:
  "\<exists>s :: fleet. run_of fleet_step (demo_fleet (create_db 24300 5) [] []) [Open 5 2, Write 0 [(False, 24300)] 8 [1, 2, 3]] s
     \<and> fl_sent s = [(24300, 3)] \<and> db_cap (fl_db s) = 5"
proof -
  let ?db = "create_db 24300 5" let ?b = "\<lparr>bg_cap = 5, bg_lease = 2, bg_remaining = 0, bg_month = None\<rparr>"
  have "open_budget 5 2 (fl_db (demo_fleet ?db [] [])) = Inr ?b" by (simp add: open_budget_def create_db_def demo_fleet_def)
  from step_open [OF this] have 1: "fleet_step (demo_fleet ?db [] []) (Open 5 2) (demo_fleet ?db [?b] [])"
    by (simp add: demo_fleet_def)
  have parts: "write_parts 8 [1, 2, 3 :: nat] = [[1, 2, 3]]" by (subst write_parts.simps, simp, subst write_parts.simps, simp)
  obtain b db where w: "write_paid [(False, 24300)] (write_parts 8 [1, 2, 3]) (fl_budgets (demo_fleet ?db [?b] []) ! 0, fl_db (demo_fleet ?db [?b] []))
      = (None, [(24300, 3)], b, db)" "db_cap db = 5"
    unfolding parts
    by (simp add: demo_fleet_def consume_def renewed_def grant_def create_db_def reserved_def Let_def record_grant_def)
  have "0 < length (fl_budgets (demo_fleet ?db [?b] []))" by (simp add: demo_fleet_def)
  from step_write [OF this w(1)] have 2: "fleet_step (demo_fleet ?db [?b] []) (Write 0 [(False, 24300)] 8 [1, 2, 3]) (demo_fleet db [b] [(24300, 3)])"
    by (simp add: demo_fleet_def)
  show ?thesis using run_cons [OF 1 run_cons [OF 2 run_nil [where step = fleet_step]]] w(2)
    by (intro exI [of _ "demo_fleet db [b] [(24300, 3)]"]) (simp add: demo_fleet_def)
qed

theorem egress_within_cap_witness: "\<exists>s :: fleet. sent_in 24300 (fl_sent s) \<le> db_cap (fl_db s) \<and> fl_sent s = [(24300, 3)]"
proof -
  obtain s where s: "run_of fleet_step (demo_fleet (create_db 24300 5) [] []) [Open 5 2, Write 0 [(False, 24300)] 8 [1, 2, 3]] s"
    "fl_sent s = [(24300, 3)]" using demo_fleet_run by blast
  have "fleet_start (demo_fleet (create_db 24300 5) [] [])"
    unfolding fleet_start_def demo_fleet_def by (intro exI [of _ 24300] exI [of _ 5]) simp
  from egress_within_cap [OF this s(1), of 24300] s(2) show ?thesis by blast
qed

theorem consume_exact_witness:
  "fst (consume False 24300 6 (\<lparr>bg_cap = 5, bg_lease = 2, bg_remaining = 0, bg_month = None\<rparr>, create_db 24300 5))
     = Some Budget_exhausted"
  using consume_exact [of 6 "create_db 24300 5" 24300 "\<lparr>bg_cap = 5, bg_lease = 2, bg_remaining = 0, bg_month = None\<rparr>"]
  by (simp add: create_db_def reserved_def renewed_def)


end
