(* ===== verification/Relay_Server.thy ===== *)
theory Relay_Server
  imports Relay_Protocol "HOL-Library.AList"
begin

text \<open>
  The connection bookkeeping of \<^verbatim>\<open>ComputerRelayServer\<close> in \<^verbatim>\<open>computer_relay_server.py\<close>: which sockets
  are admitted, which computer owns a namespace, and which phone waits for which data channel. The
  event loop runs the code between two awaits as one step; what it runs in which order, when a task
  is cancelled and when a peer disconnects is left open, so the reachable states cover all of them.
\<close>

section \<open>Admission of sockets\<close>

record conn =
  cn_id :: nat
  cn_ip :: ustr
  cn_handshaking :: bool

record gate =
  gate_conns :: "conn list"
  gate_counts :: "(ustr \<times> nat) list"
  gate_admissions :: "(ustr \<times> rat list) list"
  gate_global :: "rat list"
  gate_stopping :: bool

definition empty_gate :: gate where
  "empty_gate = \<lparr>gate_conns = [], gate_counts = [], gate_admissions = [], gate_global = [], gate_stopping = False\<rparr>"

definition recent :: "rat \<Rightarrow> rat list \<Rightarrow> rat list" where
  "recent now ts = filter (\<lambda>t. now - t < 60) ts"

definition recent_admissions :: "rat \<Rightarrow> (ustr \<times> rat list) list \<Rightarrow> (ustr \<times> rat list) list" where
  "recent_admissions now a =
     map (\<lambda>(ip, ts). (ip, recent now ts)) (filter (\<lambda>(ip, ts). ts \<noteq> [] \<and> now - last ts < 60) a)"

definition handshakes :: "gate \<Rightarrow> nat" where
  "handshakes g = length (filter cn_handshaking (gate_conns g))"

definition count_of :: "(ustr \<times> nat) list \<Rightarrow> ustr \<Rightarrow> nat" where
  "count_of cs ip = (case map_of cs ip of Some n \<Rightarrow> n | None \<Rightarrow> 0)"

definition admissions_of :: "(ustr \<times> rat list) list \<Rightarrow> ustr \<Rightarrow> rat list" where
  "admissions_of a ip = (case map_of a ip of Some ts \<Rightarrow> ts | None \<Rightarrow> [])"

definition admit_ip :: "limits \<Rightarrow> rat \<Rightarrow> ustr \<Rightarrow> gate \<Rightarrow> bool \<times> gate" where
  "admit_ip l now ip g0 =
     (let g = g0\<lparr>gate_admissions := recent_admissions now (gate_admissions g0), gate_global := recent now (gate_global g0)\<rparr>;
          values = admissions_of (gate_admissions g) ip in
      if gate_stopping g \<or> max_connections l \<le> length (gate_conns g) \<or> max_handshakes l \<le> handshakes g
         \<or> connections_per_ip l \<le> count_of (gate_counts g) ip \<or> admissions_per_ip_minute l \<le> length values
         \<or> admissions_per_minute l \<le> length (gate_global g)
         \<or> (map_of (gate_admissions g) ip = None \<and> ip_entries l \<le> length (gate_admissions g))
      then (False, g)
      else (True, g\<lparr>gate_admissions := AList.update ip (values @ [now]) (gate_admissions g),
                    gate_global := gate_global g @ [now]\<rparr>))"

text \<open>\<^verbatim>\<open>_accept\<close>: a refused socket is aborted and leaves no trace.\<close>

definition accept :: "limits \<Rightarrow> rat \<Rightarrow> ustr \<Rightarrow> nat \<Rightarrow> gate \<Rightarrow> bool \<times> gate" where
  "accept l now ip i g0 = (case admit_ip l now ip g0 of
     (False, g) \<Rightarrow> (False, g)
   | (True, g) \<Rightarrow> (True, g\<lparr>gate_conns := gate_conns g @ [\<lparr>cn_id = i, cn_ip = ip, cn_handshaking = True\<rparr>],
       gate_counts := AList.update ip (count_of (gate_counts g) ip + 1) (gate_counts g)\<rparr>))"

text \<open>\<^verbatim>\<open>_released\<close>, the completion callback; \<open>None\<close> is the KeyError of a missing counter.\<close>

definition released :: "nat \<Rightarrow> ustr \<Rightarrow> gate \<Rightarrow> gate option" where
  "released i ip g = (case map_of (gate_counts g) ip of
     None \<Rightarrow> None
   | Some n \<Rightarrow> Some (g\<lparr>gate_conns := filter (\<lambda>c. cn_id c \<noteq> i) (gate_conns g),
       gate_counts := (if n - 1 = 0 then AList.delete ip (gate_counts g) else AList.update ip (n - 1) (gate_counts g))\<rparr>))"

definition handshake_done :: "nat \<Rightarrow> gate \<Rightarrow> gate" where
  "handshake_done i g =
     g\<lparr>gate_conns := map (\<lambda>c. if cn_id c = i then c\<lparr>cn_handshaking := False\<rparr> else c) (gate_conns g)\<rparr>"

datatype gate_event = Accept rat ustr nat | Released nat | Handshaken nat | Stop

text \<open>The state with the monotonic clock and the log of all admissions.\<close>

type_synonym gate_state = "gate \<times> rat \<times> (rat \<times> ustr) list"

inductive gate_step :: "limits \<Rightarrow> gate_state \<Rightarrow> gate_event \<Rightarrow> gate_state \<Rightarrow> bool" for l where
  gate_accept: "clock \<le> now \<Longrightarrow> \<forall>c \<in> set (gate_conns g). cn_id c \<noteq> i \<Longrightarrow> accept l now ip i g = (ok, g') \<Longrightarrow>
    gate_step l (g, clock, seen) (Accept now ip i) (g', now, seen @ (if ok then [(now, ip)] else []))"
| gate_released: "c \<in> set (gate_conns g) \<Longrightarrow> released (cn_id c) (cn_ip c) g = Some g' \<Longrightarrow>
    gate_step l (g, clock, seen) (Released (cn_id c)) (g', clock, seen)"
| gate_handshaken: "gate_step l (g, clock, seen) (Handshaken i) (handshake_done i g, clock, seen)"
| gate_stop: "gate_step l (g, clock, seen) Stop (g\<lparr>gate_stopping := True\<rparr>, clock, seen)"

definition gate_start :: "gate_state \<Rightarrow> bool" where
  "gate_start s \<longleftrightarrow> (\<exists>clock. s = (empty_gate, clock, []))"

definition ip_conns :: "gate \<Rightarrow> ustr \<Rightarrow> nat" where
  "ip_conns g ip = length (filter (\<lambda>c. cn_ip c = ip) (gate_conns g))"

definition window :: "rat \<Rightarrow> rat \<Rightarrow> (rat \<times> ustr) list \<Rightarrow> (rat \<times> ustr) list" where
  "window from til seen = filter (\<lambda>(t, _). from < t \<and> t \<le> til) seen"

definition rate_ok :: "limits \<Rightarrow> (rat \<times> ustr) list \<Rightarrow> bool" where
  "rate_ok l seen \<longleftrightarrow> (\<forall>til. length (window (til - 60) til seen) \<le> admissions_per_minute l
     \<and> (\<forall>ip. length (filter (\<lambda>e. snd e = ip) (window (til - 60) til seen)) \<le> admissions_per_ip_minute l))"

text \<open>The lists of the gate hold exactly the admissions of the last minute that still matter.\<close>

definition gate_inv :: "limits \<Rightarrow> gate_state \<Rightarrow> bool" where
  "gate_inv l = (\<lambda>(g, clock, seen).
     keyed cn_id (gate_conns g) \<and> distinct (map fst (gate_counts g))
     \<and> (\<forall>ip. map_of (gate_counts g) ip = (if ip_conns g ip = 0 then None else Some (ip_conns g ip)))
     \<and> length (gate_conns g) \<le> max_connections l \<and> handshakes g \<le> max_handshakes l
     \<and> (\<forall>ip. ip_conns g ip \<le> connections_per_ip l)
     \<and> sorted (map fst seen) \<and> (\<forall>e \<in> set seen. fst e \<le> clock)
     \<and> (\<forall>now \<ge> clock. recent now (gate_global g) = map fst (filter (\<lambda>e. now - fst e < 60) seen))
     \<and> distinct (map fst (gate_admissions g)) \<and> (\<forall>ip ts. (ip, ts) \<in> set (gate_admissions g) \<longrightarrow> ts \<noteq> [] \<and> sorted ts)
     \<and> (\<forall>ip. \<forall>now \<ge> clock. recent now (admissions_of (gate_admissions g) ip)
           = map fst (filter (\<lambda>e. now - fst e < 60) (filter (\<lambda>e. snd e = ip) seen)))
     \<and> rate_ok l seen)"

lemma length_filter_mono: "(\<And>x. x \<in> set xs \<Longrightarrow> P x \<Longrightarrow> Q x) \<Longrightarrow> length (filter P xs) \<le> length (filter Q xs)"
  by (induction xs) (auto intro: le_SucI)

lemma recent_recent: "now \<le> now' \<Longrightarrow> recent now' (recent now ts) = recent now' ts"
  by (auto simp: recent_def filter_filter intro!: filter_cong)

lemma recent_append [simp]: "recent now (ts @ us) = recent now ts @ recent now us"
  by (simp add: recent_def)

lemma sorted_recent: "sorted ts \<Longrightarrow> sorted (recent now ts)"
  by (simp add: recent_def sorted_filter [of "\<lambda>x. x", simplified])

lemma recent_stale: "sorted ts \<Longrightarrow> ts \<noteq> [] \<Longrightarrow> \<not> now - last ts < 60 \<Longrightarrow> recent now ts = []"
proof -
  assume s: "sorted ts" "ts \<noteq> []" "\<not> now - last ts < 60"
  have "t \<le> last ts" if "t \<in> set ts" for t
    using s(1,2) that by (cases ts rule: rev_cases) (auto simp: sorted_append)
  then show ?thesis using s(3) by (fastforce simp: recent_def filter_empty_conv)
qed

lemma admissions_of_recent:
  assumes "distinct (map fst a)" "\<forall>ip ts. (ip, ts) \<in> set a \<longrightarrow> ts \<noteq> [] \<and> sorted ts"
  shows "admissions_of (recent_admissions now a) ip = recent now (admissions_of a ip)"
  using assms
proof (induction a)
  case (Cons x a)
  obtain k ts where x: "x = (k, ts)" by (cases x)
  have ih: "admissions_of (recent_admissions now a) ip = recent now (admissions_of a ip)" using Cons by auto
  show ?case
  proof (cases "k = ip")
    case False
    then show ?thesis using ih by (auto simp: x recent_admissions_def admissions_of_def)
  next
    case True
    then have "map_of a ip = None" using Cons.prems(1) x by (simp add: map_of_eq_None_iff)
    then have "map_of (recent_admissions now a) ip = None"
      by (force simp: recent_admissions_def map_of_eq_None_iff)
    then show ?thesis using True recent_stale [of ts now] Cons.prems(2) x
      by (auto simp: recent_admissions_def admissions_of_def)
  qed
qed (simp add: recent_admissions_def admissions_of_def recent_def)

lemma recent_admissions_props:
  assumes "distinct (map fst a)" "\<forall>ip ts. (ip, ts) \<in> set a \<longrightarrow> ts \<noteq> [] \<and> sorted ts"
  shows "distinct (map fst (recent_admissions now a))"
    "\<forall>ip ts. (ip, ts) \<in> set (recent_admissions now a) \<longrightarrow> ts \<noteq> [] \<and> sorted ts"
proof -
  have "map fst (recent_admissions now a) = map fst (filter (\<lambda>(ip, ts). ts \<noteq> [] \<and> now - last ts < 60) a)"
    by (simp add: recent_admissions_def case_prod_beta)
  then show "distinct (map fst (recent_admissions now a))" using assms(1) by (simp add: distinct_map_filter)
  show "\<forall>ip ts. (ip, ts) \<in> set (recent_admissions now a) \<longrightarrow> ts \<noteq> [] \<and> sorted ts"
  proof (intro allI impI)
    fix ip ts assume "(ip, ts) \<in> set (recent_admissions now a)"
    then obtain us where us: "(ip, us) \<in> set a" "us \<noteq> []" "now - last us < 60" "ts = recent now us"
      by (auto simp: recent_admissions_def)
    then have "last us \<in> set ts" by (simp add: recent_def)
    then show "ts \<noteq> [] \<and> sorted ts" using us(1,4) assms(2) sorted_recent by fastforce
  qed
qed

lemma rate_snoc:
  assumes "rate_ok l seen" "\<forall>e \<in> set seen. fst e \<le> now"
    and "length (filter (\<lambda>e. now - fst e < 60) seen) < admissions_per_minute l"
    and "length (filter (\<lambda>e. now - fst e < 60) (filter (\<lambda>e. snd e = ip) seen)) < admissions_per_ip_minute l"
  shows "rate_ok l (seen @ [(now, ip)])"
  unfolding rate_ok_def
proof (intro allI conjI)
  fix til
  let ?w = "window (til - 60) til seen"
  have old: "length ?w \<le> admissions_per_minute l" "length (filter (\<lambda>e. snd e = j) ?w) \<le> admissions_per_ip_minute l" for j
    using assms(1) by (simp_all add: rate_ok_def)
  have all: "length ?w \<le> length (filter (\<lambda>e. now - fst e < 60) seen)"
    and one: "length (filter (\<lambda>e. snd e = j) ?w) \<le> length (filter (\<lambda>e. now - fst e < 60) (filter (\<lambda>e. snd e = j) seen))"
    if "now \<le> til" for j
    using that unfolding window_def filter_filter by (auto intro!: length_filter_mono)
  show "length (window (til - 60) til (seen @ [(now, ip)])) \<le> admissions_per_minute l"
    using old(1) all assms(3) by (auto simp: window_def)
  show "length (filter (\<lambda>e. snd e = j) (window (til - 60) til (seen @ [(now, ip)]))) \<le> admissions_per_ip_minute l" for j
    using old(2) [of j] one [of j] assms(4) by (auto simp: window_def)
qed


lemma count_of_inv: "map_of cs ip = (if n = 0 then None else Some n) \<Longrightarrow> count_of cs ip = n"
  by (auto simp: count_of_def)

lemma accept_cases:
  assumes "accept l now ip i g = (ok, g')"
  defines "a \<equiv> recent_admissions now (gate_admissions g)"
  obtains (refused) "ok = False" "g' = g\<lparr>gate_admissions := a, gate_global := recent now (gate_global g)\<rparr>"
    | (admitted) "ok = True" "length (gate_conns g) < max_connections l" "handshakes g < max_handshakes l"
        "count_of (gate_counts g) ip < connections_per_ip l"
        "length (admissions_of a ip) < admissions_per_ip_minute l"
        "length (recent now (gate_global g)) < admissions_per_minute l"
        "g' = g\<lparr>gate_admissions := AList.update ip (admissions_of a ip @ [now]) a,
               gate_global := recent now (gate_global g) @ [now],
               gate_conns := gate_conns g @ [\<lparr>cn_id = i, cn_ip = ip, cn_handshaking = True\<rparr>],
               gate_counts := AList.update ip (count_of (gate_counts g) ip + 1) (gate_counts g)\<rparr>"
  using assms(1) unfolding a_def accept_def admit_ip_def Let_def handshakes_def
  by (auto split: if_split_asm)

lemma recent_log:
  "(\<forall>now \<ge> clock. recent now ts = map fst (filter (\<lambda>e. now - fst e < 60) es)) \<Longrightarrow> clock \<le> now \<Longrightarrow>
     (\<forall>n \<ge> now. recent n (recent now ts @ [now]) = map fst (filter (\<lambda>e. n - fst e < 60) (es @ [(now, ip)])))
     \<and> (\<forall>n \<ge> now. recent n (recent now ts) = map fst (filter (\<lambda>e. n - fst e < 60) es))"
proof -
  assume a: "\<forall>now \<ge> clock. recent now ts = map fst (filter (\<lambda>e. now - fst e < 60) es)" and now: "clock \<le> now"
  have 1: "recent n (recent now ts) = map fst (filter (\<lambda>e. n - fst e < 60) es)" if "now \<le> n" for n
    using recent_recent [OF that, of ts] a order_trans [OF now that] by simp
  have 2: "recent n [now] = map fst (filter (\<lambda>e. n - fst e < 60) [(now, ip)])" for n
    by (simp add: recent_def)
  show ?thesis using 1 2 by simp
qed

lemma gate_accept_inv:
  assumes inv: "gate_inv l (g, clock, seen)" and now: "clock \<le> now" and i: "\<forall>c \<in> set (gate_conns g). cn_id c \<noteq> i"
    and acc: "accept l now ip i g = (ok, g')"
  shows "gate_inv l (g', now, seen @ (if ok then [(now, ip)] else []))"
proof -
  define a where "a = recent_admissions now (gate_admissions g)"
  have d: "distinct (map fst (gate_admissions g))" "\<forall>ip ts. (ip, ts) \<in> set (gate_admissions g) \<longrightarrow> ts \<noteq> [] \<and> sorted ts"
    using inv by (simp_all add: gate_inv_def)
  note ap = recent_admissions_props [OF d, of now, folded a_def] and ao = admissions_of_recent [OF d, of now, folded a_def]
  have glob: "\<forall>n \<ge> clock. recent n (gate_global g) = map fst (filter (\<lambda>e. n - fst e < 60) seen)"
    and per: "\<forall>n \<ge> clock. recent n (admissions_of (gate_admissions g) j)
      = map fst (filter (\<lambda>e. n - fst e < 60) (filter (\<lambda>e. snd e = j) seen))" for j
    using inv by (simp_all add: gate_inv_def)
  note gl = recent_log [OF glob now, of ip] and pl = recent_log [OF per now, where ip = ip]
  have srt: "sorted (map fst seen)" "\<forall>e \<in> set seen. fst e \<le> clock" using inv by (simp_all add: gate_inv_def)
  from acc show ?thesis
  proof (cases rule: accept_cases)
    case refused
    note refused = refused [folded a_def]
    have "\<forall>e \<in> set seen. fst e \<le> now" using srt(2) now by force
    moreover have "ip_conns g' = ip_conns g" "handshakes g' = handshakes g"
      by (auto simp: refused ip_conns_def handshakes_def)
    ultimately show ?thesis
      using inv gl pl ap unfolding gate_inv_def by (simp add: refused(1,2) ao)
  next
    case admitted
    note admitted = admitted [folded a_def]
    have le: "\<forall>e \<in> set seen. fst e \<le> now" using srt(2) now by force
    have cnt: "count_of (gate_counts g) j = ip_conns g j" for j
      using inv by (intro count_of_inv) (simp add: gate_inv_def)
    have rate: "rate_ok l (seen @ [(now, ip)])"
    proof (rule rate_snoc [OF _ le])
      show "rate_ok l seen" using inv by (simp add: gate_inv_def)
      show "length (filter (\<lambda>e. now - fst e < 60) seen) < admissions_per_minute l"
        using admitted(6) glob now by simp
      show "length (filter (\<lambda>e. now - fst e < 60) (filter (\<lambda>e. snd e = ip) seen)) < admissions_per_ip_minute l"
        using admitted(5) per [of ip] now by (simp add: ao)
    qed
    have sorted_new: "sorted (admissions_of a ip @ [now])"
    proof -
      have r: "admissions_of a ip = map fst (filter (\<lambda>e. now - fst e < 60) (filter (\<lambda>e. snd e = ip) seen))"
        using per [of ip] now by (simp add: ao)
      have "sorted (map fst (filter P seen))" for P using srt(1) by (rule sorted_filter)
      then have "sorted (admissions_of a ip)" unfolding r filter_filter .
      then show ?thesis unfolding sorted_append r using le by auto
    qed
    have entries: "ts \<noteq> [] \<and> sorted ts" if "(j, ts) \<in> set (AList.update ip (admissions_of a ip @ [now]) a)" for j ts
    proof -
      have "map_of (AList.update ip (admissions_of a ip @ [now]) a) j = Some ts"
        using that ap(1) by (simp add: distinct_update)
      then show ?thesis using sorted_new ap(2) by (auto simp: update_conv split: if_splits dest: map_of_SomeD)
    qed
    have per': "\<forall>n \<ge> now. recent n (admissions_of (AList.update ip (admissions_of a ip @ [now]) a) j)
      = map fst (filter (\<lambda>e. n - fst e < 60) (filter (\<lambda>e. snd e = j) (seen @ [(now, ip)])))" for j
    proof (cases "j = ip")
      case True
      then have "admissions_of (AList.update ip (admissions_of a ip @ [now]) a) j = recent now (admissions_of (gate_admissions g) ip) @ [now]"
        by (simp add: admissions_of_def update_conv) (simp flip: admissions_of_def add: ao)
      then show ?thesis using pl [of ip] True by (simp add: recent_def)
    next
      case False
      then have "admissions_of (AList.update ip (admissions_of a ip @ [now]) a) j = recent now (admissions_of (gate_admissions g) j)"
        by (simp add: admissions_of_def update_conv) (simp flip: admissions_of_def add: ao)
      then show ?thesis using pl [of j] False by simp
    qed
    have conns: "ip_conns g' j = ip_conns g j + (if j = ip then 1 else 0)" for j
      by (simp add: admitted ip_conns_def)
    have hs: "handshakes g' = handshakes g + 1" by (simp add: admitted handshakes_def)
    have gc: "gate_counts g' = AList.update ip (ip_conns g ip + 1) (gate_counts g)" by (simp add: admitted(7) cnt)
    have counts: "map_of (gate_counts g') j = (if ip_conns g' j = 0 then None else Some (ip_conns g' j))" for j
      using inv by (simp add: gc conns update_conv gate_inv_def)
    have lim: "ip_conns g' j \<le> connections_per_ip l" for j
      using inv admitted(4) cnt [of ip] conns [of j] by (auto simp: gate_inv_def)
    have "handshakes g' \<le> max_handshakes l" using admitted(3) hs by simp
    moreover have fields: "gate_admissions g' = AList.update ip (admissions_of a ip @ [now]) a"
      "gate_global g' = recent now (gate_global g) @ [now]"
      "gate_conns g' = gate_conns g @ [\<lparr>cn_id = i, cn_ip = ip, cn_handshaking = True\<rparr>]"
      by (simp_all add: admitted(7))
    moreover have "keyed cn_id (gate_conns g')" "distinct (map fst (gate_counts g'))" "length (gate_conns g') \<le> max_connections l"
      "distinct (map fst (gate_admissions g'))"
      using inv i admitted(2) ap(1) by (auto simp: fields gc gate_inv_def distinct_update)
    moreover have "sorted (map fst (seen @ [(now, ip)]))" "\<forall>e \<in> set (seen @ [(now, ip)]). fst e \<le> now"
      using srt(1) le by (auto simp: sorted_append)
    ultimately show ?thesis
      unfolding gate_inv_def prod.case admitted(1) using counts lim rate per' entries gl by (simp only: if_True simp_thms) blast
  qed
qed

lemma released_inv:
  assumes inv: "gate_inv l (g, clock, seen)" and c: "c \<in> set (gate_conns g)"
  shows "\<exists>g'. released (cn_id c) (cn_ip c) g = Some g' \<and> gate_inv l (g', clock, seen)"
proof -
  let ?ip = "cn_ip c"
  have "0 < ip_conns g ?ip" using c by (auto simp: ip_conns_def filter_empty_conv)
  moreover have m: "map_of (gate_counts g) j = (if ip_conns g j = 0 then None else Some (ip_conns g j))" for j
    using inv by (simp add: gate_inv_def)
  ultimately obtain g' where g': "released (cn_id c) ?ip g = Some g'" by (auto simp: released_def)
  have keyed: "keyed cn_id (gate_conns g)" using inv by (simp add: gate_inv_def)
  have cs: "gate_conns g' = filter (\<lambda>d. cn_id d \<noteq> cn_id c) (gate_conns g)"
    and ct: "gate_counts g' = (if ip_conns g ?ip - 1 = 0 then AList.delete ?ip (gate_counts g)
        else AList.update ?ip (ip_conns g ?ip - 1) (gate_counts g))"
    and rest: "gate_admissions g' = gate_admissions g" "gate_global g' = gate_global g"
    using g' m \<open>0 < ip_conns g ?ip\<close> by (auto simp: released_def split: option.splits if_splits)
  obtain xs ys where xy: "gate_conns g = xs @ c # ys" using c by (meson split_list)
  then have "cn_id c \<notin> cn_id ` set (xs @ ys)" using keyed by auto
  then have "\<forall>d \<in> set (xs @ ys). cn_id d \<noteq> cn_id c" by (metis imageI)
  then have "filter (\<lambda>d. cn_id d \<noteq> cn_id c) xs = xs" "filter (\<lambda>d. cn_id d \<noteq> cn_id c) ys = ys"
    by (simp_all add: filter_True)
  then have f: "gate_conns g' = xs @ ys" using xy cs by simp
  have conns: "ip_conns g' j = ip_conns g j - (if j = ?ip then 1 else 0)" for j
    by (simp add: ip_conns_def f xy)
  have "map_of (gate_counts g') j = (if ip_conns g' j = 0 then None else Some (ip_conns g' j))" for j
    using m [of j] by (auto simp: ct conns update_conv delete_conv)
  moreover have "distinct (map fst (gate_counts g'))"
    using inv by (simp add: ct distinct_update distinct_delete gate_inv_def)
  moreover have "length (gate_conns g') \<le> length (gate_conns g)" "handshakes g' \<le> handshakes g"
    by (simp_all add: f xy handshakes_def)
  moreover have "keyed cn_id (gate_conns g')" using keyed by (simp add: f xy)
  moreover have "ip_conns g' j \<le> connections_per_ip l" for j
    using inv by (auto simp: conns gate_inv_def intro: le_diff_conv [THEN iffD2] trans_le_add1)
  ultimately have "gate_inv l (g', clock, seen)"
    using inv unfolding gate_inv_def by (auto simp: rest intro: order_trans)
  then show ?thesis using g' by blast
qed

lemma gate_step_inv:
  assumes "gate_step l s v s'" "gate_inv l s"
  shows "gate_inv l s'"
  using assms(1)
proof cases
  case (gate_accept clock now g i ip ok g' seen)
  then show ?thesis using gate_accept_inv assms(2) by simp
next
  case (gate_released c g g' clock seen)
  then show ?thesis using released_inv [of l g clock seen c] assms(2) by auto
next
  case (gate_handshaken g clock seen i)
  have "handshakes (handshake_done i g) \<le> handshakes g"
    unfolding handshakes_def handshake_done_def by (auto simp: filter_map split: if_splits intro!: length_filter_mono)
  moreover have "ip_conns (handshake_done i g) ip = ip_conns g ip" for ip
    unfolding ip_conns_def handshake_done_def by (simp add: filter_map o_def if_distrib cong: if_cong)
  moreover have "map cn_id (gate_conns (handshake_done i g)) = map cn_id (gate_conns g)"
    by (simp add: handshake_done_def)
  moreover have "length (gate_conns (handshake_done i g)) = length (gate_conns g)"
    "gate_counts (handshake_done i g) = gate_counts g" "gate_global (handshake_done i g) = gate_global g"
    "gate_admissions (handshake_done i g) = gate_admissions g"
    by (simp_all add: handshake_done_def)
  ultimately show ?thesis using assms(2) unfolding gate_handshaken gate_inv_def prod.case by simp
next
  case (gate_stop g clock seen)
  then show ?thesis using assms(2) by (simp add: gate_inv_def ip_conns_def handshakes_def)
qed

interpretation gate: stateful_component gate_start "gate_step l" "gate_inv l"
proof unfold_locales
  fix s assume "gate_start s"
  then show "gate_inv l s"
    by (auto simp: gate_start_def gate_inv_def empty_gate_def ip_conns_def handshakes_def recent_def admissions_of_def
        rate_ok_def window_def)
qed (rule gate_step_inv)






end
