(* ===== verification/Relay_Switchboard.thy ===== *)
theory Relay_Switchboard
  imports Relay_Protocol "HOL-Library.AList"
begin

text \<open>
  The part of \<^verbatim>\<open>ComputerRelayServer\<close> that joins phones and computers: computers register a namespace
  with a proof of their key, a phone that dials the namespace waits under a random id, and the
  computer attaches a data channel to that id with a second proof. Objects that the code shares
  between tasks (owners, waiting phones) are rows with an identity; \<open>owner_of\<close> and \<open>pd_listed\<close> are the
  dictionaries \<^verbatim>\<open>owners\<close> and \<^verbatim>\<open>pending\<close> that point to them.
\<close>

section \<open>State\<close>

record 'key owner =
  ow_id :: nat
  ow_name :: ustr
  ow_key :: 'key
  ow_conn :: nat
  ow_generation :: bytes
  ow_streams :: int
  ow_tasks :: "nat list"

datatype future = Waiting | Delivered nat | Cancelled

record pending =
  pd_id :: ustr
  pd_owner :: nat
  pd_generation :: bytes
  pd_phone :: nat
  pd_consumed :: bool
  pd_future :: future
  pd_listed :: bool

record 'key board =
  owners :: "'key owner list"
  owner_of :: "(ustr \<times> nat) list"
  pendings :: "pending list"
  tunnels :: int
  closed :: "nat list"
  cancelled :: "nat list"

definition empty_board :: "'key board" where
  "empty_board = \<lparr>owners = [], owner_of = [], pendings = [], tunnels = 0, closed = [], cancelled = []\<rparr>"

section \<open>Operations\<close>

definition text_at :: "message \<Rightarrow> string \<Rightarrow> ustr" where
  "text_at m key = (case map_of m (ulit key) of Some (PStr s) \<Rightarrow> s | _ \<Rightarrow> [])"

definition drop_owner :: "'key owner \<Rightarrow> 'key board \<Rightarrow> 'key board" where
  "drop_owner w b =
     b\<lparr>owner_of := (if map_of (owner_of b) (ow_name w) = Some (ow_id w) then AList.delete (ow_name w) (owner_of b) else owner_of b),
       closed := closed b @ [ow_conn w], cancelled := cancelled b @ ow_tasks w\<rparr>"

text \<open>\<^verbatim>\<open>_register\<close>, with the identity and the random generation of the new owner given.\<close>

definition register_host ::
  "(bytes \<Rightarrow> (bytes \<times> 'key option) option) \<Rightarrow> ('key \<Rightarrow> bytes \<Rightarrow> bytes \<Rightarrow> bool) \<Rightarrow> (bytes \<Rightarrow> bytes) \<Rightarrow> limits \<Rightarrow> ustr
     \<Rightarrow> nat \<Rightarrow> bytes \<Rightarrow> message \<Rightarrow> nat \<Rightarrow> bytes \<Rightarrow> 'key board \<Rightarrow> relay_error + 'key board" where
  "register_host load_cert check sha256 l relay_host conn nonce m i generation b =
     (case b64_decode False (text_at m ''certificate'') of
       None \<Rightarrow> Inl Invalid_certificate
     | Some der \<Rightarrow> (case certificate_key load_cert der of
         Inl e \<Rightarrow> Inl e
       | Inr key \<Rightarrow> (case challenge Register relay_host nonce None of
           Inl e \<Rightarrow> Inl e
         | Inr message \<Rightarrow> (case verify check key (text_at m ''signature'') message of
             Inl e \<Rightarrow> Inl e
           | Inr _ \<Rightarrow> (case namespace load_cert sha256 der of
               Inl e \<Rightarrow> Inl e
             | Inr name \<Rightarrow>
                 let old = Option.bind (map_of (owner_of b) name) (get_row ow_id (owners b)) in
                 if map_of (owner_of b) name = None \<and> max_hosts l \<le> length (owner_of b) then Inl Host_limit
                 else let w = \<lparr>ow_id = i, ow_name = name, ow_key = key, ow_conn = conn, ow_generation = generation,
                               ow_streams = 0, ow_tasks = []\<rparr>;
                          b1 = b\<lparr>owners := owners b @ [w], owner_of := AList.update name i (owner_of b)\<rparr>
                      in Inr (case old of None \<Rightarrow> b1 | Some x \<Rightarrow> drop_owner x b1))))))"

definition is_current :: "'key board \<Rightarrow> 'key owner \<Rightarrow> bool" where
  "is_current b w \<longleftrightarrow> map_of (owner_of b) (ow_name w) = Some (ow_id w)"

text \<open>\<^verbatim>\<open>_attach\<close>: the waiting phone it found, marked as consumed.\<close>

definition attach :: "('key \<Rightarrow> bytes \<Rightarrow> bytes \<Rightarrow> bool) \<Rightarrow> ustr \<Rightarrow> bytes \<Rightarrow> message \<Rightarrow> 'key board \<Rightarrow> relay_error + pending \<times> 'key board" where
  "attach check relay_host nonce m b = (case get_row pd_id (filter pd_listed (pendings b)) (text_at m ''pending'') of
     None \<Rightarrow> Inl Invalid_attach
   | Some p \<Rightarrow> (case get_row ow_id (owners b) (pd_owner p) of
       None \<Rightarrow> Inl Invalid_attach
     | Some w \<Rightarrow>
         if pd_consumed p \<or> pd_future p \<noteq> Waiting \<or> \<not> is_current b w \<or> pd_generation p \<noteq> ow_generation w then Inl Invalid_attach
         else (case untoken (text_at m ''pending'') of
           Inl e \<Rightarrow> Inl e
         | Inr q \<Rightarrow> (case challenge Attach relay_host nonce (Some q) of
             Inl e \<Rightarrow> Inl e
           | Inr message \<Rightarrow> (case verify check (ow_key w) (text_at m ''signature'') message of
               Inl e \<Rightarrow> Inl e
             | Inr _ \<Rightarrow> let p' = p\<lparr>pd_consumed := True\<rparr> in Inr (p', b\<lparr>pendings := put_row pd_id p' (pendings b)\<rparr>))))))"

text \<open>\<^verbatim>\<open>pending.future.set_result(channel)\<close>; \<open>None\<close> is the InvalidStateError of a finished future.\<close>

definition deliver :: "ustr \<Rightarrow> nat \<Rightarrow> 'key board \<Rightarrow> 'key board option" where
  "deliver pid conn b = (case get_row pd_id (pendings b) pid of
     None \<Rightarrow> None
   | Some p \<Rightarrow> if pd_future p \<noteq> Waiting then None
       else Some (b\<lparr>pendings := put_row pd_id (p\<lparr>pd_future := Delivered conn\<rparr>) (pendings b)\<rparr>))"

text \<open>The start of \<^verbatim>\<open>_phone\<close>, up to the frame that asks the computer to attach.\<close>

definition dialled :: "ustr \<Rightarrow> ustr \<Rightarrow> ustr option" where
  "dialled relay_host name = (let suffix = 46 # relay_host; n = length name - length suffix in
     if length suffix \<le> length name \<and> drop n name = suffix \<and> n = 52 \<and> list_all namespace_char (take n name)
     then Some (take n name) else None)"

definition open_phone :: "limits \<Rightarrow> ustr \<Rightarrow> nat \<Rightarrow> ustr \<Rightarrow> ustr \<Rightarrow> 'key board \<Rightarrow> relay_error + 'key board" where
  "open_phone l relay_host conn name pid b = (case dialled relay_host name of
     None \<Rightarrow> Inl Invalid_sni
   | Some n \<Rightarrow> (case Option.bind (map_of (owner_of b) n) (get_row ow_id (owners b)) of
       None \<Rightarrow> Inl Host_offline
     | Some w \<Rightarrow>
         if int (streams_per_host l) \<le> ow_streams w \<or> max_pending l \<le> length (filter pd_listed (pendings b))
            \<or> int (max_tunnels l) \<le> tunnels b then Inl Stream_limit
         else Inr (b\<lparr>pendings := pendings b @ [\<lparr>pd_id = pid, pd_owner = ow_id w, pd_generation = ow_generation w,
                      pd_phone = conn, pd_consumed = False, pd_future = Waiting, pd_listed = True\<rparr>],
                    owners := put_row ow_id (w\<lparr>ow_tasks := List.insert conn (ow_tasks w), ow_streams := ow_streams w + 1\<rparr>) (owners b),
                    tunnels := tunnels b + 1\<rparr>)))"

text \<open>The phone continues with its data channel: the owner must still be the current one.\<close>

definition phone_attached :: "ustr \<Rightarrow> 'key board \<Rightarrow> relay_error + 'key board" where
  "phone_attached pid b = (case get_row pd_id (pendings b) pid of
     None \<Rightarrow> Inl Stale_owner
   | Some p \<Rightarrow> (case get_row ow_id (owners b) (pd_owner p) of
       None \<Rightarrow> Inl Stale_owner
     | Some w \<Rightarrow> if \<not> is_current b w then Inl Stale_owner
         else Inr (b\<lparr>pendings := put_row pd_id (p\<lparr>pd_listed := False\<rparr>) (pendings b)\<rparr>)))"

text \<open>The \<^verbatim>\<open>finally\<close> of \<^verbatim>\<open>_phone\<close>, which runs however the phone ends.\<close>

definition phone_finished :: "ustr \<Rightarrow> 'key board \<Rightarrow> 'key board" where
  "phone_finished pid b = (case get_row pd_id (pendings b) pid of
     None \<Rightarrow> b
   | Some p \<Rightarrow> (case get_row ow_id (owners b) (pd_owner p) of
       None \<Rightarrow> b
     | Some w \<Rightarrow> b\<lparr>pendings := filter (\<lambda>q. pd_id q \<noteq> pid) (pendings b),
           owners := put_row ow_id (w\<lparr>ow_tasks := removeAll (pd_phone p) (ow_tasks w), ow_streams := ow_streams w - 1\<rparr>) (owners b),
           tunnels := tunnels b - 1,
           closed := closed b @ (case pd_future p of Delivered conn \<Rightarrow> [conn] | _ \<Rightarrow> [])\<rparr>))"

text \<open>One message of \<^verbatim>\<open>_control\<close>; any error ends the loop and drops the owner.\<close>

definition control :: "'key owner \<Rightarrow> message \<Rightarrow> 'key board \<Rightarrow> relay_error option \<times> 'key board" where
  "control w m b = (if text_at m ''kind'' \<noteq> ulit ''ping'' \<or> \<not> is_current b w then (Some Invalid_control, drop_owner w b) else (None, b))"

text \<open>The \<^verbatim>\<open>finally\<close> of \<^verbatim>\<open>_connection\<close>: a channel whose task ends loses its namespace.\<close>

definition listed_owners :: "'key board \<Rightarrow> 'key owner list" where
  "listed_owners b = filter (is_current b) (owners b)"

definition connection_finished :: "nat \<Rightarrow> 'key board \<Rightarrow> 'key board" where
  "connection_finished conn b =
     (let b' = foldl (\<lambda>x w. drop_owner w x) b (filter (\<lambda>w. ow_conn w = conn) (listed_owners b))
      in b'\<lparr>closed := closed b' @ [conn]\<rparr>)"

section \<open>Steps of the event loop\<close>

datatype board_event =
    Registered nat bytes message nat bytes
  | Attached nat bytes message
  | Deliver ustr nat
  | Phone nat ustr ustr
  | Ready ustr
  | Phone_finished ustr
  | Control nat message
  | Connection_finished nat

text \<open>
  The state with the ids drawn so far and the attachments made. Ids are 32 random bytes, which the
  model takes to be fresh; \<open>params\<close> are the certificate parser, the signature check and the hash.
\<close>

record 'key relay_params =
  rp_load :: "bytes \<Rightarrow> (bytes \<times> 'key option) option"
  rp_check :: "'key \<Rightarrow> bytes \<Rightarrow> bytes \<Rightarrow> bool"
  rp_sha256 :: "bytes \<Rightarrow> bytes"
  rp_limits :: limits
  rp_host :: ustr

type_synonym 'key board_state = "'key board \<times> ustr list \<times> (ustr \<times> nat) list"

inductive board_step :: "'key relay_params \<Rightarrow> 'key board_state \<Rightarrow> board_event \<Rightarrow> 'key board_state \<Rightarrow> bool" for rp where
  step_register: "i \<notin> ow_id ` set (owners b) \<Longrightarrow>
    register_host (rp_load rp) (rp_check rp) (rp_sha256 rp) (rp_limits rp) (rp_host rp) conn nonce m i generation b = Inr b' \<Longrightarrow>
    board_step rp (b, drawn, made) (Registered conn nonce m i generation) (b', drawn, made)"
| step_attach: "attach (rp_check rp) (rp_host rp) nonce m b = Inr (p, b') \<Longrightarrow>
    board_step rp (b, drawn, made) (Attached conn nonce m) (b', drawn, made @ [(pd_id p, conn)])"
| step_deliver: "deliver pid conn b = Some b' \<Longrightarrow> board_step rp (b, drawn, made) (Deliver pid conn) (b', drawn, made)"
| step_phone: "pid \<notin> set drawn \<Longrightarrow> open_phone (rp_limits rp) (rp_host rp) conn name pid b = Inr b' \<Longrightarrow>
    board_step rp (b, drawn, made) (Phone conn name pid) (b', drawn @ [pid], made)"
| step_ready: "get_row pd_id (pendings b) pid = Some p \<Longrightarrow> pd_future p = Delivered conn \<Longrightarrow> phone_attached pid b = Inr b' \<Longrightarrow> board_step rp (b, drawn, made) (Ready pid) (b', drawn, made)"
| step_phone_finished: "board_step rp (b, drawn, made) (Phone_finished pid) (phone_finished pid b, drawn, made)"
| step_control: "w \<in> set (owners b) \<Longrightarrow> control w m b = (e, b') \<Longrightarrow> board_step rp (b, drawn, made) (Control (ow_id w) m) (b', drawn, made)"
| step_connection: "board_step rp (b, drawn, made) (Connection_finished conn) (connection_finished conn b, drawn, made)"

definition board_start :: "'key board_state \<Rightarrow> bool" where
  "board_start s \<longleftrightarrow> s = (empty_board, [], [])"

section \<open>The invariant\<close>

definition streams_of :: "'key board \<Rightarrow> nat \<Rightarrow> nat" where
  "streams_of b i = count_list (map pd_owner (pendings b)) i"

definition owners_ok :: "'key relay_params \<Rightarrow> 'key board \<Rightarrow> bool" where
  "owners_ok rp b \<longleftrightarrow> keyed ow_id (owners b) \<and> distinct (map fst (owner_of b))
     \<and> (\<forall>n i. map_of (owner_of b) n = Some i \<longrightarrow> (\<exists>w. get_row ow_id (owners b) i = Some w \<and> ow_name w = n))
     \<and> length (owner_of b) \<le> max_hosts (rp_limits rp)
     \<and> (\<forall>w \<in> set (owners b). \<exists>der. namespace (rp_load rp) (rp_sha256 rp) der = Inr (ow_name w)
          \<and> certificate_key (rp_load rp) der = Inr (ow_key w))"

definition phones_ok :: "'key relay_params \<Rightarrow> 'key board \<Rightarrow> bool" where
  "phones_ok rp b \<longleftrightarrow> keyed pd_id (pendings b) \<and> tunnels b = int (length (pendings b))
     \<and> length (pendings b) \<le> max_tunnels (rp_limits rp)
     \<and> length (filter pd_listed (pendings b)) \<le> max_pending (rp_limits rp)
     \<and> (\<forall>p \<in> set (pendings b). pd_owner p \<in> ow_id ` set (owners b))
     \<and> (\<forall>w \<in> set (owners b). ow_streams w = int (streams_of b (ow_id w))
          \<and> streams_of b (ow_id w) \<le> streams_per_host (rp_limits rp))"

definition attached_ok :: "pending list \<Rightarrow> ustr list \<Rightarrow> (ustr \<times> nat) list \<Rightarrow> bool" where
  "attached_ok ps drawn made \<longleftrightarrow> distinct (map fst made) \<and> set (map fst made) \<subseteq> set drawn
     \<and> (\<forall>p \<in> set ps. pd_id p \<in> set drawn \<and> (\<not> pd_consumed p \<longrightarrow> pd_id p \<notin> set (map fst made)))"

definition board_inv :: "'key relay_params \<Rightarrow> 'key board_state \<Rightarrow> bool" where
  "board_inv rp = (\<lambda>(b, drawn, made). owners_ok rp b \<and> phones_ok rp b \<and> attached_ok (pendings b) drawn made)"

lemma map_put_row_same:
  "keyed key t \<Longrightarrow> get_row key t (key r') = Some r \<Longrightarrow> f r' = f r \<Longrightarrow> map f (put_row key r' t) = map f t"
proof (induction t)
  case (Cons x t)
  show ?case
  proof (cases "key x = key r'")
    case True
    then have "r = x" "key r' \<notin> key ` set t" using Cons.prems by (auto simp: get_row_def)
    then show ?thesis using Cons.prems(3) True by (simp add: put_row_Cons put_row_id)
  next
    case False
    then show ?thesis using Cons by (simp add: put_row_Cons get_row_def)
  qed
qed (simp add: put_row_def)

lemma filter_put_row_le:
  "keyed key t \<Longrightarrow> get_row key t (key r') = Some r \<Longrightarrow> (P r' \<Longrightarrow> P r) \<Longrightarrow>
     length (filter P (put_row key r' t)) \<le> length (filter P t)"
proof (induction t)
  case (Cons x t)
  show ?case
  proof (cases "key x = key r'")
    case True
    then have "r = x" "key r' \<notin> key ` set t" using Cons.prems by (auto simp: get_row_def)
    then show ?thesis using Cons.prems(3) True by (auto simp: put_row_Cons put_row_id)
  next
    case False
    then show ?thesis using Cons by (auto simp: put_row_Cons get_row_def)
  qed
qed (simp add: put_row_def)

lemma filter_key_split:
  assumes "keyed key t" "get_row key t k = Some r"
  obtains xs ys where "t = xs @ r # ys" "filter (\<lambda>x. key x \<noteq> k) t = xs @ ys"
proof -
  have r: "r \<in> set t" "key r = k" using get_row_Some [OF assms(2)] by auto
  then obtain xs ys where xy: "t = xs @ r # ys" by (meson split_list)
  have "k \<notin> key ` set (xs @ ys)" using assms(1) xy r(2) by auto
  then have "\<forall>x \<in> set (xs @ ys). key x \<noteq> k" by (metis imageI)
  then have "filter (\<lambda>x. key x \<noteq> k) xs = xs" "filter (\<lambda>x. key x \<noteq> k) ys = ys" by (simp_all add: filter_True)
  then show thesis using that [of xs ys] xy r by simp
qed

lemma drop_owner_simps [simp]:
  "owners (drop_owner w b) = owners b" "pendings (drop_owner w b) = pendings b" "tunnels (drop_owner w b) = tunnels b"
  by (simp_all add: drop_owner_def)

lemma drop_owner_map: "map_of (owner_of (drop_owner w b)) n = Some i \<Longrightarrow> map_of (owner_of b) n = Some i"
  by (auto simp: drop_owner_def delete_conv split: if_splits)

lemma drop_owner_ok: "owners_ok rp b \<Longrightarrow> owners_ok rp (drop_owner w b)"
proof -
  assume a: "owners_ok rp b"
  have "distinct (map fst (owner_of (drop_owner w b)))" "length (owner_of (drop_owner w b)) \<le> length (owner_of b)"
    using a length_delete_le [of "ow_name w" "owner_of b"] by (auto simp: drop_owner_def distinct_delete owners_ok_def)
  then show ?thesis using a drop_owner_map [of w b] unfolding owners_ok_def drop_owner_simps
    by (meson order_trans)
qed

lemma phones_frame:
  "phones_ok rp b \<Longrightarrow> owners b' = owners b \<Longrightarrow> pendings b' = pendings b \<Longrightarrow> tunnels b' = tunnels b \<Longrightarrow> phones_ok rp b'"
  by (simp add: phones_ok_def streams_of_def)

lemma drop_owner_inv: "board_inv rp (b, drawn, made) \<Longrightarrow> board_inv rp (drop_owner w b, drawn, made)"
  by (auto simp: board_inv_def drop_owner_ok intro: phones_frame)

lemma put_pending_ok:
  assumes "phones_ok rp b" "get_row pd_id (pendings b) (pd_id p') = Some p" "pd_owner p' = pd_owner p" "pd_listed p' \<longrightarrow> pd_listed p"
  shows "phones_ok rp (b\<lparr>pendings := put_row pd_id p' (pendings b)\<rparr>)"
proof -
  have k: "keyed pd_id (pendings b)" using assms(1) by (simp add: phones_ok_def)
  have m: "map pd_owner (put_row pd_id p' (pendings b)) = map pd_owner (pendings b)"
    by (rule map_put_row_same [OF k assms(2,3)])
  have f: "length (filter pd_listed (put_row pd_id p' (pendings b))) \<le> length (filter pd_listed (pendings b))"
    by (rule filter_put_row_le [OF k assms(2)]) (use assms(4) in simp)
  have "pd_owner ` set (put_row pd_id p' (pendings b)) = pd_owner ` set (pendings b)" using m by (metis list.set_map)
  then have "pd_owner q \<in> ow_id ` set (owners b)" if "q \<in> set (put_row pd_id p' (pendings b))" for q
    using imageI [OF that, of pd_owner] assms(1) by (auto simp: phones_ok_def)
  then show ?thesis using assms(1) f by (auto simp: phones_ok_def streams_of_def m)
qed

lemma owners_frame:
  "owners_ok rp b \<Longrightarrow> owners b' = owners b \<Longrightarrow> owner_of b' = owner_of b \<Longrightarrow> owners_ok rp b'"
  by (simp add: owners_ok_def)

text \<open>A row whose identity, name and key stay the same.\<close>

lemma put_owner_ok:
  assumes "owners_ok rp b" "get_row ow_id (owners b) (ow_id w') = Some w" "ow_name w' = ow_name w" "ow_key w' = ow_key w"
    and b': "owners b' = put_row ow_id w' (owners b)" "owner_of b' = owner_of b"
  shows "owners_ok rp b'"
proof -
  have mem: "ow_id w' \<in> ow_id ` set (owners b)" using get_row_Some [OF assms(2)] by (metis imageI)
  have "\<exists>x. get_row ow_id (put_row ow_id w' (owners b)) i = Some x \<and> ow_name x = n"
    if "get_row ow_id (owners b) i = Some x" "ow_name x = n" for i n x
    using that assms(2,3) mem by (auto simp: get_put_row)
  moreover have "\<exists>der. namespace (rp_load rp) (rp_sha256 rp) der = Inr (ow_name x) \<and> certificate_key (rp_load rp) der = Inr (ow_key x)"
    if "x \<in> set (put_row ow_id w' (owners b))" for x
    using put_row_member [OF that] get_row_Some [OF assms(2)] assms(1,3,4) by (auto simp: owners_ok_def)
  moreover have "keyed ow_id (put_row ow_id w' (owners b))" using assms(1) by (simp add: owners_ok_def)
  ultimately show ?thesis using assms(1) unfolding owners_ok_def b' by (intro conjI allI impI ballI) blast+
qed


section \<open>Every operation keeps it\<close>

lemma register_cases:
  assumes "register_host load_cert check sha256 l relay_host conn nonce m i generation b = Inr b'"
  obtains w der b1 where "ow_id w = i" "ow_streams w = 0" "namespace load_cert sha256 der = Inr (ow_name w)"
    "certificate_key load_cert der = Inr (ow_key w)"
    "map_of (owner_of b) (ow_name w) \<noteq> None \<or> length (owner_of b) < max_hosts l"
    "b1 = b\<lparr>owners := owners b @ [w], owner_of := AList.update (ow_name w) i (owner_of b)\<rparr>"
    "b' = b1 \<or> (\<exists>x. b' = drop_owner x b1)"
proof -
  from assms obtain der key name where d: "certificate_key load_cert der = Inr key" "namespace load_cert sha256 der = Inr name"
    and n: "map_of (owner_of b) name \<noteq> None \<or> length (owner_of b) < max_hosts l"
    and b': "b' = (case Option.bind (map_of (owner_of b) name) (get_row ow_id (owners b)) of
        None \<Rightarrow> b\<lparr>owners := owners b @ [\<lparr>ow_id = i, ow_name = name, ow_key = key, ow_conn = conn, ow_generation = generation,
                               ow_streams = 0, ow_tasks = []\<rparr>], owner_of := AList.update name i (owner_of b)\<rparr>
      | Some x \<Rightarrow> drop_owner x (b\<lparr>owners := owners b @ [\<lparr>ow_id = i, ow_name = name, ow_key = key, ow_conn = conn, ow_generation = generation,
                               ow_streams = 0, ow_tasks = []\<rparr>], owner_of := AList.update name i (owner_of b)\<rparr>))"
    unfolding register_host_def Let_def
    by (auto split: option.split_asm sum.split_asm if_split_asm)
  show thesis
    by (rule that [of "\<lparr>ow_id = i, ow_name = name, ow_key = key, ow_conn = conn, ow_generation = generation,
        ow_streams = 0, ow_tasks = []\<rparr>" der, OF _ _ _ _ _ refl]) (use d n b' in \<open>auto split: option.splits\<close>)
qed

lemma streams_frame: "pendings b' = pendings b \<Longrightarrow> streams_of b' i = streams_of b i"
  by (simp add: streams_of_def)

lemma fresh_streams: "phones_ok rp b \<Longrightarrow> i \<notin> ow_id ` set (owners b) \<Longrightarrow> streams_of b i = 0"
  by (auto simp: streams_of_def phones_ok_def count_list_0_iff)

lemma register_inv:
  assumes "register_host (rp_load rp) check (rp_sha256 rp) (rp_limits rp) relay_host conn nonce m i generation b = Inr b'"
    and inv: "board_inv rp (b, drawn, made)" and i: "i \<notin> ow_id ` set (owners b)"
  shows "board_inv rp (b', drawn, made)"
  using assms(1)
proof (rule register_cases)
  fix w der b1
  assume w: "ow_id w = i" "ow_streams w = 0" "namespace (rp_load rp) (rp_sha256 rp) der = Inr (ow_name w)"
    "certificate_key (rp_load rp) der = Inr (ow_key w)"
    and room: "map_of (owner_of b) (ow_name w) \<noteq> None \<or> length (owner_of b) < max_hosts (rp_limits rp)"
    and b1: "b1 = b\<lparr>owners := owners b @ [w], owner_of := AList.update (ow_name w) i (owner_of b)\<rparr>"
    and b': "b' = b1 \<or> (\<exists>x. b' = drop_owner x b1)"
  have ok: "owners_ok rp b" "phones_ok rp b" using inv by (simp_all add: board_inv_def)
  have "length (owner_of b1) \<le> max_hosts (rp_limits rp)"
  proof -
    have "map fst (owner_of b1) = (if ow_name w \<in> set (map fst (owner_of b)) then map fst (owner_of b) else map fst (owner_of b) @ [ow_name w])"
      by (simp add: b1 update_keys)
    then have "length (owner_of b1) = (if ow_name w \<in> set (map fst (owner_of b)) then length (owner_of b) else length (owner_of b) + 1)"
      by (metis length_map length_append_singleton Suc_eq_plus1)
    then show ?thesis using room ok(1) by (auto simp: owners_ok_def map_of_eq_None_iff)
  qed
  moreover have "\<exists>x. get_row ow_id (owners b1) j = Some x \<and> ow_name x = n" if "map_of (owner_of b1) n = Some j" for n j
  proof (cases "n = ow_name w")
    case True
    then have "j = i" using that by (simp add: b1 update_conv)
    moreover have "get_row ow_id (owners b) i = None" using i by (simp add: get_row_None)
    ultimately show ?thesis using True w(1) by (simp add: b1 get_row_append)
  next
    case False
    then have "map_of (owner_of b) n = Some j" using that by (simp add: b1 update_conv)
    then show ?thesis using ok(1) by (fastforce simp: owners_ok_def b1 get_row_append)
  qed
  ultimately have "owners_ok rp b1"
    using ok(1) w i unfolding owners_ok_def by (auto simp: b1 distinct_update)
  moreover have "phones_ok rp b1"
    using ok(2) w fresh_streams [OF ok(2) i] streams_frame [of b1 b] unfolding phones_ok_def by (auto simp: b1)
  moreover have "pendings b1 = pendings b" by (simp add: b1)
  ultimately have "board_inv rp (b1, drawn, made)" using inv by (simp add: board_inv_def)
  then show ?thesis using b' drop_owner_inv by blast
qed

lemma attach_cases:
  assumes "attach check relay_host nonce m b = Inr (p', b')"
  obtains p w q message where "get_row pd_id (filter pd_listed (pendings b)) (text_at m ''pending'') = Some p"
    "get_row ow_id (owners b) (pd_owner p) = Some w" "\<not> pd_consumed p" "pd_future p = Waiting" "is_current b w"
    "pd_generation p = ow_generation w" "untoken (text_at m ''pending'') = Inr q"
    "challenge Attach relay_host nonce (Some q) = Inr message" "verify check (ow_key w) (text_at m ''signature'') message = Inr ()"
    "p' = p\<lparr>pd_consumed := True\<rparr>" "b' = b\<lparr>pendings := put_row pd_id p' (pendings b)\<rparr>"
  using assms unfolding attach_def Let_def
  by (auto split: option.split_asm sum.split_asm if_split_asm)

lemma get_row_filter:
  assumes "keyed key t" "get_row key (filter P t) k = Some r"
  shows "get_row key t k = Some r" "P r" "key r = k"
proof -
  have r: "r \<in> set t" "P r" "key r = k" using get_row_Some [OF assms(2)] by auto
  then show "get_row key t k = Some r" "P r" "key r = k" using get_row_keyed [OF assms(1) r(1)] by auto
qed

lemma attach_inv:
  assumes a: "attach check relay_host nonce m b = Inr (p', b')" and inv: "board_inv rp (b, drawn, made)"
  shows "board_inv rp (b', drawn, made @ [(pd_id p', conn)])" "pd_id p' \<notin> set (map fst made)"
proof -
  obtain p where p: "get_row pd_id (filter pd_listed (pendings b)) (text_at m ''pending'') = Some p" "\<not> pd_consumed p"
    "p' = p\<lparr>pd_consumed := True\<rparr>" "b' = b\<lparr>pendings := put_row pd_id p' (pendings b)\<rparr>"
    using a by (rule attach_cases)
  have ok: "owners_ok rp b" "phones_ok rp b" "attached_ok (pendings b) drawn made" using inv by (simp_all add: board_inv_def)
  have k: "keyed pd_id (pendings b)" using ok(2) by (simp add: phones_ok_def)
  note g = get_row_filter [OF k p(1)]
  have g': "get_row pd_id (pendings b) (pd_id p') = Some p" using g p(3) by simp
  have mem: "p \<in> set (pendings b)" using get_row_Some [OF g(1)] by simp
  show new: "pd_id p' \<notin> set (map fst made)" using ok(3) mem p(2,3) by (auto simp: attached_ok_def)
  have "attached_ok (put_row pd_id p' (pendings b)) drawn (made @ [(pd_id p', conn)])"
    using ok(3) new mem p(3) unfolding attached_ok_def by (auto dest!: put_row_member)
  moreover have "phones_ok rp b'" unfolding p(4) by (rule put_pending_ok [OF ok(2) g']) (simp_all add: p(3))
  moreover have "owners_ok rp b'" by (rule owners_frame [OF ok(1)]) (simp_all add: p(4))
  ultimately show "board_inv rp (b', drawn, made @ [(pd_id p', conn)])" by (simp add: board_inv_def p(4))
qed

lemma put_pending_inv:
  assumes inv: "board_inv rp (b, drawn, made)" and g: "get_row pd_id (pendings b) (pd_id p') = Some p"
    and "pd_owner p' = pd_owner p" "pd_listed p' \<longrightarrow> pd_listed p" "pd_consumed p' = pd_consumed p"
  shows "board_inv rp (b\<lparr>pendings := put_row pd_id p' (pendings b)\<rparr>, drawn, made)"
proof -
  have ok: "owners_ok rp b" "phones_ok rp b" "attached_ok (pendings b) drawn made" using inv by (simp_all add: board_inv_def)
  have mem: "p \<in> set (pendings b)" "pd_id p = pd_id p'" using get_row_Some [OF g] by simp_all
  have "attached_ok (put_row pd_id p' (pendings b)) drawn made"
    using ok(3) mem assms(5) unfolding attached_ok_def by (metis put_row_member)
  then show ?thesis
    using put_pending_ok [OF ok(2) g assms(3,4)] owners_frame [OF ok(1), of "b\<lparr>pendings := put_row pd_id p' (pendings b)\<rparr>"]
    by (simp add: board_inv_def)
qed


lemma open_phone_cases:
  assumes "open_phone l relay_host conn name pid b = Inr b'"
  obtains n w where "dialled relay_host name = Some n" "map_of (owner_of b) n = Some (ow_id w)" "get_row ow_id (owners b) (ow_id w) = Some w"
    "ow_streams w < int (streams_per_host l)" "length (filter pd_listed (pendings b)) < max_pending l" "tunnels b < int (max_tunnels l)"
    "b' = b\<lparr>pendings := pendings b @ [\<lparr>pd_id = pid, pd_owner = ow_id w, pd_generation = ow_generation w,
                      pd_phone = conn, pd_consumed = False, pd_future = Waiting, pd_listed = True\<rparr>],
                    owners := put_row ow_id (w\<lparr>ow_tasks := List.insert conn (ow_tasks w), ow_streams := ow_streams w + 1\<rparr>) (owners b),
                    tunnels := tunnels b + 1\<rparr>"
proof -
  from assms obtain n i w where nw: "dialled relay_host name = Some n" "map_of (owner_of b) n = Some i" "get_row ow_id (owners b) i = Some w"
    by (auto simp: open_phone_def bind_eq_Some_conv split: option.split_asm)
  then have "i = ow_id w" using get_row_Some by fastforce
  then show thesis using nw assms that [of n w] by (auto simp: open_phone_def split: if_split_asm)
qed

lemma phone_inv:
  assumes a: "open_phone (rp_limits rp) relay_host conn name pid b = Inr b'" and inv: "board_inv rp (b, drawn, made)"
    and new: "pid \<notin> set drawn"
  shows "board_inv rp (b', drawn @ [pid], made)"
proof -
  from a obtain w where w: "get_row ow_id (owners b) (ow_id w) = Some w"
    "ow_streams w < int (streams_per_host (rp_limits rp))" "length (filter pd_listed (pendings b)) < max_pending (rp_limits rp)"
    "tunnels b < int (max_tunnels (rp_limits rp))"
    "b' = b\<lparr>pendings := pendings b @ [\<lparr>pd_id = pid, pd_owner = ow_id w, pd_generation = ow_generation w,
                      pd_phone = conn, pd_consumed = False, pd_future = Waiting, pd_listed = True\<rparr>],
                    owners := put_row ow_id (w\<lparr>ow_tasks := List.insert conn (ow_tasks w), ow_streams := ow_streams w + 1\<rparr>) (owners b),
                    tunnels := tunnels b + 1\<rparr>"
    by (rule open_phone_cases)
  have ok: "owners_ok rp b" "phones_ok rp b" "attached_ok (pendings b) drawn made" using inv by (simp_all add: board_inv_def)
  have mem: "w \<in> set (owners b)" using get_row_Some [OF w(1)] by simp
  have o: "owners_ok rp b'"
    by (rule put_owner_ok [OF ok(1), of "w\<lparr>ow_tasks := List.insert conn (ow_tasks w), ow_streams := ow_streams w + 1\<rparr>" w])
      (simp_all add: w(1,5))
  have pidnew: "pid \<notin> pd_id ` set (pendings b)" "pid \<notin> set (map fst made)"
    using ok(3) new by (auto simp: attached_ok_def)
  have st: "streams_of b' i = streams_of b i + (if i = ow_id w then 1 else 0)" for i
    by (simp add: streams_of_def w(5))
  have each: "ow_streams x = int (streams_of b' (ow_id x)) \<and> streams_of b' (ow_id x) \<le> streams_per_host (rp_limits rp)"
    if "x \<in> set (owners b')" for x
  proof -
    have cases: "x = w\<lparr>ow_tasks := List.insert conn (ow_tasks w), ow_streams := ow_streams w + 1\<rparr> \<or> x \<in> set (owners b) \<and> ow_id x \<noteq> ow_id w"
      using put_row_member [of x ow_id "w\<lparr>ow_tasks := List.insert conn (ow_tasks w), ow_streams := ow_streams w + 1\<rparr>" "owners b"]
        that by (auto simp: w(5))
    have "ow_streams w = int (streams_of b (ow_id w))" using ok(2) mem by (simp add: phones_ok_def)
    then show ?thesis using cases ok(2) w(2) st by (auto simp: phones_ok_def)
  qed
  have "phones_ok rp b'"
    using ok(2) each w(3,4) pidnew(1) mem unfolding phones_ok_def by (auto simp: w(5))
  moreover have "attached_ok (pendings b') (drawn @ [pid]) made"
    using ok(3) pidnew new by (auto simp: attached_ok_def w(5))
  ultimately show ?thesis using o by (simp add: board_inv_def)
qed

lemma finished_inv:
  assumes inv: "board_inv rp (b, drawn, made)"
  shows "board_inv rp (phone_finished pid b, drawn, made)"
proof (cases "get_row pd_id (pendings b) pid")
  case None
  then show ?thesis using inv by (simp add: phone_finished_def)
next
  case (Some p)
  have ok: "owners_ok rp b" "phones_ok rp b" "attached_ok (pendings b) drawn made" using inv by (simp_all add: board_inv_def)
  have k: "keyed pd_id (pendings b)" "keyed ow_id (owners b)" using ok by (simp_all add: phones_ok_def owners_ok_def)
  have p: "p \<in> set (pendings b)" using get_row_Some [OF Some] by simp
  then have "pd_owner p \<in> ow_id ` set (owners b)" using ok(2) by (simp add: phones_ok_def)
  then obtain w where w: "w \<in> set (owners b)" "ow_id w = pd_owner p" by auto
  have gw: "get_row ow_id (owners b) (pd_owner p) = Some w" using get_row_keyed [OF k(2) w(1)] w(2) by simp
  define b' where "b' = phone_finished pid b"
  let ?w' = "w\<lparr>ow_tasks := removeAll (pd_phone p) (ow_tasks w), ow_streams := ow_streams w - 1\<rparr>"
  have b': "pendings b' = filter (\<lambda>q. pd_id q \<noteq> pid) (pendings b)" "owners b' = put_row ow_id ?w' (owners b)"
    "tunnels b' = tunnels b - 1" "owner_of b' = owner_of b"
    by (simp_all add: b'_def phone_finished_def Some gw)
  obtain xs ys where xy: "pendings b = xs @ p # ys" "pendings b' = xs @ ys"
    using filter_key_split [OF k(1) Some] b'(1) by metis
  have o: "owners_ok rp b'" by (rule put_owner_ok [OF ok(1), of ?w' w]) (simp_all add: gw w(2) b')
  have st: "streams_of b i = streams_of b' i + (if i = ow_id w then 1 else 0)" for i
    by (simp add: streams_of_def xy w(2))
  have each: "ow_streams x = int (streams_of b' (ow_id x)) \<and> streams_of b' (ow_id x) \<le> streams_per_host (rp_limits rp)"
    if "x \<in> set (owners b')" for x
  proof -
    have cases: "x = ?w' \<or> x \<in> set (owners b) \<and> ow_id x \<noteq> ow_id w"
      using put_row_member [of x ow_id ?w' "owners b"] that by (auto simp: b')
    have "ow_streams w = int (streams_of b (ow_id w))" "streams_of b (ow_id w) \<le> streams_per_host (rp_limits rp)"
      using ok(2) w(1) by (simp_all add: phones_ok_def)
    then show ?thesis using cases ok(2) st by (auto simp: phones_ok_def)
  qed
  have "keyed pd_id (pendings b')" using k(1) by (simp add: xy)
  then have "phones_ok rp b'"
    using ok(2) each unfolding phones_ok_def by (auto simp: b'(2,3) xy split: if_splits)
  moreover have "attached_ok (pendings b') drawn made" using ok(3) by (auto simp: attached_ok_def xy)
  ultimately show ?thesis using o by (simp add: board_inv_def b'_def)
qed

lemma dropped_inv: "board_inv rp (b, drawn, made) \<Longrightarrow> board_inv rp (foldl (\<lambda>x w. drop_owner w x) b ws, drawn, made)"
  by (induction ws arbitrary: b) (simp_all add: drop_owner_inv)

lemma closed_inv: "board_inv rp (b, drawn, made) \<Longrightarrow> board_inv rp (b\<lparr>closed := x\<rparr>, drawn, made)"
  by (auto simp: board_inv_def intro: phones_frame owners_frame)

lemma board_step_inv:
  assumes "board_step rp s v s'" "board_inv rp s"
  shows "board_inv rp s'"
  using assms(1)
proof cases
  case step_register
  then show ?thesis using register_inv assms(2) by blast
next
  case step_attach
  then show ?thesis using attach_inv(1) assms(2) by blast
next
  case (step_deliver pid conn b b' drawn made)
  then obtain p where p: "get_row pd_id (pendings b) pid = Some p"
    "b' = b\<lparr>pendings := put_row pd_id (p\<lparr>pd_future := Delivered conn\<rparr>) (pendings b)\<rparr>"
    by (auto simp: deliver_def split: option.splits if_splits)
  have "pd_id p = pid" using get_row_Some [OF p(1)] by simp
  then show ?thesis unfolding step_deliver(3) p(2)
    by (intro put_pending_inv [where p = p]) (use p assms(2) step_deliver(1) in simp_all)
next
  case step_phone
  then show ?thesis using phone_inv assms(2) by blast
next
  case (step_ready b pid p conn b' drawn made)
  then have b': "b' = b\<lparr>pendings := put_row pd_id (p\<lparr>pd_listed := False\<rparr>) (pendings b)\<rparr>"
    by (auto simp: phone_attached_def split: option.splits if_splits)
  have "pd_id p = pid" using get_row_Some [OF step_ready(4)] by simp
  then show ?thesis unfolding step_ready(3) b'
    by (intro put_pending_inv [where p = p]) (use step_ready assms(2) in simp_all)
next
  case step_phone_finished
  then show ?thesis using finished_inv assms(2) by blast
next
  case (step_control w b m e b' drawn made)
  then have "b' = b \<or> b' = drop_owner w b" by (auto simp: control_def split: if_splits)
  then show ?thesis using drop_owner_inv assms(2) step_control(1,3) by blast
next
  case (step_connection b drawn made conn)
  then show ?thesis using assms(2) by (auto simp: connection_finished_def Let_def intro!: closed_inv dropped_inv)
qed

interpretation switchboard: stateful_component board_start "board_step rp" "board_inv rp"
proof unfold_locales
  fix s :: "'a board_state" assume "board_start s"
  then show "board_inv rp s"
    by (simp add: board_start_def board_inv_def empty_board_def owners_ok_def phones_ok_def attached_ok_def streams_of_def)
qed (rule board_step_inv)


section \<open>Properties\<close>

text \<open>
  C24. Tunnel accounting. In every reachable state the tunnel counter is the number of phones being
  served and within its limit, every owner's stream counter is the number of its phones and within the
  limit per computer, and the registered namespaces and waiting phones are within theirs.
\<close>

theorem tunnel_accounting:
  assumes "board_start s" "run_of (board_step rp) s vs (b, drawn, made)"
  shows "tunnels b = int (length (pendings b)) \<and> length (pendings b) \<le> max_tunnels (rp_limits rp)
    \<and> length (owner_of b) \<le> max_hosts (rp_limits rp)
    \<and> length (filter pd_listed (pendings b)) \<le> max_pending (rp_limits rp)
    \<and> list_all (\<lambda>w. ow_streams w = int (length (filter (\<lambda>p. pd_owner p = ow_id w) (pendings b)))
         \<and> ow_streams w \<le> int (streams_per_host (rp_limits rp))) (owners b)"
proof -
  have "count_list (map pd_owner ps) i = length (filter (\<lambda>p. pd_owner p = i) ps)" for i ps
    by (induction ps) auto
  then have "streams_of b i = length (filter (\<lambda>p. pd_owner p = i) (pendings b))" for i
    by (simp add: streams_of_def)
  then show ?thesis using switchboard.reachable_inv [OF assms]
    by (auto simp: board_inv_def owners_ok_def phones_ok_def list_all_iff)
qed

text \<open>
  C25. Only the right computer answers a phone. An attachment accepted in a reachable state goes to a
  waiting phone that no channel was attached to before, and the computer that attaches has signed this
  connection's fresh challenge for this phone's id with the key of a certificate whose hash is the
  namespace the phone's owner registered.
\<close>

theorem attach_authentic:
  assumes "board_start s" "run_of (board_step rp) s vs (b, drawn, made)"
    and "attach (rp_check rp) (rp_host rp) nonce m b = Inr (p, b')"
  shows "map_of made (pd_id p) = None
    \<and> (\<exists>w der key raw q message. get_row ow_id (owners b) (pd_owner p) = Some w \<and> is_current b w
        \<and> namespace (rp_load rp) (rp_sha256 rp) der = Inr (ow_name w) \<and> certificate_key (rp_load rp) der = Inr key
        \<and> untoken (pd_id p) = Inr q \<and> challenge Attach (rp_host rp) nonce (Some q) = Inr message
        \<and> signature_bytes (text_at m ''signature'') = Inr raw \<and> rp_check rp key raw message)"
proof -
  have inv: "board_inv rp (b, drawn, made)" by (rule switchboard.reachable_inv [OF assms(1,2)])
  then have ok: "owners_ok rp b" "keyed pd_id (pendings b)" by (simp_all add: board_inv_def phones_ok_def)
  have "map_of made (pd_id p) = None" using attach_inv(2) [OF assms(3) inv] by (simp add: map_of_eq_None_iff)
  moreover from assms(3) obtain p0 w q message where a: "get_row pd_id (filter pd_listed (pendings b)) (text_at m ''pending'') = Some p0"
    "get_row ow_id (owners b) (pd_owner p0) = Some w" "is_current b w" "untoken (text_at m ''pending'') = Inr q"
    "challenge Attach (rp_host rp) nonce (Some q) = Inr message"
    "verify (rp_check rp) (ow_key w) (text_at m ''signature'') message = Inr ()" "p = p0\<lparr>pd_consumed := True\<rparr>"
    by (rule attach_cases)
  have "pd_id p = text_at m ''pending''" "pd_owner p = pd_owner p0" using get_row_filter(3) [OF ok(2) a(1)] a(7) by simp_all
  moreover have "w \<in> set (owners b)" using get_row_Some [OF a(2)] by simp
  then obtain der where "namespace (rp_load rp) (rp_sha256 rp) der = Inr (ow_name w)" "certificate_key (rp_load rp) der = Inr (ow_key w)"
    using ok(1) by (auto simp: owners_ok_def)
  moreover obtain raw where "signature_bytes (text_at m ''signature'') = Inr raw" "rp_check rp (ow_key w) raw message"
    using a(6) by (auto simp: verify_def split: sum.splits if_splits)
  ultimately show ?thesis using a by auto
qed


definition demo_rp :: "unit relay_params" where
  "demo_rp = \<lparr>rp_load = \<lambda>der. Some (der, Some ()), rp_check = \<lambda>_ _ _. True, rp_sha256 = \<lambda>_. replicate 32 0,
     rp_limits = default_limits, rp_host = ulit ''a.bc''\<rparr>"

definition demo_name :: ustr where
  "demo_name = strip_pad (b32_encode (replicate 32 0))"

definition demo_pid :: ustr where
  "demo_pid = strip_pad (b64_encode True (replicate 32 0))"

definition demo_sig :: ustr where
  "demo_sig = strip_pad (b64_encode True (replicate 8 0))"

definition demo_register :: message where
  "demo_register = [(ulit ''certificate'', PStr (b64_encode False (replicate 128 0))), (ulit ''signature'', PStr demo_sig)]"

definition demo_attach :: message where
  "demo_attach = [(ulit ''pending'', PStr demo_pid), (ulit ''signature'', PStr demo_sig)]"

definition demo_host :: "unit owner" where
  "demo_host = \<lparr>ow_id = 1, ow_name = demo_name, ow_key = (), ow_conn = 5, ow_generation = [9], ow_streams = 0, ow_tasks = []\<rparr>"

definition demo_waiting :: pending where
  "demo_waiting = \<lparr>pd_id = demo_pid, pd_owner = 1, pd_generation = [9], pd_phone = 6, pd_consumed = False, pd_future = Waiting,
     pd_listed = True\<rparr>"

definition demo_board :: "unit board" where
  "demo_board = \<lparr>owners = [demo_host\<lparr>ow_tasks := [6], ow_streams := 1\<rparr>], owner_of = [(demo_name, 1)],
     pendings = [demo_waiting], tunnels = 1, closed = [], cancelled = []\<rparr>"

lemma demo_parts:
  "untoken demo_pid = Inr (replicate 32 0)" "signature_bytes demo_sig = Inr (replicate 8 0)"
  "namespace (rp_load demo_rp) (rp_sha256 demo_rp) (replicate 128 0) = Inr demo_name"
  "certificate_key (rp_load demo_rp) (replicate 128 0) = Inr ()"
  "\<exists>m. challenge Register (ulit ''a.bc'') (replicate 32 7) None = Inr m"
  "\<exists>m. challenge Attach (ulit ''a.bc'') (replicate 32 7) (Some (replicate 32 0)) = Inr m"
  "dialled (ulit ''a.bc'') (demo_name @ 46 # ulit ''a.bc'') = Some demo_name"
proof -
  show "untoken demo_pid = Inr (replicate 32 0)" "signature_bytes demo_sig = Inr (replicate 8 0)"
    by (auto simp: untoken_iff signature_bytes_iff token_def signature_text_def demo_pid_def demo_sig_def list_all_iff)
  show "certificate_key (rp_load demo_rp) (replicate 128 0) = Inr ()"
    by (simp add: certificate_key_def demo_rp_def)
  then show "namespace (rp_load demo_rp) (rp_sha256 demo_rp) (replicate 128 0) = Inr demo_name"
    by (simp add: namespace_def demo_name_def) (simp add: demo_rp_def)
  show "\<exists>m. challenge Register (ulit ''a.bc'') (replicate 32 7) None = Inr m"
    "\<exists>m. challenge Attach (ulit ''a.bc'') (replicate 32 7) (Some (replicate 32 0)) = Inr m"
    by (simp_all add: challenge_def dns_name_def token_def ulit_def dns_label_def label_char_def ascii_upper_def ipv4_address_def)
  have "namespace_text demo_name" unfolding demo_name_def by (rule b32_namespace) (simp_all add: list_all_iff)
  then show "dialled (ulit ''a.bc'') (demo_name @ 46 # ulit ''a.bc'') = Some demo_name"
    using namespace_text_chars [of demo_name] by (simp add: dialled_def Let_def namespace_text_def)
qed

lemma demo_board_run:
  "run_of (board_step demo_rp) (empty_board, [], []) [Registered 5 (replicate 32 7) demo_register 1 [9],
     Phone 6 (demo_name @ 46 # ulit ''a.bc'') demo_pid] (demo_board, [demo_pid], [])"
proof -
  let ?b = "\<lparr>owners = [demo_host], owner_of = [(demo_name, 1)], pendings = [], tunnels = 0, closed = [], cancelled = []\<rparr>"
  have cert: "text_at demo_register ''certificate'' = b64_encode False (replicate 128 0)"
    "text_at demo_register ''signature'' = demo_sig" by (simp_all add: text_at_def demo_register_def ulit_def)
  have host: "rp_host demo_rp = ulit ''a.bc''" by (simp add: demo_rp_def)
  obtain m where m: "challenge Register (ulit ''a.bc'') (replicate 32 7) None = Inr m" using demo_parts(5) by blast
  have "verify (rp_check demo_rp) () demo_sig m = Inr ()" by (simp add: verify_def demo_parts(2)) (simp add: demo_rp_def)
  moreover have "b64_decode False (b64_encode False (replicate 128 0)) = Some (replicate 128 0)"
    by (rule b64_roundtrip) (simp add: list_all_iff)
  ultimately have "register_host (rp_load demo_rp) (rp_check demo_rp) (rp_sha256 demo_rp) (rp_limits demo_rp) (rp_host demo_rp) 5
      (replicate 32 7) demo_register 1 [9] empty_board = Inr ?b"
    by (simp add: register_host_def cert host m demo_parts(3,4) empty_board_def Let_def demo_host_def)
      (simp add: demo_rp_def default_limits_def)
  from step_register [of 1 empty_board demo_rp 5, OF _ this] have 1: "board_step demo_rp (empty_board, [], [])
      (Registered 5 (replicate 32 7) demo_register 1 [9]) (?b, [], [])" by (simp add: empty_board_def)
  have "open_phone (rp_limits demo_rp) (rp_host demo_rp) 6 (demo_name @ 46 # ulit ''a.bc'') demo_pid ?b = Inr demo_board"
    by (simp add: open_phone_def host demo_parts(7) get_row_def demo_host_def demo_board_def demo_waiting_def put_row_def)
      (simp add: demo_rp_def default_limits_def)
  from step_phone [OF _ this, of "[]" "[]"] have 2: "board_step demo_rp (?b, [], [])
      (Phone 6 (demo_name @ 46 # ulit ''a.bc'') demo_pid) (demo_board, [demo_pid], [])" by simp
  show ?thesis by (rule run_cons [OF 1 run_cons [OF 2 run_nil [where step = "board_step demo_rp"]]])
qed

lemma demo_attached:
  "attach (rp_check demo_rp) (rp_host demo_rp) (replicate 32 7) demo_attach demo_board
     = Inr (demo_waiting\<lparr>pd_consumed := True\<rparr>, demo_board\<lparr>pendings := [demo_waiting\<lparr>pd_consumed := True\<rparr>]\<rparr>)"
proof -
  have t: "text_at demo_attach ''pending'' = demo_pid" "text_at demo_attach ''signature'' = demo_sig"
    by (simp_all add: text_at_def demo_attach_def ulit_def)
  have host: "rp_host demo_rp = ulit ''a.bc''" by (simp add: demo_rp_def)
  obtain m where m: "challenge Attach (ulit ''a.bc'') (replicate 32 7) (Some (replicate 32 0)) = Inr m" using demo_parts(6) by blast
  have "verify (rp_check demo_rp) () demo_sig m = Inr ()" by (simp add: verify_def demo_parts(2)) (simp add: demo_rp_def)
  then show ?thesis
    by (simp add: attach_def t host demo_board_def demo_waiting_def get_row_def demo_host_def is_current_def demo_parts(1) m
        Let_def put_row_def)
qed

theorem tunnel_accounting_witness: "tunnels demo_board = int (length (pendings demo_board))"
proof -
  have "board_start (empty_board, [], [])" by (simp add: board_start_def)
  from tunnel_accounting [OF this demo_board_run] show ?thesis by blast
qed

theorem attach_authentic_witness:
  "\<exists>w. get_row ow_id (owners demo_board) 1 = Some w \<and> is_current demo_board w"
proof -
  have "board_start (empty_board, [], [])" by (simp add: board_start_def)
  from attach_authentic [OF this demo_board_run demo_attached] show ?thesis by (auto simp: demo_waiting_def)
qed


end
