(* ===== verification/Dictionary.thy ===== *)
theory Dictionary
  imports Codecs "HOL-Library.AList"
begin

text \<open>
  \<^verbatim>\<open>dictionary_snippets.py\<close>: the user's dictionary and snippets, their validated document and
  repository. The Unicode database (NFC, case folding, character classes) is the parameter \<open>u\<close>.
  A document is the value that JSON holds; the text of the file is not modelled.
\<close>

section \<open>Fields\<close>

record unicode =
  nfc :: "ustr \<Rightarrow> ustr"
  casefold :: "ustr \<Rightarrow> ustr"
  is_alnum :: "nat \<Rightarrow> bool"
  is_mark :: "nat \<Rightarrow> bool"
  is_punct :: "nat \<Rightarrow> bool"

datatype dictionary_error = Invalid_document | Unsupported_schema | Unwritable | Bad_argument | Too_long

definition text_field :: "unicode \<Rightarrow> pyval \<Rightarrow> nat \<Rightarrow> bool \<Rightarrow> bool \<Rightarrow> dictionary_error + ustr" where
  "text_field u v maximum newlines empty_ok = (case v of PStr s \<Rightarrow>
     let normalized = nfc u s in
     if \<not> empty_ok \<and> (normalized = [] \<or> py_strip normalized = []) then Inl Invalid_document
     else if maximum < length normalized then Inl Invalid_document
     else if \<not> newlines \<and> (13 \<in> set normalized \<or> 10 \<in> set normalized) then Inl Invalid_document
     else Inr normalized
   | _ \<Rightarrow> Inl Invalid_document)"

definition optional_text :: "unicode \<Rightarrow> pyval \<Rightarrow> nat \<Rightarrow> dictionary_error + ustr" where
  "optional_text u v maximum = (if v = PNone \<or> v = PStr [] then Inr [] else text_field u v maximum False False)"

definition enabled_field :: "pyval \<Rightarrow> dictionary_error + bool" where
  "enabled_field v = (case v of PBool b \<Rightarrow> Inr b | _ \<Rightarrow> Inl Invalid_document)"

fun alias_loop :: "unicode \<Rightarrow> ustr list \<Rightarrow> pyval list \<Rightarrow> dictionary_error + ustr list" where
  "alias_loop u seen [] = Inr []"
| "alias_loop u seen (v # vs) = (case text_field u v 256 False False of
     Inl e \<Rightarrow> Inl e
   | Inr alias \<Rightarrow> if casefold u alias \<in> set seen then Inl Invalid_document
       else (case alias_loop u (casefold u alias # seen) vs of Inl e \<Rightarrow> Inl e | Inr rest \<Rightarrow> Inr (alias # rest)))"

definition aliases_field :: "unicode \<Rightarrow> pyval \<Rightarrow> dictionary_error + ustr list" where
  "aliases_field u v = (case v of PNone \<Rightarrow> Inr []
     | PList xs \<Rightarrow> if 32 < length xs then Inl Invalid_document else alias_loop u [] xs
     | _ \<Rightarrow> Inl Invalid_document)"

section \<open>Entries and snippets\<close>

record dict_entry =
  de_term :: ustr
  de_pronunciation :: ustr
  de_aliases :: "ustr list"
  de_enabled :: bool

record snippet =
  sn_trigger :: ustr
  sn_replacement :: ustr
  sn_enabled :: bool
  sn_case :: bool

definition make_entry :: "unicode \<Rightarrow> pyval \<Rightarrow> pyval \<Rightarrow> pyval \<Rightarrow> pyval \<Rightarrow> dictionary_error + dict_entry" where
  "make_entry u t p a e = (case (text_field u t 256 False False, optional_text u p 256, aliases_field u a, enabled_field e) of
     (Inr t', Inr p', Inr a', Inr e') \<Rightarrow> Inr \<lparr>de_term = t', de_pronunciation = p', de_aliases = a', de_enabled = e'\<rparr>
   | _ \<Rightarrow> Inl Invalid_document)"

definition make_snippet :: "unicode \<Rightarrow> pyval \<Rightarrow> pyval \<Rightarrow> pyval \<Rightarrow> pyval \<Rightarrow> dictionary_error + snippet" where
  "make_snippet u t r e c = (case (text_field u t 256 False False, text_field u r 4096 True True, enabled_field e, enabled_field c) of
     (Inr t', Inr r', Inr e', Inr c') \<Rightarrow> Inr \<lparr>sn_trigger = t', sn_replacement = r', sn_enabled = e', sn_case = c'\<rparr>
   | _ \<Rightarrow> Inl Invalid_document)"

definition get_or :: "(ustr \<times> pyval) list \<Rightarrow> string \<Rightarrow> pyval \<Rightarrow> pyval" where
  "get_or d k otherwise = (case map_of d (ulit k) of Some v \<Rightarrow> v | None \<Rightarrow> otherwise)"

definition entry_of_mapping :: "unicode \<Rightarrow> pyval \<Rightarrow> dictionary_error + dict_entry" where
  "entry_of_mapping u v = (case v of PDict d \<Rightarrow>
     make_entry u (get_or d ''term'' (PStr [])) (get_or d ''pronunciation'' (PStr [])) (get_or d ''aliases'' (PList []))
       (get_or d ''enabled'' (PBool True))
   | _ \<Rightarrow> Inl Invalid_document)"

definition entry_mapping :: "dict_entry \<Rightarrow> pyval" where
  "entry_mapping e = PDict [(ulit ''term'', PStr (de_term e)), (ulit ''pronunciation'', PStr (de_pronunciation e)),
     (ulit ''aliases'', PList (map PStr (de_aliases e))), (ulit ''enabled'', PBool (de_enabled e))]"

definition snippet_of_mapping :: "unicode \<Rightarrow> pyval \<Rightarrow> dictionary_error + snippet" where
  "snippet_of_mapping u v = (case v of PDict d \<Rightarrow>
     make_snippet u (get_or d ''trigger'' (PStr [])) (get_or d ''replacement'' (PStr [])) (get_or d ''enabled'' (PBool True))
       (get_or d ''case_sensitive'' (PBool False))
   | _ \<Rightarrow> Inl Invalid_document)"

definition snippet_mapping :: "snippet \<Rightarrow> pyval" where
  "snippet_mapping s = PDict [(ulit ''trigger'', PStr (sn_trigger s)), (ulit ''replacement'', PStr (sn_replacement s)),
     (ulit ''enabled'', PBool (sn_enabled s)), (ulit ''case_sensitive'', PBool (sn_case s))]"

section \<open>The document\<close>

record library =
  lib_dictionary :: "dict_entry list"
  lib_snippets :: "snippet list"

definition empty_library :: library where
  "empty_library = \<lparr>lib_dictionary = [], lib_snippets = []\<rparr>"

definition make_library :: "unicode \<Rightarrow> dict_entry list \<Rightarrow> snippet list \<Rightarrow> dictionary_error + library" where
  "make_library u es ss =
     (if 512 < int (length es) \<or> 512 < int (length ss) then Inl Invalid_document
      else if \<not> distinct (map (casefold u \<circ> de_term) es) then Inl Invalid_document
      else if \<not> distinct (map (casefold u \<circ> sn_trigger) ss) then Inl Invalid_document
      else Inr \<lparr>lib_dictionary = es, lib_snippets = ss\<rparr>)"

definition schema_version :: "pyval option \<Rightarrow> int" where
  "schema_version v = (case v of Some (PInt n) \<Rightarrow> n | _ \<Rightarrow> 0)"

text \<open>\<^verbatim>\<open>_migrate_payload\<close> only refuses; the version it adds is not read again.\<close>

definition migrate_payload :: "(ustr \<times> pyval) list \<Rightarrow> dictionary_error + (ustr \<times> pyval) list" where
  "migrate_payload d = (let raw = map_of d (ulit ''schema_version'') in
     if \<not> (case raw of None \<Rightarrow> True | Some PNone \<Rightarrow> True | Some (PInt _) \<Rightarrow> True | _ \<Rightarrow> False) then Inl Invalid_document
     else if 1 < schema_version raw then Inl Invalid_document
     else Inr (if schema_version raw = 0 then AList.update (ulit ''schema_version'') (PInt 1) d else d))"

definition library_of_mapping :: "unicode \<Rightarrow> pyval \<Rightarrow> dictionary_error + library" where
  "library_of_mapping u v = (case v of PDict d \<Rightarrow> (case migrate_payload d of
       Inl e \<Rightarrow> Inl e
     | Inr m \<Rightarrow> (case (get_or m ''dictionary'' (PList []), get_or m ''snippets'' (PList [])) of
         (PList es, PList ss) \<Rightarrow> (case map_err (entry_of_mapping u) es of
            Inl e \<Rightarrow> Inl e
          | Inr entries \<Rightarrow> (case map_err (snippet_of_mapping u) ss of
              Inl e \<Rightarrow> Inl e | Inr snippets \<Rightarrow> make_library u entries snippets))
       | _ \<Rightarrow> Inl Invalid_document))
   | _ \<Rightarrow> Inl Invalid_document)"

definition library_mapping :: "library \<Rightarrow> pyval" where
  "library_mapping l = PDict [(ulit ''schema_version'', PInt 1),
     (ulit ''dictionary'', PList (map entry_mapping (lib_dictionary l))),
     (ulit ''snippets'', PList (map snippet_mapping (lib_snippets l)))]"

section \<open>The repository and the service\<close>

text \<open>
  The file holds a document, or nothing that can be read as JSON. \<open>writable\<close> says whether the atomic
  replacement of the file succeeds; when it does not, the file is as before.
\<close>

definition load_library :: "unicode \<Rightarrow> pyval option \<Rightarrow> library" where
  "load_library u file = (case file of None \<Rightarrow> empty_library
     | Some v \<Rightarrow> (case library_of_mapping u v of Inr l \<Rightarrow> l | Inl _ \<Rightarrow> empty_library))"

definition current_schema :: "pyval option \<Rightarrow> int" where
  "current_schema file = (case file of Some (PDict d) \<Rightarrow> schema_version (map_of d (ulit ''schema_version'')) | _ \<Rightarrow> 0)"

definition save_library :: "bool \<Rightarrow> library \<Rightarrow> pyval option \<Rightarrow> dictionary_error + pyval option" where
  "save_library writable l file =
     (if 1 < current_schema file then Inl Unsupported_schema
      else if \<not> writable then Inl Unwritable
      else Inr (Some (library_mapping l)))"

record dictionary_service =
  ds_file :: "pyval option"
  ds_state :: library

definition new_service :: "unicode \<Rightarrow> nat \<Rightarrow> pyval option \<Rightarrow> dictionary_error + dictionary_service" where
  "new_service u maximum file =
     (if \<not> (1 \<le> maximum \<and> maximum \<le> 1000000) then Inl Bad_argument
      else Inr \<lparr>ds_file = file, ds_state = load_library u file\<rparr>)"

text \<open>Each operation gives its error, if any, and the service after it.\<close>

definition reload_library :: "unicode \<Rightarrow> dictionary_service \<Rightarrow> dictionary_service" where
  "reload_library u d = d\<lparr>ds_state := load_library u (ds_file d)\<rparr>"

definition replace_library :: "bool \<Rightarrow> library \<Rightarrow> dictionary_service \<Rightarrow> dictionary_error option \<times> dictionary_service" where
  "replace_library writable l d = (case save_library writable l (ds_file d) of
     Inl e \<Rightarrow> (Some e, d) | Inr file \<Rightarrow> (None, \<lparr>ds_file = file, ds_state = l\<rparr>))"

text \<open>\<^verbatim>\<open>import_json\<close>; the document is \<open>None\<close> when its bytes are not UTF-8 or not JSON.\<close>

definition import_library :: "unicode \<Rightarrow> bool \<Rightarrow> pyval option \<Rightarrow> dictionary_service \<Rightarrow> dictionary_error option \<times> dictionary_service" where
  "import_library u writable document d = (case document of
     None \<Rightarrow> (Some Invalid_document, d)
   | Some v \<Rightarrow> (case library_of_mapping u v of Inl e \<Rightarrow> (Some e, d) | Inr l \<Rightarrow> replace_library writable l d))"

section \<open>What is saved is loaded\<close>

definition text_ok :: "unicode \<Rightarrow> nat \<Rightarrow> bool \<Rightarrow> bool \<Rightarrow> ustr \<Rightarrow> bool" where
  "text_ok u maximum newlines empty_ok s \<longleftrightarrow> nfc u s = s \<and> (empty_ok \<or> s \<noteq> [] \<and> py_strip s \<noteq> []) \<and> length s \<le> maximum
     \<and> (newlines \<or> 13 \<notin> set s \<and> 10 \<notin> set s)"

definition dictionary_entry_ok :: "unicode \<Rightarrow> dict_entry \<Rightarrow> bool" where
  "dictionary_entry_ok u e \<longleftrightarrow> text_ok u 256 False False (de_term e) \<and> (de_pronunciation e = [] \<or> text_ok u 256 False False (de_pronunciation e))
     \<and> length (de_aliases e) \<le> 32 \<and> list_all (text_ok u 256 False False) (de_aliases e) \<and> distinct (map (casefold u) (de_aliases e))"

definition snippet_ok :: "unicode \<Rightarrow> snippet \<Rightarrow> bool" where
  "snippet_ok u s \<longleftrightarrow> text_ok u 256 False False (sn_trigger s) \<and> text_ok u 4096 True True (sn_replacement s)"

definition library_ok :: "unicode \<Rightarrow> library \<Rightarrow> bool" where
  "library_ok u l \<longleftrightarrow> list_all (dictionary_entry_ok u) (lib_dictionary l) \<and> list_all (snippet_ok u) (lib_snippets l)
     \<and> length (lib_dictionary l) \<le> 512 \<and> length (lib_snippets l) \<le> 512
     \<and> distinct (map (casefold u \<circ> de_term) (lib_dictionary l)) \<and> distinct (map (casefold u \<circ> sn_trigger) (lib_snippets l))"

abbreviation nfc_idem :: "unicode \<Rightarrow> bool" where
  "nfc_idem u \<equiv> \<forall>s. nfc u (nfc u s) = nfc u s"

lemma text_field_ok: "nfc_idem u \<Longrightarrow> text_field u v m nl em = Inr s \<Longrightarrow> text_ok u m nl em s"
  by (auto simp: text_field_def text_ok_def Let_def split: pyval.splits if_splits)

lemma text_field_id: "text_ok u m nl em s \<Longrightarrow> text_field u (PStr s) m nl em = Inr s"
  by (auto simp: text_field_def text_ok_def Let_def)

lemma alias_loop_ok:
  "nfc_idem u \<Longrightarrow> alias_loop u seen vs = Inr as \<Longrightarrow> list_all (text_ok u 256 False False) as
     \<and> distinct (map (casefold u) as) \<and> set (map (casefold u) as) \<inter> set seen = {} \<and> length as = length vs"
proof (induction vs arbitrary: seen as)
  case (Cons v vs)
  then obtain a rest where a: "text_field u v 256 False False = Inr a" "casefold u a \<notin> set seen"
    "alias_loop u (casefold u a # seen) vs = Inr rest" "as = a # rest"
    by (auto split: sum.splits if_splits)
  then show ?case using Cons.IH [OF Cons.prems(1) a(3)] text_field_ok [OF Cons.prems(1) a(1)] by auto
qed auto

lemma alias_loop_id:
  "list_all (text_ok u 256 False False) as \<Longrightarrow> distinct (map (casefold u) as) \<Longrightarrow> set (map (casefold u) as) \<inter> set seen = {} \<Longrightarrow>
     alias_loop u seen (map PStr as) = Inr as"
  by (induction as arbitrary: seen) (auto simp: text_field_id)

lemma entry_of_mapping_ok:
  assumes u: "nfc_idem u" and e: "entry_of_mapping u v = Inr e"
  shows "dictionary_entry_ok u e"
proof -
  obtain t p a en where m: "make_entry u t p a en = Inr e"
    using e by (auto simp: entry_of_mapping_def split: pyval.splits)
  then have "text_field u t 256 False False = Inr (de_term e)" "optional_text u p 256 = Inr (de_pronunciation e)"
    "aliases_field u a = Inr (de_aliases e)" by (auto simp: make_entry_def split: sum.splits)
  then show ?thesis
    using text_field_ok [OF u] alias_loop_ok [OF u]
    by (auto simp: dictionary_entry_ok_def optional_text_def aliases_field_def split: if_splits pyval.splits)
qed

lemma snippet_of_mapping_ok:
  assumes u: "nfc_idem u" and e: "snippet_of_mapping u v = Inr s"
  shows "snippet_ok u s"
proof -
  obtain t r en c where m: "make_snippet u t r en c = Inr s"
    using e by (auto simp: snippet_of_mapping_def split: pyval.splits)
  then have "text_field u t 256 False False = Inr (sn_trigger s)" "text_field u r 4096 True True = Inr (sn_replacement s)"
    by (auto simp: make_snippet_def split: sum.splits)
  then show ?thesis using text_field_ok [OF u] by (auto simp: snippet_ok_def)
qed

lemma entry_roundtrip: "dictionary_entry_ok u e \<Longrightarrow> entry_of_mapping u (entry_mapping e) = Inr e"
  by (auto simp: entry_of_mapping_def entry_mapping_def get_or_def ulit_def make_entry_def dictionary_entry_ok_def text_field_id
      optional_text_def aliases_field_def alias_loop_id enabled_field_def)

lemma snippet_roundtrip: "snippet_ok u s \<Longrightarrow> snippet_of_mapping u (snippet_mapping s) = Inr s"
  by (auto simp: snippet_of_mapping_def snippet_mapping_def get_or_def ulit_def make_snippet_def snippet_ok_def text_field_id
      enabled_field_def)

lemma library_of_mapping_ok:
  assumes u: "nfc_idem u" and l: "library_of_mapping u v = Inr l"
  shows "library_ok u l"
proof -
  obtain es ss where p: "map_err (entry_of_mapping u) es = Inr (lib_dictionary l)" "map_err (snippet_of_mapping u) ss = Inr (lib_snippets l)"
    and m: "make_library u (lib_dictionary l) (lib_snippets l) = Inr l"
    using l by (auto simp: library_of_mapping_def make_library_def split: pyval.splits sum.splits if_splits)
  have "list_all (dictionary_entry_ok u) (lib_dictionary l)" "list_all (snippet_ok u) (lib_snippets l)"
    using map_err_set [OF p(1)] map_err_set [OF p(2)] entry_of_mapping_ok [OF u] snippet_of_mapping_ok [OF u]
    unfolding list_all_iff by blast+
  then show ?thesis using m by (auto simp: library_ok_def make_library_def split: if_splits)
qed

lemma library_roundtrip: "library_ok u l \<Longrightarrow> library_of_mapping u (library_mapping l) = Inr l"
  by (simp add: library_of_mapping_def library_mapping_def migrate_payload_def schema_version_def Let_def get_or_def ulit_def
      map_err_map entry_roundtrip snippet_roundtrip list_all_iff library_ok_def make_library_def)

text \<open>\<^verbatim>\<open>account_snippet_entries\<close>: the snippets of an account, within its transport limit.\<close>

definition account_snippet_entries :: "unicode \<Rightarrow> (rat \<Rightarrow> ustr) \<Rightarrow> snippet list \<Rightarrow> dictionary_error + pyval list" where
  "account_snippet_entries u frepr ss = (case make_library u [] ss of Inl e \<Rightarrow> Inl e
     | Inr l \<Rightarrow> let entries = map snippet_mapping (lib_snippets l) in
         (case compact_size frepr (PList entries) of
            None \<Rightarrow> Inl Invalid_document
          | Some n \<Rightarrow> if 262144 < n then Inl Invalid_document else Inr entries))"

section \<open>Properties\<close>

text \<open>
  C28. The file is never behind the service. An import that is refused, for its form, its limits, a newer
  schema on disk or a failed write, changes neither the file nor the state; after one that succeeds,
  loading the file again gives exactly the state in memory.
\<close>

theorem import_all_or_nothing:
  assumes "\<forall>s. nfc u (nfc u s) = nfc u s" "import_library u writable document d = (e, d')"
  shows "if e = None then reload_library u d' = d' else d' = d"
proof (cases e)
  case None
  then obtain v l where l: "library_of_mapping u v = Inr l" "d' = \<lparr>ds_file = Some (library_mapping l), ds_state = l\<rparr>"
    using assms(2) by (auto simp: import_library_def replace_library_def save_library_def split: option.splits sum.splits if_splits)
  have "library_ok u l" by (rule library_of_mapping_ok [OF assms(1) l(1)])
  then show ?thesis using None l(2) by (simp add: reload_library_def load_library_def library_roundtrip)
next
  case (Some x)
  then show ?thesis using assms(2)
    by (auto simp: import_library_def replace_library_def split: option.splits sum.splits)
qed

definition ascii_unicode :: unicode where
  "ascii_unicode = \<lparr>nfc = \<lambda>s. s, casefold = map (\<lambda>c. if 65 \<le> c \<and> c \<le> 90 then c + 32 else c), is_alnum = ascii_alnum,
     is_mark = \<lambda>_. False, is_punct = \<lambda>c. c = 44 \<or> c = 46\<rparr>"

definition demo_entry :: dict_entry where
  "demo_entry = \<lparr>de_term = ulit ''Ab'', de_pronunciation = [], de_aliases = [], de_enabled = True\<rparr>"

theorem import_all_or_nothing_witness:
  "reload_library ascii_unicode \<lparr>ds_file = Some (library_mapping \<lparr>lib_dictionary = [demo_entry], lib_snippets = []\<rparr>),
       ds_state = \<lparr>lib_dictionary = [demo_entry], lib_snippets = []\<rparr>\<rparr>
     = \<lparr>ds_file = Some (library_mapping \<lparr>lib_dictionary = [demo_entry], lib_snippets = []\<rparr>),
       ds_state = \<lparr>lib_dictionary = [demo_entry], lib_snippets = []\<rparr>\<rparr>"
proof -
  let ?l = "\<lparr>lib_dictionary = [demo_entry], lib_snippets = []\<rparr>"
  have "library_ok ascii_unicode ?l"
    by (simp add: library_ok_def dictionary_entry_ok_def text_ok_def demo_entry_def ascii_unicode_def ulit_def py_strip_def py_space_def)
  then have "import_library ascii_unicode True (Some (library_mapping ?l)) \<lparr>ds_file = None, ds_state = empty_library\<rparr>
      = (None, \<lparr>ds_file = Some (library_mapping ?l), ds_state = ?l\<rparr>)"
    by (simp add: import_library_def library_roundtrip replace_library_def save_library_def current_schema_def)
  from import_all_or_nothing [OF _ this] show ?thesis by (simp add: ascii_unicode_def)
qed


end
