(* ===== verification/Snippet_Expansion.thy ===== *)
theory Snippet_Expansion
  imports Dictionary
begin

text \<open>
  Snippet expansion and vocabulary contexts of \<^verbatim>\<open>dictionary_snippets.py\<close>. The text is matched in its
  canonical form, by walking a trie of the enabled triggers; each match is mapped back to whole
  clusters of the original text.
\<close>

section \<open>Rules in order\<close>

type_synonym rule = "nat \<times> snippet"

text \<open>Longest folded trigger first, then the order of the list.\<close>

definition rule_key :: "unicode \<Rightarrow> rule \<Rightarrow> int \<times> nat" where
  "rule_key u r = (- int (length (casefold u (sn_trigger (snd r)))), fst r)"

definition active_snippets :: "unicode \<Rightarrow> snippet list \<Rightarrow> rule list" where
  "active_snippets u ss = sort_key (rule_key u) (filter (sn_enabled \<circ> snd) (enumerate 0 ss))"

definition trigger_of :: "unicode \<Rightarrow> bool \<Rightarrow> snippet \<Rightarrow> ustr" where
  "trigger_of u case_sensitive s = (if case_sensitive then sn_trigger s else casefold u (sn_trigger s))"

section \<open>A trigger spoken alone\<close>

definition spoken_key :: "unicode \<Rightarrow> bool \<Rightarrow> ustr \<Rightarrow> ustr" where
  "spoken_key u case_sensitive v =
     filter (\<lambda>c. \<not> py_space c \<and> \<not> is_punct u c) (if case_sensitive then nfc u v else casefold u (nfc u v))"

fun spoken_loop :: "unicode \<Rightarrow> nat \<Rightarrow> ustr \<Rightarrow> rule list \<Rightarrow> dictionary_error + ustr option" where
  "spoken_loop u maximum text [] = Inr None"
| "spoken_loop u maximum text ((i, s) # rs) =
     (let key = spoken_key u (sn_case s) (sn_trigger s) in
      if key \<noteq> [] \<and> key = spoken_key u (sn_case s) text then
        (if maximum < length (sn_replacement s) then Inl Too_long else Inr (Some (sn_replacement s)))
      else spoken_loop u maximum text rs)"

definition expand_spoken :: "unicode \<Rightarrow> nat \<Rightarrow> library \<Rightarrow> ustr \<Rightarrow> dictionary_error + ustr option" where
  "expand_spoken u maximum l text =
     (if maximum < length text then Inl Too_long
      else spoken_loop u maximum text (active_snippets u (lib_snippets l)))"

section \<open>The trie of triggers\<close>

datatype trie = Node (trie_children: "(nat \<times> trie) list") (trie_rules: "rule list")

definition empty_trie :: trie where
  "empty_trie = Node [] []"

definition trie_child :: "trie \<Rightarrow> nat \<Rightarrow> trie" where
  "trie_child t c = (case map_of (trie_children t) c of Some x \<Rightarrow> x | None \<Rightarrow> empty_trie)"

fun trie_insert :: "ustr \<Rightarrow> rule \<Rightarrow> trie \<Rightarrow> trie" where
  "trie_insert [] r t = Node (trie_children t) (trie_rules t @ [r])"
| "trie_insert (c # cs) r t = Node (AList.update c (trie_insert cs r (trie_child t c)) (trie_children t)) (trie_rules t)"

primrec sort_trie :: "unicode \<Rightarrow> trie \<Rightarrow> trie" where
  "sort_trie u (Node ch rs) = Node (map (map_prod id (sort_trie u)) ch) (sort_key (rule_key u) rs)"

definition build_trie :: "unicode \<Rightarrow> bool \<Rightarrow> rule list \<Rightarrow> trie" where
  "build_trie u case_sensitive rs = sort_trie u
     (foldl (\<lambda>t r. if \<not> sn_enabled (snd r) \<or> sn_case (snd r) \<noteq> case_sensitive then t
                   else trie_insert (trigger_of u case_sensitive (snd r)) r t) empty_trie rs)"

section \<open>Canonical text\<close>

record canonical =
  ct_value :: ustr
  ct_start :: "nat list"
  ct_ends :: "nat list"
  ct_cluster_starts :: "bool list"
  ct_boundaries :: "bool list"

text \<open>How many characters after \<open>raw\<close> still belong to its cluster.\<close>

fun cluster_more :: "unicode \<Rightarrow> ustr \<Rightarrow> ustr \<Rightarrow> nat" where
  "cluster_more u raw [] = 0"
| "cluster_more u raw (c # cs) =
     (if is_mark u c then Suc (cluster_more u (raw @ [c]) cs)
      else if nfc u (raw @ [c]) = nfc u raw @ nfc u [c] then 0
      else Suc (cluster_more u (raw @ [c]) cs))"

definition cluster_len :: "unicode \<Rightarrow> ustr \<Rightarrow> nat" where
  "cluster_len u text = Suc (cluster_more u (take 1 text) (drop 1 text))"

text \<open>The loop over the clusters; \<open>i\<close> is the original index and \<open>n\<close> the normalized one.\<close>

function canonical_loop :: "unicode \<Rightarrow> bool \<Rightarrow> nat \<Rightarrow> nat \<Rightarrow> ustr \<Rightarrow> canonical \<Rightarrow> canonical" where
  "canonical_loop u fld i n text ct =
     (if text = [] then ct\<lparr>ct_start := ct_start ct @ [n], ct_cluster_starts := ct_cluster_starts ct @ [False]\<rparr>
      else
        let k = cluster_len u text;
            cluster = (if fld then casefold u (nfc u (take k text)) else nfc u (take k text));
            m = length cluster
        in canonical_loop u fld (i + k) (n + m) (drop k text)
          \<lparr>ct_value = ct_value ct @ cluster, ct_start = ct_start ct @ replicate k n,
           ct_ends = ct_ends ct @ replicate m (i + k),
           ct_cluster_starts = ct_cluster_starts ct @ True # replicate (k - 1) False,
           ct_boundaries = (ct_boundaries ct @ replicate m False)[n + m := True]\<rparr>)"
  by pat_completeness auto
termination
  by (relation "measure (\<lambda>(u, fld, i, n, text, ct). length text)") (auto simp: cluster_len_def)

declare canonical_loop.simps [simp del]

definition canonical_text :: "unicode \<Rightarrow> bool \<Rightarrow> ustr \<Rightarrow> canonical" where
  "canonical_text u fld text = canonical_loop u fld 0 0 text
     \<lparr>ct_value = [], ct_start = [], ct_ends = [], ct_cluster_starts = [], ct_boundaries = [False]\<rparr>"

section \<open>Matching at one position\<close>

definition word_char :: "unicode \<Rightarrow> nat \<Rightarrow> bool" where
  "word_char u c \<longleftrightarrow> c = 95 \<or> is_alnum u c"

definition word_boundaries :: "unicode \<Rightarrow> ustr \<Rightarrow> nat \<Rightarrow> nat \<Rightarrow> bool" where
  "word_boundaries u text s e \<longleftrightarrow> (s = 0 \<or> \<not> word_char u (text ! (s - 1))) \<and> (length text \<le> e \<or> \<not> word_char u (text ! e))"

type_synonym match = "nat \<times> nat \<times> snippet"

text \<open>The walk from a normalized position; \<open>ok\<close> is the test of the end and \<open>end_of\<close> its original index.\<close>

fun trie_walk :: "(nat \<Rightarrow> bool) \<Rightarrow> (nat \<Rightarrow> nat) \<Rightarrow> trie \<Rightarrow> nat \<Rightarrow> ustr \<Rightarrow> match list" where
  "trie_walk ok end_of t cursor [] = []"
| "trie_walk ok end_of t cursor (c # cs) = (case map_of (trie_children t) c of
     None \<Rightarrow> []
   | Some t' \<Rightarrow>
       (if ok (cursor + 1) then map (\<lambda>(i, s). (i, end_of (cursor + 1), s)) (trie_rules t') else [])
       @ trie_walk ok end_of t' (cursor + 1) cs)"

definition end_ok :: "unicode \<Rightarrow> ustr \<Rightarrow> canonical \<Rightarrow> nat \<Rightarrow> nat \<Rightarrow> bool" where
  "end_ok u text ct index cursor \<longleftrightarrow> ct_boundaries ct ! cursor \<and> word_boundaries u text index (ct_ends ct ! (cursor - 1))"

definition mode_matches :: "unicode \<Rightarrow> ustr \<Rightarrow> canonical \<Rightarrow> trie \<Rightarrow> nat \<Rightarrow> match list" where
  "mode_matches u text ct t index =
     (if \<not> ct_cluster_starts ct ! index then []
      else trie_walk (end_ok u text ct index) (\<lambda>cursor. ct_ends ct ! (cursor - 1)) t (ct_start ct ! index)
             (drop (ct_start ct ! index) (ct_value ct)))"

definition match_key :: "unicode \<Rightarrow> match \<Rightarrow> int \<times> nat" where
  "match_key u m = rule_key u (fst m, snd (snd m))"

definition best_match :: "unicode \<Rightarrow> match list \<Rightarrow> match option" where
  "best_match u ms = (if ms = [] then None else Some (hd (sort_key (match_key u) ms)))"

section \<open>Expansion\<close>

definition modes :: "rule list \<Rightarrow> bool list" where
  "modes rs = filter (\<lambda>m. \<exists>r \<in> set rs. sn_case (snd r) = m) [False, True]"

text \<open>
  The loop over the text, with the function that finds the matches at an index. \<open>None\<close> would be a loop
  that does not end.
\<close>

partial_function (option) expand_loop ::
  "nat \<Rightarrow> (nat \<Rightarrow> match option) \<Rightarrow> ustr \<Rightarrow> nat \<Rightarrow> nat \<Rightarrow> ustr \<Rightarrow> (dictionary_error + ustr) option" where
  "expand_loop maximum look text index out_len out =
     (if length text \<le> index then Some (Inr out)
      else (case look index of
        None \<Rightarrow> if maximum < out_len + 1 then Some (Inl Too_long)
          else expand_loop maximum look text (index + 1) (out_len + 1) (out @ [text ! index])
      | Some (i, e, s) \<Rightarrow> if maximum < out_len + length (sn_replacement s) then Some (Inl Too_long)
          else expand_loop maximum look text (index + (e - index)) (out_len + length (sn_replacement s)) (out @ sn_replacement s)))"

definition trie_matches :: "unicode \<Rightarrow> ustr \<Rightarrow> rule list \<Rightarrow> nat \<Rightarrow> match list" where
  "trie_matches u text rs index = concat (map (\<lambda>m. mode_matches u text (canonical_text u (\<not> m) text) (build_trie u m rs) index) (modes rs))"

definition expand :: "unicode \<Rightarrow> nat \<Rightarrow> library \<Rightarrow> ustr \<Rightarrow> (dictionary_error + ustr) option" where
  "expand u maximum l text =
     (if maximum < length text then Some (Inl Too_long)
      else let rs = active_snippets u (lib_snippets l) in
        if rs = [] \<or> text = [] then Some (Inr text)
        else (case spoken_loop u maximum text rs of
          Inl e \<Rightarrow> Some (Inl e)
        | Inr (Some r) \<Rightarrow> Some (Inr r)
        | Inr None \<Rightarrow> expand_loop maximum (\<lambda>index. best_match u (trie_matches u text rs index)) text 0 0 []))"

section \<open>The reference: a linear scan of the rules\<close>

definition linear_mode :: "unicode \<Rightarrow> ustr \<Rightarrow> canonical \<Rightarrow> bool \<Rightarrow> rule list \<Rightarrow> nat \<Rightarrow> match list" where
  "linear_mode u text ct m rs index =
     (if \<not> ct_cluster_starts ct ! index then []
      else let start = ct_start ct ! index; rest = drop start (ct_value ct) in
        map (\<lambda>(i, s). (i, ct_ends ct ! (start + length (trigger_of u m s) - 1), s))
          (filter (\<lambda>(i, s). sn_enabled s \<and> sn_case s = m \<and> trigger_of u m s \<noteq> []
             \<and> take (length (trigger_of u m s)) rest = trigger_of u m s
             \<and> end_ok u text ct index (start + length (trigger_of u m s))) rs))"

definition linear_matches :: "unicode \<Rightarrow> ustr \<Rightarrow> rule list \<Rightarrow> nat \<Rightarrow> match list" where
  "linear_matches u text rs index = concat (map (\<lambda>m. linear_mode u text (canonical_text u (\<not> m) text) m rs index) (modes rs))"

fun trie_lookup :: "ustr \<Rightarrow> trie \<Rightarrow> rule list" where
  "trie_lookup [] t = trie_rules t"
| "trie_lookup (c # cs) t = trie_lookup cs (trie_child t c)"

lemma lookup_empty [simp]: "trie_lookup p empty_trie = []"
  by (induction p) (simp_all add: empty_trie_def trie_child_def)

lemma lookup_insert: "trie_lookup p (trie_insert k r t) = trie_lookup p t @ (if p = k then [r] else [])"
proof (induction k arbitrary: p t)
  case Nil
  show ?case by (cases p) (simp_all add: trie_child_def)
next
  case (Cons c cs)
  show ?case
  proof (cases p)
    case (Cons d ds)
    have "trie_child (trie_insert (c # cs) r t) d = (if d = c then trie_insert cs r (trie_child t c) else trie_child t d)"
      by (simp add: trie_child_def update_conv)
    then show ?thesis using Cons Cons.IH by simp
  qed simp
qed

lemma child_sort: "trie_child (sort_trie u t) c = sort_trie u (trie_child t c)"
proof (cases t)
  case (Node ch rs)
  have "map_of (map (map_prod id (sort_trie u)) ch) c = map_option (sort_trie u) (map_of ch c)"
    by (induction ch) auto
  then show ?thesis by (simp add: Node trie_child_def empty_trie_def split: option.split)
qed

lemma lookup_sort: "trie_lookup p (sort_trie u t) = sort_key (rule_key u) (trie_lookup p t)"
  by (induction p arbitrary: t) (simp_all add: child_sort, metis sort_trie.simps trie.collapse trie.sel(2))

lemma lookup_build:
  "set (trie_lookup p (build_trie u m rs)) = {r \<in> set rs. sn_enabled (snd r) \<and> sn_case (snd r) = m \<and> trigger_of u m (snd r) = p}"
proof -
  have "set (trie_lookup p (foldl (\<lambda>t r. if \<not> sn_enabled (snd r) \<or> sn_case (snd r) \<noteq> m then t
                   else trie_insert (trigger_of u m (snd r)) r t) empty_trie rs))
      = {r \<in> set rs. sn_enabled (snd r) \<and> sn_case (snd r) = m \<and> trigger_of u m (snd r) = p}"
    by (induction rs rule: rev_induct) (auto simp: lookup_insert)
  then show ?thesis by (simp add: build_trie_def lookup_sort)
qed

lemma walk_iff:
  "x \<in> set (trie_walk ok e t cursor cs) \<longleftrightarrow>
     (\<exists>k. 0 < k \<and> k \<le> length cs \<and> ok (cursor + k) \<and> (fst x, snd (snd x)) \<in> set (trie_lookup (take k cs) t) \<and> fst (snd x) = e (cursor + k))"
proof (induction cs arbitrary: t cursor)
  case (Cons c cs)
  have split: "(\<exists>k. 0 < k \<and> k \<le> length (c # cs) \<and> ok (cursor + k) \<and> (fst x, snd (snd x)) \<in> set (trie_lookup (take k (c # cs)) t) \<and> fst (snd x) = e (cursor + k))
      \<longleftrightarrow> (ok (cursor + 1) \<and> (fst x, snd (snd x)) \<in> set (trie_rules (trie_child t c)) \<and> fst (snd x) = e (cursor + 1))
        \<or> (\<exists>k. 0 < k \<and> k \<le> length cs \<and> ok (cursor + 1 + k) \<and> (fst x, snd (snd x)) \<in> set (trie_lookup (take k cs) (trie_child t c)) \<and> fst (snd x) = e (cursor + 1 + k))"
    (is "?l \<longleftrightarrow> ?one \<or> ?more")
  proof
    assume ?l
    then obtain k where k: "0 < k" "k \<le> length (c # cs)" "ok (cursor + k)"
      "(fst x, snd (snd x)) \<in> set (trie_lookup (take k (c # cs)) t)" "fst (snd x) = e (cursor + k)" by blast
    then obtain j where j: "k = Suc j" by (cases k) auto
    show "?one \<or> ?more"
    proof (cases j)
      case 0
      then show ?thesis using k j by simp
    next
      case (Suc i)
      then have ?more using k j by (intro exI [of _ j]) simp
      then show ?thesis ..
    qed
  next
    assume "?one \<or> ?more"
    then show ?l
    proof
      assume ?one
      then show ?l by (intro exI [of _ 1]) simp
    next
      assume ?more
      then obtain k where "0 < k \<and> k \<le> length cs \<and> ok (cursor + 1 + k) \<and> (fst x, snd (snd x)) \<in> set (trie_lookup (take k cs) (trie_child t c))
        \<and> fst (snd x) = e (cursor + 1 + k)" ..
      then show ?l by (intro exI [of _ "Suc k"]) simp
    qed
  qed
  show ?case
  proof (cases "map_of (trie_children t) c")
    case None
    then have "trie_child t c = empty_trie" by (simp add: trie_child_def)
    then show ?thesis using None unfolding split by (simp add: empty_trie_def [symmetric]) (simp add: empty_trie_def)
  next
    case (Some t')
    then have "trie_child t c = t'" by (simp add: trie_child_def)
    then show ?thesis using Some Cons.IH [of t' "cursor + 1"] unfolding split by (cases x) auto
  qed
qed simp

lemma mode_iff:
  "set (mode_matches u text ct (build_trie u m rs) index) = set (linear_mode u text ct m rs index)"
proof (cases "ct_cluster_starts ct ! index")
  case True
  let ?st = "ct_start ct ! index" let ?v = "drop ?st (ct_value ct)"
  show ?thesis
  proof (intro set_eqI iffI)
    fix x assume "x \<in> set (mode_matches u text ct (build_trie u m rs) index)"
    then obtain k where k: "0 < k" "k \<le> length ?v" "end_ok u text ct index (?st + k)"
      "(fst x, snd (snd x)) \<in> set rs" "sn_enabled (snd (snd x))" "sn_case (snd (snd x)) = m"
      "trigger_of u m (snd (snd x)) = take k ?v" "fst (snd x) = ct_ends ct ! (?st + k - 1)"
      using True unfolding mode_matches_def by (auto simp: walk_iff lookup_build)
    then have len: "length (trigger_of u m (snd (snd x))) = k" by simp
    obtain i e s where x: "x = (i, e, s)" by (cases x)
    have "k \<noteq> 0" "take k ?v \<noteq> []" using k(1,2) by auto
    then show "x \<in> set (linear_mode u text ct m rs index)"
      using True k len unfolding x linear_mode_def Let_def
      by (simp add: image_iff)
  next
    fix x assume "x \<in> set (linear_mode u text ct m rs index)"
    then obtain i s where hit: "(i, s) \<in> set rs" "sn_enabled s" "sn_case s = m" "trigger_of u m s \<noteq> []"
      "take (length (trigger_of u m s)) ?v = trigger_of u m s" "end_ok u text ct index (?st + length (trigger_of u m s))"
      "x = (i, ct_ends ct ! (?st + length (trigger_of u m s) - 1), s)"
      using True by (auto simp: linear_mode_def Let_def)
    have "length (trigger_of u m s) \<le> length ?v" using hit(5) by (metis length_take min.cobounded1)
    then show "x \<in> set (mode_matches u text ct (build_trie u m rs) index)"
      using True hit by (simp add: mode_matches_def walk_iff lookup_build) (rule exI [of _ "length (trigger_of u m s)"], simp)
  qed
qed (simp add: mode_matches_def linear_mode_def)

lemma matches_same: "set (trie_matches u text rs index) = set (linear_matches u text rs index)"
  by (simp add: trie_matches_def linear_matches_def mode_iff)

lemma hd_sort_key:
  assumes "set xs = set ys" "inj_on f (set xs)" "xs \<noteq> []"
  shows "hd (sort_key f xs) = hd (sort_key f ys)"
proof -
  have m: "zs \<noteq> [] \<Longrightarrow> hd (sort_key f zs) \<in> set zs \<and> (\<forall>z \<in> set zs. f (hd (sort_key f zs)) \<le> f z)" for zs
  proof -
    assume "zs \<noteq> []"
    then have "sort_key f zs \<noteq> []" by (metis length_0_conv length_sort)
    then obtain a as where a: "sort_key f zs = a # as" by (cases "sort_key f zs") auto
    have "sorted (map f (sort_key f zs))" by simp
    then have "\<forall>z \<in> set (a # as). f a \<le> f z" unfolding a by auto
    moreover have "set (a # as) = set zs" using a by (metis set_sort)
    ultimately show ?thesis using a by auto
  qed
  have "ys \<noteq> []" using assms(1,3) by auto
  with m [OF assms(3)] m [of ys] have "f (hd (sort_key f xs)) = f (hd (sort_key f ys))" using assms(1) by (auto intro: antisym)
  then show ?thesis using assms(1,2) m [OF assms(3)] m [OF \<open>ys \<noteq> []\<close>] by (auto dest: inj_onD)
qed

lemma linear_inj:
  assumes "distinct (map fst rs)"
  shows "inj_on (match_key u) (set (linear_matches u text rs index))"
proof (rule inj_onI)
  fix x y assume x: "x \<in> set (linear_matches u text rs index)" and y: "y \<in> set (linear_matches u text rs index)"
    and eq: "match_key u x = match_key u y"
  have shape: "\<exists>i s. z = (i, ct_ends (canonical_text u (\<not> sn_case s) text)
        ! (ct_start (canonical_text u (\<not> sn_case s) text) ! index + length (trigger_of u (sn_case s) s) - 1), s) \<and> (i, s) \<in> set rs"
    if "z \<in> set (linear_matches u text rs index)" for z
    using that by (auto simp: linear_matches_def linear_mode_def Let_def split: if_splits)
  obtain i s j t where xy: "(i, s) \<in> set rs" "(j, t) \<in> set rs" "fst x = i" "fst y = j"
    "x = (i, ct_ends (canonical_text u (\<not> sn_case s) text) ! (ct_start (canonical_text u (\<not> sn_case s) text) ! index + length (trigger_of u (sn_case s) s) - 1), s)"
    "y = (j, ct_ends (canonical_text u (\<not> sn_case t) text) ! (ct_start (canonical_text u (\<not> sn_case t) text) ! index + length (trigger_of u (sn_case t) t) - 1), t)"
    using shape [OF x] shape [OF y] by auto
  have "i = j" using eq xy(3,4) by (simp add: match_key_def rule_key_def)
  then have "s = t" using xy(1,2) assms by (metis eq_key_imp_eq_value)
  then show "x = y" using xy(5,6) \<open>i = j\<close> by simp
qed

lemma best_match_same:
  assumes "distinct (map fst rs)"
  shows "best_match u (trie_matches u text rs index) = best_match u (linear_matches u text rs index)"
proof -
  have s: "set (trie_matches u text rs index) = set (linear_matches u text rs index)" by (rule matches_same)
  then have e: "trie_matches u text rs index = [] \<longleftrightarrow> linear_matches u text rs index = []" by (metis set_empty)
  show ?thesis
    using e hd_sort_key [OF s] linear_inj [OF assms, of u "text" index] s by (auto simp: best_match_def)
qed

lemma active_distinct: "distinct (map fst (active_snippets u ss))"
proof -
  have "distinct (map fst (filter P (enumerate 0 ss)))" for P by (rule distinct_map_filter) simp
  then show ?thesis unfolding active_snippets_def by (simp add: distinct_map)
qed

section \<open>The expansion ends and is bounded\<close>

definition ends_after :: "canonical \<Rightarrow> nat \<Rightarrow> nat \<Rightarrow> bool" where
  "ends_after ct i n \<longleftrightarrow> length (ct_start ct) = i \<and> length (ct_ends ct) = n \<and> length (ct_value ct) = n
     \<and> (\<forall>j < i. ct_start ct ! j \<le> n \<and> (\<forall>p. ct_start ct ! j \<le> p \<and> p < n \<longrightarrow> j < ct_ends ct ! p))"

lemma ends_after_step:
  assumes "ends_after ct i n" "0 < k"
  shows "ends_after \<lparr>ct_value = ct_value ct @ cluster, ct_start = ct_start ct @ replicate k n,
           ct_ends = ct_ends ct @ replicate (length cluster) (i + k), ct_cluster_starts = a, ct_boundaries = b\<rparr> (i + k) (n + length cluster)"
  using assms by (auto simp: ends_after_def nth_append)

lemma cluster_more_le: "cluster_more u raw cs \<le> length cs"
  by (induction u raw cs rule: cluster_more.induct) auto

lemma cluster_len_le: "text \<noteq> [] \<Longrightarrow> cluster_len u text \<le> length text"
  using cluster_more_le [of u "take 1 text" "drop 1 text"] by (cases "text") (auto simp: cluster_len_def)

lemma canonical_loop_ends:
  "ends_after ct i n \<Longrightarrow> \<exists>n'. ends_after (canonical_loop u fld i n text ct\<lparr>ct_start := butlast (ct_start (canonical_loop u fld i n text ct))\<rparr>)
     (i + length text) n' \<and> length (ct_start (canonical_loop u fld i n text ct)) = Suc (i + length text)"
proof (induction u fld i n "text" ct rule: canonical_loop.induct)
  case (1 u fld i n "text" ct)
  show ?case
  proof (cases "text = []")
    case True
    have "canonical_loop u fld i n text ct = ct\<lparr>ct_start := ct_start ct @ [n], ct_cluster_starts := ct_cluster_starts ct @ [False]\<rparr>"
      by (subst canonical_loop.simps) (simp add: True)
    then show ?thesis using 1(2) True by (auto simp: ends_after_def)
  next
    case False
    define k where "k = cluster_len u text"
    define cluster where "cluster = (if fld then casefold u (nfc u (take k text)) else nfc u (take k text))"
    define ct' where "ct' = \<lparr>ct_value = ct_value ct @ cluster, ct_start = ct_start ct @ replicate k n,
           ct_ends = ct_ends ct @ replicate (length cluster) (i + k),
           ct_cluster_starts = ct_cluster_starts ct @ True # replicate (k - 1) False,
           ct_boundaries = (ct_boundaries ct @ replicate (length cluster) False)[n + length cluster := True]\<rparr>"
    have eq: "canonical_loop u fld i n text ct = canonical_loop u fld (i + k) (n + length cluster) (drop k text) ct'"
      by (subst canonical_loop.simps) (simp add: False Let_def k_def cluster_def ct'_def)
    have e: "ends_after ct' (i + k) (n + length cluster)"
      unfolding ct'_def by (rule ends_after_step [OF 1(2)]) (simp add: k_def cluster_len_def)
    have ks: "k \<le> length text" using cluster_len_le [OF False] by (simp add: k_def)
    have "\<exists>n'. ends_after (canonical_loop u fld (i + k) (n + length cluster) (drop k text) ct'
        \<lparr>ct_start := butlast (ct_start (canonical_loop u fld (i + k) (n + length cluster) (drop k text) ct'))\<rparr>) (i + k + length (drop k text)) n'
        \<and> length (ct_start (canonical_loop u fld (i + k) (n + length cluster) (drop k text) ct')) = Suc (i + k + length (drop k text))"
      unfolding ct'_def k_def cluster_def using e unfolding ct'_def k_def cluster_def
      by (intro 1(1) [OF False refl refl refl])
    then show ?thesis unfolding eq using ks by simp
  qed
qed

lemma canonical_ends:
  assumes "index < length text" "ct_start (canonical_text u fld text) ! index \<le> p" "p < length (ct_value (canonical_text u fld text))"
  shows "index < ct_ends (canonical_text u fld text) ! p"
proof -
  let ?ct0 = "\<lparr>ct_value = [], ct_start = [], ct_ends = [], ct_cluster_starts = [], ct_boundaries = [False]\<rparr>"
  have "ends_after ?ct0 0 0" by (simp add: ends_after_def)
  from canonical_loop_ends [OF this, of u fld "text"] obtain n where
    n: "ends_after (canonical_text u fld text\<lparr>ct_start := butlast (ct_start (canonical_text u fld text))\<rparr>) (length text) n"
    "length (ct_start (canonical_text u fld text)) = Suc (length text)"
    by (auto simp: canonical_text_def)
  then have "butlast (ct_start (canonical_text u fld text)) ! index = ct_start (canonical_text u fld text) ! index"
    using assms(1) by (simp add: nth_butlast)
  then show ?thesis using n assms by (auto simp: ends_after_def)
qed

lemma linear_after:
  assumes "m \<in> set (linear_matches u text rs index)" "index < length text"
  shows "index < fst (snd m)"
proof -
  obtain mode i s where l: "\<not> \<not> ct_cluster_starts (canonical_text u (\<not> mode) text) ! index" "trigger_of u mode s \<noteq> []"
    "take (length (trigger_of u mode s)) (drop (ct_start (canonical_text u (\<not> mode) text) ! index) (ct_value (canonical_text u (\<not> mode) text)))
      = trigger_of u mode s"
    "m = (i, ct_ends (canonical_text u (\<not> mode) text) ! (ct_start (canonical_text u (\<not> mode) text) ! index + length (trigger_of u mode s) - 1), s)"
    using assms(1) by (auto simp: linear_matches_def linear_mode_def Let_def split: if_splits)
  let ?ct = "canonical_text u (\<not> mode) text" let ?k = "length (trigger_of u mode s)"
  have "?k \<le> length (drop (ct_start ?ct ! index) (ct_value ?ct))" using l(3) by (metis length_take min.cobounded1)
  moreover obtain k where k: "?k = Suc k" using l(2) by (cases "trigger_of u mode s") auto
  ultimately have "ct_start ?ct ! index \<le> ct_start ?ct ! index + ?k - 1" "ct_start ?ct ! index + ?k - 1 < length (ct_value ?ct)"
    unfolding k length_drop by simp_all
  from canonical_ends [OF assms(2) this] show ?thesis by (simp add: l(4))
qed

lemma best_match_in: "best_match u ms = Some m \<Longrightarrow> m \<in> set ms"
proof -
  assume a: "best_match u ms = Some m"
  then have "ms \<noteq> []" "m = hd (sort_key (match_key u) ms)" by (auto simp: best_match_def split: if_splits)
  moreover from this have "sort_key (match_key u) ms \<noteq> []" by (metis length_0_conv length_sort)
  ultimately show ?thesis by (metis hd_in_set set_sort)
qed

lemma best_match_after:
  "best_match u (trie_matches u text rs index) = Some (i, e, s) \<Longrightarrow> index < length text \<Longrightarrow> index < e"
  using best_match_in [of u "trie_matches u text rs index" "(i, e, s)"] linear_after [of "(i, e, s)" u "text" rs index] matches_same
  by fastforce

definition bounded_result :: "nat \<Rightarrow> dictionary_error + ustr \<Rightarrow> bool" where
  "bounded_result maximum r \<longleftrightarrow> (case r of Inr out \<Rightarrow> length out \<le> maximum | Inl e \<Rightarrow> e = Too_long)"

lemma expand_loop_total:
  assumes "\<forall>index < length text. \<forall>i e s. look index = Some (i, e, s) \<longrightarrow> index < e" "length out = out_len" "out_len \<le> maximum"
  shows "\<exists>r. expand_loop maximum look text index out_len out = Some r \<and> bounded_result maximum r"
  using assms(2,3)
proof (induction "length text - index" arbitrary: index out_len out rule: less_induct)
  case less
  show ?case
  proof (cases "length text \<le> index")
    case True
    then show ?thesis using less.prems by (subst expand_loop.simps) (simp add: bounded_result_def)
  next
    case False
    show ?thesis
    proof (cases "look index")
      case None
      show ?thesis
      proof (cases "maximum < out_len + 1")
        case True
        then show ?thesis using False None by (subst expand_loop.simps) (simp add: bounded_result_def)
      next
        case ok: False
        then have "\<exists>r. expand_loop maximum look text (index + 1) (out_len + 1) (out @ [text ! index]) = Some r \<and> bounded_result maximum r"
          using less.prems False by (intro less.hyps) auto
        then show ?thesis using False None ok by (subst expand_loop.simps) (simp add: bounded_result_def)
      qed
    next
      case (Some m)
      obtain i e s where m: "m = (i, e, s)" by (cases m)
      have e: "index < e" using assms(1) False Some m by auto
      show ?thesis
      proof (cases "maximum < out_len + length (sn_replacement s)")
        case True
        then show ?thesis using False Some m by (subst expand_loop.simps) (simp add: bounded_result_def)
      next
        case ok: False
        have "\<exists>r. expand_loop maximum look text (index + (e - index)) (out_len + length (sn_replacement s)) (out @ sn_replacement s) = Some r
            \<and> bounded_result maximum r"
          using less.prems False e ok by (intro less.hyps) auto
        then show ?thesis using False Some m ok by (subst expand_loop.simps) (simp add: bounded_result_def)
      qed
    qed
  qed
qed

lemma spoken_bounded: "spoken_loop u maximum text rs = Inr (Some r) \<Longrightarrow> length r \<le> maximum"
  by (induction rs) (auto simp: Let_def split: if_splits)

text \<open>The same expansion with the linear scan in place of the tries.\<close>

definition expand_reference :: "unicode \<Rightarrow> nat \<Rightarrow> library \<Rightarrow> ustr \<Rightarrow> (dictionary_error + ustr) option" where
  "expand_reference u maximum l text =
     (if maximum < length text then Some (Inl Too_long)
      else let rs = active_snippets u (lib_snippets l) in
        if rs = [] \<or> text = [] then Some (Inr text)
        else (case spoken_loop u maximum text rs of
          Inl e \<Rightarrow> Some (Inl e)
        | Inr (Some r) \<Rightarrow> Some (Inr r)
        | Inr None \<Rightarrow> expand_loop maximum (\<lambda>index. best_match u (linear_matches u text rs index)) text 0 0 []))"

section \<open>Properties\<close>

text \<open>
  C26. The tries are only an index. Expanding with the tries of folded triggers gives, for every text,
  library and Unicode database, the result of trying every enabled rule at every position and taking
  the longest trigger, then the earliest rule.
\<close>

theorem expansion_equals_linear_scan:
  "expand u maximum l text = expand_reference u maximum l text"
  unfolding expand_def expand_reference_def Let_def best_match_same [OF active_distinct] ..

text \<open>
  C27. Expansion always ends, because every match moves the position forward, and its result never
  exceeds the configured length, whatever the replacements are.
\<close>

theorem expansion_ends_bounded:
  "\<exists>r. expand u maximum l text = Some r \<and> (case r of Inr out \<Rightarrow> length out \<le> maximum | Inl e \<Rightarrow> e = Too_long)"
proof -
  let ?rs = "active_snippets u (lib_snippets l)"
  have "spoken_loop u maximum text rs = Inl e \<Longrightarrow> e = Too_long" for rs e
    by (induction rs) (auto simp: Let_def split: if_splits)
  moreover have "\<exists>r. expand_loop maximum (\<lambda>index. best_match u (trie_matches u text ?rs index)) text 0 0 [] = Some r
      \<and> bounded_result maximum r"
    by (rule expand_loop_total) (auto dest: best_match_after)
  ultimately show ?thesis
    using spoken_bounded [of u maximum "text" ?rs]
    by (auto simp: expand_def Let_def bounded_result_def split: sum.split option.split)
qed

end
