(* ===== verification/Hotkeys.thy ===== *)
theory Hotkeys
  imports Py_Value "HOL-Library.AList"
begin

text \<open>
  \<^verbatim>\<open>hotkey_config.py\<close>: the user's shortcuts, parsed from any stored value, checked against each other
  and edited as a draft. The text of a value that is not a string (\<^verbatim>\<open>str(x)\<close>) and the Unicode case
  tables are the parameter \<open>p\<close>.
\<close>

section \<open>Texts\<close>

record text_rules =
  str_lower :: "ustr \<Rightarrow> ustr"
  str_upper :: "ustr \<Rightarrow> ustr"
  str_other :: "pyval \<Rightarrow> ustr"

definition py_str :: "text_rules \<Rightarrow> pyval \<Rightarrow> ustr" where
  "py_str p v = (case v of PStr s \<Rightarrow> s | _ \<Rightarrow> str_other p v)"

text \<open>\<^verbatim>\<open>bool(v)\<close>.\<close>

definition py_true :: "pyval \<Rightarrow> bool" where
  "py_true v \<longleftrightarrow> v \<notin> {PNone, PBool False, PInt 0, PFloat 0, PStr [], PList [], PDict []}"

definition ascii_lower :: "nat \<Rightarrow> nat" where
  "ascii_lower c = (if 65 \<le> c \<and> c \<le> 90 then c + 32 else c)"

definition ascii_raise :: "nat \<Rightarrow> nat" where
  "ascii_raise c = (if 97 \<le> c \<and> c \<le> 122 then c - 32 else c)"

text \<open>What Unicode says of ASCII texts, and all that the results need of the case tables.\<close>

definition ascii_case :: "text_rules \<Rightarrow> bool" where
  "ascii_case p \<longleftrightarrow> (\<forall>s. list_all (\<lambda>c. c < 128) s \<longrightarrow> str_lower p s = map ascii_lower s \<and> str_upper p s = map ascii_raise s)"

section \<open>Bindings\<close>

datatype modifier = Ctrl | Alt | Shift | Win

datatype hotkey_error = Unsupported_modifier | Unsupported_key | Missing_modifier | Invalid_hotkey | Invalid_format
  | Conflict | Unsupported_activation_mode

record hotkey =
  hk_mods :: "modifier set"
  hk_key :: ustr

definition modifier_order :: "modifier list" where
  "modifier_order = [Ctrl, Alt, Shift, Win]"

definition modifier_name :: "modifier \<Rightarrow> ustr" where
  "modifier_name m = ulit (case m of Ctrl \<Rightarrow> ''ctrl'' | Alt \<Rightarrow> ''alt'' | Shift \<Rightarrow> ''shift'' | Win \<Rightarrow> ''win'')"

definition ordered_modifiers :: "modifier set \<Rightarrow> modifier list" where
  "ordered_modifiers M = filter (\<lambda>m. m \<in> M) modifier_order"

definition modifier_of :: "ustr \<Rightarrow> hotkey_error + modifier" where
  "modifier_of s = (if s = ulit ''ctrl'' \<or> s = ulit ''control'' then Inr Ctrl
     else if s = ulit ''alt'' then Inr Alt
     else if s = ulit ''shift'' then Inr Shift
     else if s = ulit ''win'' \<or> s = ulit ''windows'' \<or> s = ulit ''meta'' then Inr Win
     else Inl Unsupported_modifier)"

definition normalise_modifiers :: "text_rules \<Rightarrow> pyval \<Rightarrow> hotkey_error + modifier set" where
  "normalise_modifiers p v =
     (let parts = (case v of PStr s \<Rightarrow> map PStr (split_on 43 s) | PList xs \<Rightarrow> xs | _ \<Rightarrow> []) in
      case map_err (\<lambda>part. modifier_of (str_lower p (py_strip (py_str p part)))) parts of
        Inl e \<Rightarrow> Inl e | Inr ms \<Rightarrow> Inr (set ms))"

definition hook_keys :: "ustr list" where
  "hook_keys = map ulit [''CTRL'', ''ALT'', ''SHIFT'', ''WIN'', ''XBUTTON1'', ''XBUTTON2'']"

definition function_keys :: "ustr list" where
  "function_keys = map ulit [''F1'', ''F2'', ''F3'', ''F4'', ''F5'', ''F6'', ''F7'', ''F8'', ''F9'', ''F10'', ''F11'', ''F12'', ''F13'',
     ''F14'', ''F15'', ''F16'', ''F17'', ''F18'', ''F19'', ''F20'', ''F21'', ''F22'', ''F23'', ''F24'']"

definition named_keys :: "ustr list" where
  "named_keys = map ulit [''SPACE'', ''TAB'', ''ENTER'', ''ESCAPE'', ''UP'', ''DOWN'', ''LEFT'', ''RIGHT'']"

text \<open>\<^verbatim>\<open>_KEY_RE\<close>: one letter or digit, a function key, or a named key.\<close>

definition single_keys :: "ustr list" where
  "single_keys = map (\<lambda>c. [c]) ([65..<91] @ [48..<58])"

definition ordinary_keys :: "ustr list" where
  "ordinary_keys = single_keys @ function_keys @ named_keys"

definition key_alias :: "ustr \<Rightarrow> ustr" where
  "key_alias k = (if k = ulit ''ESC'' then ulit ''ESCAPE'' else if k = ulit ''RETURN'' then ulit ''ENTER''
     else if k = ulit ''SPACEBAR'' then ulit ''SPACE'' else if k = ulit ''CONTROL'' then ulit ''CTRL''
     else if k = ulit ''META'' \<or> k = ulit ''WINDOWS'' then ulit ''WIN'' else k)"

definition normalise_key :: "text_rules \<Rightarrow> pyval \<Rightarrow> hotkey_error + ustr" where
  "normalise_key p v =
     (let key = key_alias (str_upper p (py_strip (if py_true v then py_str p v else []))) in
      if key \<notin> set hook_keys \<and> key \<notin> set ordinary_keys then Inl Unsupported_key else Inr key)"

definition self_modifying :: "text_rules \<Rightarrow> modifier set \<Rightarrow> ustr \<Rightarrow> bool" where
  "self_modifying p M key \<longleftrightarrow> (\<exists>m \<in> M. str_lower p key = modifier_name m)"

text \<open>\<^verbatim>\<open>HotkeyDefinition(modifiers, key)\<close> with the checks of \<^verbatim>\<open>__post_init__\<close>.\<close>

definition make_hotkey :: "text_rules \<Rightarrow> pyval \<Rightarrow> pyval \<Rightarrow> hotkey_error + hotkey" where
  "make_hotkey p modifiers key = (case normalise_modifiers p modifiers of
     Inl e \<Rightarrow> Inl e
   | Inr M \<Rightarrow> (case normalise_key p key of
       Inl e \<Rightarrow> Inl e
     | Inr k \<Rightarrow> if M = {} \<and> k \<notin> set hook_keys then Inl Missing_modifier
         else if self_modifying p M k then Inl Invalid_hotkey
         else Inr \<lparr>hk_mods = M, hk_key = k\<rparr>))"

definition names_value :: "modifier set \<Rightarrow> pyval" where
  "names_value M = PList (map (PStr \<circ> modifier_name) (ordered_modifiers M))"

definition get_default :: "(ustr \<times> pyval) list \<Rightarrow> ustr \<Rightarrow> pyval \<Rightarrow> pyval" where
  "get_default d k otherwise = (case map_of d k of Some v \<Rightarrow> v | None \<Rightarrow> otherwise)"

definition hotkey_of :: "text_rules \<Rightarrow> pyval \<Rightarrow> hotkey_error + hotkey" where
  "hotkey_of p v = (case v of
     PStr s \<Rightarrow> (let parts = filter (\<lambda>x. x \<noteq> []) (map py_strip (split_on 43 s)) in
       if parts = [] then Inl Invalid_format
       else (case normalise_modifiers p (PList (map PStr (butlast parts))) of
         Inl e \<Rightarrow> Inl e | Inr M \<Rightarrow> make_hotkey p (names_value M) (PStr (last parts))))
   | PDict d \<Rightarrow> make_hotkey p (get_default d (ulit ''modifiers'') (get_default d (ulit ''mods'') (PList [])))
       (get_default d (ulit ''key'') (PStr []))
   | _ \<Rightarrow> Inl Invalid_format)"

text \<open>A key event of the settings window: the modifier mask and the key symbol.\<close>

definition hotkey_of_event :: "text_rules \<Rightarrow> int \<Rightarrow> pyval \<Rightarrow> hotkey_error + hotkey" where
  "hotkey_of_event p state keysym =
     make_hotkey p (names_value ((if bit state 2 then {Ctrl} else {}) \<union> (if bit state 0 then {Shift} else {})
       \<union> (if bit state 3 then {Alt} else {}) \<union> (if bit state 6 then {Win} else {}))) keysym"

definition modifier_label :: "modifier \<Rightarrow> ustr" where
  "modifier_label m = ulit (case m of Ctrl \<Rightarrow> ''Ctrl'' | Alt \<Rightarrow> ''Alt'' | Shift \<Rightarrow> ''Shift'' | Win \<Rightarrow> ''Win'')"

definition key_label :: "ustr \<Rightarrow> ustr" where
  "key_label k = (if k = ulit ''CTRL'' then ulit ''Ctrl'' else if k = ulit ''ALT'' then ulit ''Alt''
     else if k = ulit ''SHIFT'' then ulit ''Shift'' else if k = ulit ''WIN'' then ulit ''Win''
     else if k = ulit ''XBUTTON1'' then ulit ''Mouse 4'' else if k = ulit ''XBUTTON2'' then ulit ''Mouse 5'' else k)"

definition display :: "hotkey \<Rightarrow> ustr" where
  "display h = (let prefix = join [43] (map modifier_label (ordered_modifiers (hk_mods h))) in
     if prefix = [] then key_label (hk_key h) else prefix @ [43] @ key_label (hk_key h))"

definition requires_hook :: "hotkey \<Rightarrow> bool" where
  "requires_hook h \<longleftrightarrow> hk_key h \<in> set hook_keys"

definition hotkey_mapping :: "hotkey \<Rightarrow> pyval" where
  "hotkey_mapping h = PDict [(ulit ''modifiers'', names_value (hk_mods h)), (ulit ''key'', PStr (hk_key h))]"


section \<open>Actions\<close>

datatype hotkey_action = Recording | Rewrite | Translation | Voice_translation | Visibility | Text_action ustr

text \<open>The text of a key of the stored mapping: an enum member of a string enum is its value.\<close>

definition action_value :: "hotkey_action \<Rightarrow> ustr" where
  "action_value a = (case a of Recording \<Rightarrow> ulit ''recording_hotkey'' | Rewrite \<Rightarrow> ulit ''rewrite_hotkey''
     | Translation \<Rightarrow> ulit ''translation_hotkey'' | Voice_translation \<Rightarrow> ulit ''voice_translation_hotkey''
     | Visibility \<Rightarrow> ulit ''toggle_visibility'' | Text_action s \<Rightarrow> ulit ''text_action:'' @ s)"

definition members :: "hotkey_action list" where
  "members = [Recording, Rewrite, Translation, Voice_translation, Visibility]"

definition text_action_id :: "ustr \<Rightarrow> bool" where
  "text_action_id s \<longleftrightarrow> 1 \<le> length s \<and> length s \<le> 64 \<and> list_all id_char s"

definition action_aliases :: "(ustr \<times> hotkey_action) list" where
  "action_aliases = [(ulit ''recording'', Recording), (ulit ''rewrite'', Rewrite), (ulit ''translation'', Translation),
     (ulit ''voice_translation'', Voice_translation), (ulit ''voice-translation'', Voice_translation),
     (ulit ''visibility'', Visibility), (ulit ''show_hide'', Visibility)]"

definition action_of :: "text_rules \<Rightarrow> ustr \<Rightarrow> hotkey_action option" where
  "action_of p s = (case find (\<lambda>a. action_value a = s) members of
     Some a \<Rightarrow> Some a
   | None \<Rightarrow> if take 12 s = ulit ''text_action:'' \<and> text_action_id (drop 12 s) then Some (Text_action (drop 12 s))
       else map_of action_aliases (str_lower p (py_strip s)))"

definition alt_key :: "string \<Rightarrow> hotkey" where
  "alt_key k = \<lparr>hk_mods = {Alt}, hk_key = ulit k\<rparr>"

definition default_hotkeys :: "(hotkey_action \<times> hotkey) list" where
  "default_hotkeys = [(Recording, alt_key ''L''), (Rewrite, alt_key ''K''), (Translation, alt_key ''T''),
     (Voice_translation, alt_key ''V''), (Visibility, alt_key ''R'')]"

definition legacy_hotkeys :: "(hotkey_action \<times> hotkey) list" where
  "legacy_hotkeys = filter (\<lambda>(a, h). a \<noteq> Voice_translation) default_hotkeys"

section \<open>A set of bindings\<close>

text \<open>A binding that still has to be parsed, or one that is ready.\<close>

datatype raw_binding = Raw pyval | Ready hotkey

fun parse_binding :: "text_rules \<Rightarrow> raw_binding \<Rightarrow> hotkey_error + hotkey" where
  "parse_binding p (Raw v) = hotkey_of p v"
| "parse_binding p (Ready h) = Inr h"

fun normalise_all :: "text_rules \<Rightarrow> (ustr \<times> raw_binding) list \<Rightarrow> (hotkey_action \<times> hotkey) list
    \<Rightarrow> hotkey_error + (hotkey_action \<times> hotkey) list" where
  "normalise_all p [] acc = Inr acc"
| "normalise_all p ((k, b) # vs) acc = (case action_of p k of
     None \<Rightarrow> normalise_all p vs acc
   | Some a \<Rightarrow> (case parse_binding p b of Inl e \<Rightarrow> Inl e | Inr h \<Rightarrow> normalise_all p vs (AList.update a h acc)))"

definition validate_hotkeys :: "text_rules \<Rightarrow> (ustr \<times> raw_binding) list \<Rightarrow> bool
    \<Rightarrow> hotkey_error + (hotkey_action \<times> hotkey) list" where
  "validate_hotkeys p values include_defaults =
     (let includes_voice = (\<exists>k \<in> set (map fst values). action_of p k = Some Voice_translation);
          start = (if include_defaults then (if includes_voice then default_hotkeys else legacy_hotkeys) else []) in
      case normalise_all p values start of
        Inl e \<Rightarrow> Inl e
      | Inr hks \<Rightarrow> if distinct (map (display \<circ> snd) hks) then Inr hks else Inl Conflict)"

section \<open>Settings\<close>

datatype activation_mode = Toggle | Push_to_talk

definition mode_name :: "activation_mode \<Rightarrow> ustr" where
  "mode_name m = ulit (case m of Toggle \<Rightarrow> ''toggle'' | Push_to_talk \<Rightarrow> ''push_to_talk'')"

definition mode_of :: "ustr \<Rightarrow> hotkey_error + activation_mode" where
  "mode_of s = (if s = mode_name Toggle then Inr Toggle else if s = mode_name Push_to_talk then Inr Push_to_talk
     else Inl Unsupported_activation_mode)"

record hotkey_settings =
  hs_hotkeys :: "(hotkey_action \<times> hotkey) list"
  hs_mode :: activation_mode
  hs_closed :: bool

definition make_settings :: "text_rules \<Rightarrow> (ustr \<times> raw_binding) list \<Rightarrow> ustr \<Rightarrow> bool \<Rightarrow> hotkey_error + hotkey_settings" where
  "make_settings p values mode is_closed = (case validate_hotkeys p values (\<not> is_closed) of
     Inl e \<Rightarrow> Inl e
   | Inr hks \<Rightarrow> (case mode_of mode of Inl e \<Rightarrow> Inl e
       | Inr m \<Rightarrow> Inr \<lparr>hs_hotkeys = hks, hs_mode = m, hs_closed = is_closed\<rparr>))"

definition ready :: "(hotkey_action \<times> hotkey) list \<Rightarrow> (ustr \<times> raw_binding) list" where
  "ready hks = map (\<lambda>(a, h). (action_value a, Ready h)) hks"

definition default_settings :: hotkey_settings where
  "default_settings = \<lparr>hs_hotkeys = default_hotkeys, hs_mode = Toggle, hs_closed = False\<rparr>"

text \<open>The older flat keys: the value of a member, or the value without its suffix.\<close>

definition flat_names :: "hotkey_action \<Rightarrow> ustr list" where
  "flat_names a = (let v = action_value a; suffix = ulit ''_hotkey'' in
     [v, if drop (length v - length suffix) v = suffix then take (length v - length suffix) v else v])"

definition add_flat :: "(ustr \<times> pyval) list \<Rightarrow> hotkey_action \<Rightarrow> (ustr \<times> raw_binding) list \<Rightarrow> (ustr \<times> raw_binding) list" where
  "add_flat d a parsed = (case find (\<lambda>k. map_of d k \<noteq> None) (flat_names a) of
     None \<Rightarrow> parsed
   | Some k \<Rightarrow> AList.update (action_value a) (Raw (the (map_of d k))) parsed)"

definition parsed_bindings :: "text_rules \<Rightarrow> (ustr \<times> pyval) list \<Rightarrow> pyval \<Rightarrow> (ustr \<times> raw_binding) list" where
  "parsed_bindings p d bindings =
     fold (add_flat d) members (case bindings of
       PDict b \<Rightarrow> map (map_prod id Raw) (filter (\<lambda>(k, v). action_of p k \<noteq> None) b) | _ \<Rightarrow> [])"

fun repair :: "text_rules \<Rightarrow> (ustr \<times> pyval) list \<Rightarrow> (hotkey_action \<times> hotkey) list \<Rightarrow> (hotkey_action \<times> hotkey) list" where
  "repair p [] acc = acc"
| "repair p ((k, v) # b) acc = (case action_of p k of
     None \<Rightarrow> repair p b acc
   | Some a \<Rightarrow> (case hotkey_of p v of Inl e \<Rightarrow> repair p b acc | Inr h \<Rightarrow> repair p b (AList.update a h acc)))"

definition settings_of :: "text_rules \<Rightarrow> pyval \<Rightarrow> hotkey_settings" where
  "settings_of p value = (case value of PDict d \<Rightarrow>
     (let bindings = get_default d (ulit ''bindings'') (get_default d (ulit ''hotkeys'') value);
          parsed = parsed_bindings p d bindings;
          mode = py_str p (get_default d (ulit ''activation_mode'')
            (get_default d (ulit ''recording_activation_mode'') (PStr (ulit ''toggle''))));
          defaults = (if action_value Voice_translation \<in> set (map fst parsed) then default_hotkeys else legacy_hotkeys) in
      case make_settings p (if parsed = [] then ready defaults else parsed) mode False of
        Inr s \<Rightarrow> s
      | Inl _ \<Rightarrow> (case make_settings p (ready (case bindings of PDict b \<Rightarrow> repair p b defaults | _ \<Rightarrow> defaults)) mode False of
          Inr s \<Rightarrow> s | Inl _ \<Rightarrow> default_settings))
   | _ \<Rightarrow> default_settings)"

definition settings_mapping :: "hotkey_settings \<Rightarrow> pyval" where
  "settings_mapping s = PDict [(ulit ''schema_version'', PInt 1), (ulit ''activation_mode'', PStr (mode_name (hs_mode s))),
     (ulit ''bindings'', PDict (map (\<lambda>(a, h). (action_value a, hotkey_mapping h)) (hs_hotkeys s)))]"

text \<open>\<^verbatim>\<open>definition(action)\<close>: \<open>None\<close> is its KeyError.\<close>

definition definition_of :: "text_rules \<Rightarrow> ustr \<Rightarrow> hotkey_settings \<Rightarrow> hotkey option" where
  "definition_of p k s = (case action_of p k of None \<Rightarrow> None | Some a \<Rightarrow> map_of (hs_hotkeys s) a)"

definition with_hotkey :: "text_rules \<Rightarrow> ustr \<Rightarrow> raw_binding \<Rightarrow> hotkey_settings \<Rightarrow> hotkey_error + hotkey_settings" where
  "with_hotkey p k b s = (case action_of p k of
     None \<Rightarrow> Inl Invalid_hotkey
   | Some a \<Rightarrow> (case parse_binding p b of
       Inl e \<Rightarrow> Inl e
     | Inr h \<Rightarrow> make_settings p (ready (AList.update a h (hs_hotkeys s))) (mode_name (hs_mode s)) (hs_closed s)))"

definition reset_hotkey :: "text_rules \<Rightarrow> ustr \<Rightarrow> hotkey_settings \<Rightarrow> hotkey_error + hotkey_settings" where
  "reset_hotkey p k s = (case action_of p k of
     None \<Rightarrow> Inl Invalid_hotkey
   | Some a \<Rightarrow> (case map_of default_hotkeys a of
       None \<Rightarrow> Inl Invalid_hotkey | Some h \<Rightarrow> with_hotkey p (action_value a) (Ready h) s))"

definition with_activation_mode :: "text_rules \<Rightarrow> ustr \<Rightarrow> bool \<Rightarrow> hotkey_settings \<Rightarrow> hotkey_error + hotkey_settings" where
  "with_activation_mode p mode supported s = (case mode_of mode of
     Inl e \<Rightarrow> Inl e
   | Inr m \<Rightarrow> if m = Push_to_talk \<and> \<not> supported then Inl Unsupported_activation_mode
       else make_settings p (ready (hs_hotkeys s)) (mode_name m) (hs_closed s))"

section \<open>The draft of the settings window\<close>

datatype draft_event = Capture ustr raw_binding | Capture_event ustr int pyval | Replace pyval | Restore hotkey_settings | Reset ustr | Reset_all
  | Set_mode ustr

definition attempt :: "hotkey_settings \<Rightarrow> hotkey_error + hotkey_settings \<Rightarrow> hotkey_error option \<times> hotkey_settings" where
  "attempt s r = (case r of Inl e \<Rightarrow> (Some e, s) | Inr s' \<Rightarrow> (None, s'))"

text \<open>One call of \<^verbatim>\<open>HotkeySettingsController\<close>: its error, if any, and the draft after it.\<close>

definition draft_call :: "text_rules \<Rightarrow> bool \<Rightarrow> draft_event \<Rightarrow> hotkey_settings \<Rightarrow> hotkey_error option \<times> hotkey_settings" where
  "draft_call p supported e s = (case e of
     Capture k b \<Rightarrow> attempt s (with_hotkey p k b s)
   | Capture_event k state keysym \<Rightarrow> (case hotkey_of_event p state keysym of
       Inl err \<Rightarrow> (Some err, s) | Inr h \<Rightarrow> attempt s (with_hotkey p k (Ready h) s))
   | Replace v \<Rightarrow> (None, settings_of p v)
   | Restore s' \<Rightarrow> (None, s')
   | Reset k \<Rightarrow> attempt s (reset_hotkey p k s)
   | Reset_all \<Rightarrow> (None, default_settings)
   | Set_mode m \<Rightarrow> attempt s (with_activation_mode p m supported s))"


section \<open>Well-formed settings\<close>

definition key_ok :: "ustr \<Rightarrow> bool" where
  "key_ok k \<longleftrightarrow> k \<in> set hook_keys \<or> k \<in> set ordinary_keys"

definition hotkey_ok :: "text_rules \<Rightarrow> hotkey \<Rightarrow> bool" where
  "hotkey_ok p h \<longleftrightarrow> key_ok (hk_key h) \<and> (hk_mods h \<noteq> {} \<or> hk_key h \<in> set hook_keys)
     \<and> \<not> self_modifying p (hk_mods h) (hk_key h)"

definition action_ok :: "hotkey_action \<Rightarrow> bool" where
  "action_ok a \<longleftrightarrow> (case a of Text_action s \<Rightarrow> text_action_id s | _ \<Rightarrow> True)"

definition bindings_ok :: "text_rules \<Rightarrow> (hotkey_action \<times> hotkey) list \<Rightarrow> bool" where
  "bindings_ok p hks \<longleftrightarrow> distinct (map fst hks) \<and> (\<forall>(a, h) \<in> set hks. action_ok a \<and> hotkey_ok p h)"

text \<open>
  Two bindings of the settings never name the same keys; settings that are not a closed catalog bind
  the four original actions.
\<close>

definition settings_valid :: "text_rules \<Rightarrow> hotkey_settings \<Rightarrow> bool" where
  "settings_valid p s \<longleftrightarrow> bindings_ok p (hs_hotkeys s)
     \<and> distinct (map (\<lambda>(a, h). (hk_mods h, hk_key h)) (hs_hotkeys s))
     \<and> (\<not> hs_closed s \<longrightarrow> set (map fst legacy_hotkeys) \<subseteq> set (map fst (hs_hotkeys s)))"

lemma ordered_set [simp]: "set (ordered_modifiers M) = M"
proof -
  have "m \<in> set modifier_order" for m by (cases m) (simp_all add: modifier_order_def)
  then show ?thesis by (auto simp: ordered_modifiers_def)
qed

lemma modifier_of_name [simp]: "modifier_of (modifier_name m) = Inr m"
  by (cases m) (simp_all add: modifier_of_def modifier_name_def ulit_def)

lemma modifier_label_inj: "modifier_label m = modifier_label n \<Longrightarrow> m = n"
  by (cases m; cases n) (simp_all add: modifier_label_def ulit_def)

lemma modifier_label_plain: "43 \<notin> set (modifier_label m) \<and> modifier_label m \<noteq> []"
  by (cases m) (simp_all add: modifier_label_def ulit_def)

lemma key_labels: "distinct (map key_label (hook_keys @ ordinary_keys)) \<and> list_all (\<lambda>k. 43 \<notin> set (key_label k)) (hook_keys @ ordinary_keys)"
  by code_simp

lemma key_label_inj: "key_ok a \<Longrightarrow> key_ok b \<Longrightarrow> key_label a = key_label b \<Longrightarrow> a = b"
  using key_labels unfolding key_ok_def distinct_map inj_on_def by (metis Un_iff set_append)

lemma key_label_plain: "key_ok k \<Longrightarrow> 43 \<notin> set (key_label k)"
  using key_labels unfolding key_ok_def list_all_iff by (metis Un_iff set_append)

lemma join_snoc: "join d (xs @ [x]) = (if xs = [] then x else join d xs @ d @ x)"
  by (induction d xs rule: join.induct) simp_all

lemma join_empty: "list_all (\<lambda>x. x \<noteq> []) xs \<Longrightarrow> join d xs = [] \<longleftrightarrow> xs = []"
  by (cases xs; cases "tl xs") auto

lemma display_join: "display h = join [43] (map modifier_label (ordered_modifiers (hk_mods h)) @ [key_label (hk_key h)])"
proof -
  have "list_all (\<lambda>x. x \<noteq> []) (map modifier_label (ordered_modifiers (hk_mods h)))"
    by (simp add: list_all_iff modifier_label_plain)
  from join_empty [OF this, of "[43]"] show ?thesis by (simp add: display_def Let_def join_snoc)
qed

text \<open>The displayed text tells bindings apart, so comparing it finds exactly the equal ones.\<close>

lemma display_inj:
  assumes "key_ok (hk_key g)" "key_ok (hk_key h)" "display g = display h"
  shows "hk_mods g = hk_mods h \<and> hk_key g = hk_key h"
proof -
  let ?l = "\<lambda>h :: hotkey. map modifier_label (ordered_modifiers (hk_mods h)) @ [key_label (hk_key h)]"
  have s: "split_on 43 (display f) = ?l f" if "key_ok (hk_key f)" for f :: hotkey
    unfolding display_join by (rule split_join) (use modifier_label_plain key_label_plain [OF that] in auto)
  have l: "?l g = ?l h" using s [OF assms(1)] s [OF assms(2)] assms(3) by simp
  then have "map modifier_label (ordered_modifiers (hk_mods g)) = map modifier_label (ordered_modifiers (hk_mods h))"
    and k: "key_label (hk_key g) = key_label (hk_key h)" by simp_all
  then have "ordered_modifiers (hk_mods g) = ordered_modifiers (hk_mods h)"
    by (metis modifier_label_inj inj_def inj_map_eq_map)
  then have "hk_mods g = hk_mods h" by (metis ordered_set)
  then show ?thesis using key_label_inj [OF assms(1,2) k] by simp
qed

lemma make_hotkey_ok: "make_hotkey p m k = Inr h \<Longrightarrow> hotkey_ok p h"
  by (auto simp: make_hotkey_def hotkey_ok_def key_ok_def normalise_key_def Let_def split: sum.splits if_splits)

lemma hotkey_of_ok: "hotkey_of p v = Inr h \<Longrightarrow> hotkey_ok p h"
  by (auto simp: hotkey_of_def Let_def split: pyval.splits if_splits sum.splits dest: make_hotkey_ok)

lemma action_of_ok: "action_of p k = Some a \<Longrightarrow> action_ok a"
  by (auto simp: action_of_def action_ok_def action_aliases_def members_def split: option.splits if_splits hotkey_action.splits
      dest!: map_of_SomeD simp: find_Some_iff)

lemma update_member: "b \<in> set (AList.update a h l) \<Longrightarrow> b = (a, h) \<or> b \<in> set l"
  by (induction l) (auto split: if_splits)

lemma bindings_update:
  "bindings_ok p hks \<Longrightarrow> action_ok a \<Longrightarrow> hotkey_ok p h \<Longrightarrow> bindings_ok p (AList.update a h hks)"
  by (auto simp: bindings_ok_def distinct_update dest!: update_member)

lemma normalise_all_ok:
  "normalise_all p vs acc = Inr hks \<Longrightarrow> bindings_ok p acc \<Longrightarrow> (\<And>h. Ready h \<in> set (map snd vs) \<Longrightarrow> hotkey_ok p h) \<Longrightarrow>
     bindings_ok p hks \<and> set (map fst acc) \<subseteq> set (map fst hks)"
proof (induction vs arbitrary: acc)
  case (Cons v vs)
  obtain k b where v: "v = (k, b)" by force
  show ?case
  proof (cases "action_of p k")
    case None
    then show ?thesis using Cons by (auto simp: v)
  next
    case (Some a)
    then obtain h where h: "parse_binding p b = Inr h" "normalise_all p vs (AList.update a h acc) = Inr hks"
      using Cons.prems(1) by (auto simp: v split: sum.splits)
    have "hotkey_ok p h" using h(1) Cons.prems(3) [of h] by (cases b) (auto simp: v dest: hotkey_of_ok)
    from Cons.IH [OF h(2) bindings_update [OF Cons.prems(2) action_of_ok [OF Some] this] Cons.prems(3)]
    show ?thesis by (auto simp: v dom_update image_iff)
  qed
qed auto

text \<open>Comparing the displayed texts finds exactly the bindings that are equal.\<close>

lemma display_distinct:
  assumes "bindings_ok p hks"
  shows "distinct (map (display \<circ> snd) hks) \<longleftrightarrow> distinct (map (\<lambda>(a, h). (hk_mods h, hk_key h)) hks)"
proof -
  have "display (snd x) = display (snd y) \<longleftrightarrow> (\<lambda>(a, h). (hk_mods h, hk_key h)) x = (\<lambda>(a, h). (hk_mods h, hk_key h)) y"
    if "x \<in> set hks" "y \<in> set hks" for x y
    using assms that display_inj [of "snd x" "snd y"]
    by (auto simp: bindings_ok_def hotkey_ok_def display_def case_prod_beta Let_def)
  then show ?thesis by (simp add: distinct_map inj_on_def cong: conj_cong)
qed

lemma legacy_subset: "set (map fst legacy_hotkeys) \<subseteq> set (map fst default_hotkeys)"
  by (auto simp: legacy_hotkeys_def)

lemma default_bindings_ok: "ascii_case p \<Longrightarrow> bindings_ok p default_hotkeys \<and> bindings_ok p legacy_hotkeys"
  by (simp add: bindings_ok_def default_hotkeys_def legacy_hotkeys_def action_ok_def hotkey_ok_def key_ok_def hook_keys_def
      ordinary_keys_def single_keys_def alt_key_def self_modifying_def ulit_def ascii_case_def modifier_name_def ascii_lower_def upt_rec)

lemma make_settings_valid:
  assumes "ascii_case p" "make_settings p vs m c = Inr s" "\<And>h. Ready h \<in> set (map snd vs) \<Longrightarrow> hotkey_ok p h"
  shows "settings_valid p s"
proof -
  obtain start where n: "normalise_all p vs start = Inr (hs_hotkeys s)" "distinct (map (display \<circ> snd) (hs_hotkeys s))"
    and c: "hs_closed s = c" and start: "start \<in> {default_hotkeys, legacy_hotkeys} \<and> \<not> c \<or> start = [] \<and> c"
    using assms(2) by (auto simp: make_settings_def validate_hotkeys_def Let_def split: sum.splits if_splits)
  then have "bindings_ok p start" using default_bindings_ok [OF assms(1)] by (auto simp: bindings_ok_def)
  from normalise_all_ok [OF n(1) this assms(3)]
  have hks: "bindings_ok p (hs_hotkeys s)" "set (map fst start) \<subseteq> set (map fst (hs_hotkeys s))" by blast+
  then have "\<not> hs_closed s \<longrightarrow> set (map fst legacy_hotkeys) \<subseteq> set (map fst (hs_hotkeys s))"
    using start legacy_subset c by blast
  then show ?thesis using display_distinct [OF hks(1)] n(2) hks(1) by (simp add: settings_valid_def)
qed


lemma ready_member: "Ready h \<in> set (map snd (ready hks)) \<Longrightarrow> \<exists>a. (a, h) \<in> set hks"
  by (auto simp: ready_def)

lemma ready_ok: "bindings_ok p hks \<Longrightarrow> Ready h \<in> set (map snd (ready hks)) \<Longrightarrow> hotkey_ok p h"
  using ready_member [of h hks] by (auto simp: bindings_ok_def)

lemma default_settings_valid: "ascii_case p \<Longrightarrow> settings_valid p default_settings"
  using default_bindings_ok [of p] legacy_subset
  by (simp add: settings_valid_def default_settings_def) (simp add: default_hotkeys_def alt_key_def ulit_def)

lemma repair_ok: "bindings_ok p acc \<Longrightarrow> bindings_ok p (repair p b acc)"
proof (induction b arbitrary: acc)
  case (Cons x b)
  obtain k v where x: "x = (k, v)" by force
  show ?case
  proof (cases "action_of p k")
    case (Some a)
    then show ?thesis
      using Cons bindings_update [OF Cons.prems action_of_ok [OF Some]] by (auto simp: x dest: hotkey_of_ok split: sum.splits)
  qed (use Cons in \<open>auto simp: x\<close>)
qed simp

lemma flat_raw: "\<forall>x \<in> set parsed. \<exists>v. snd x = Raw v \<Longrightarrow> \<forall>x \<in> set (add_flat d a parsed). \<exists>v. snd x = Raw v"
  by (auto simp: add_flat_def split: option.splits dest!: update_member)

lemma fold_flat_raw: "\<forall>x \<in> set parsed. \<exists>v. snd x = Raw v \<Longrightarrow> \<forall>x \<in> set (fold (add_flat d) ms parsed). \<exists>v. snd x = Raw v"
proof (induction ms arbitrary: parsed)
  case (Cons m ms)
  show ?case using Cons.IH [OF flat_raw [OF Cons.prems]] by simp
qed simp

lemma parsed_raw: "\<forall>x \<in> set (parsed_bindings p d bindings). \<exists>v. snd x = Raw v"
  unfolding parsed_bindings_def by (rule fold_flat_raw) (auto split: pyval.splits)

lemma settings_of_valid:
  assumes "ascii_case p"
  shows "settings_valid p (settings_of p v)"
proof (cases v)
  case (PDict d)
  define bindings where "bindings = get_default d (ulit ''bindings'') (get_default d (ulit ''hotkeys'') v)"
  define parsed where "parsed = parsed_bindings p d bindings"
  define defaults where "defaults = (if action_value Voice_translation \<in> set (map fst parsed) then default_hotkeys else legacy_hotkeys)"
  define mode where "mode = py_str p (get_default d (ulit ''activation_mode'') (get_default d (ulit ''recording_activation_mode'') (PStr (ulit ''toggle''))))"
  have d: "bindings_ok p defaults" using default_bindings_ok [OF assms] by (simp add: defaults_def)
  have one: "settings_valid p s" if "make_settings p (if parsed = [] then ready defaults else parsed) mode False = Inr s" for s
  proof (rule make_settings_valid [OF assms that])
    fix h assume "Ready h \<in> set (map snd (if parsed = [] then ready defaults else parsed))"
    then show "hotkey_ok p h" using ready_ok [OF d, of h] parsed_raw [of p d bindings] by (force simp: parsed_def split: if_splits)
  qed
  have two: "settings_valid p s"
    if "make_settings p (ready (case bindings of PDict b \<Rightarrow> repair p b defaults | _ \<Rightarrow> defaults)) mode False = Inr s" for s
  proof (rule make_settings_valid [OF assms that], rule ready_ok)
    show "bindings_ok p (case bindings of PDict b \<Rightarrow> repair p b defaults | _ \<Rightarrow> defaults)"
      using repair_ok d by (auto split: pyval.split)
  qed
  have eq: "settings_of p v = (case make_settings p (if parsed = [] then ready defaults else parsed) mode False of
      Inr s \<Rightarrow> s
    | Inl _ \<Rightarrow> (case make_settings p (ready (case bindings of PDict b \<Rightarrow> repair p b defaults | _ \<Rightarrow> defaults)) mode False of
        Inr s \<Rightarrow> s | Inl _ \<Rightarrow> default_settings))"
    unfolding settings_of_def PDict Let_def bindings_def parsed_def defaults_def mode_def pyval.case by (rule refl)
  show ?thesis unfolding eq by (simp add: one two default_settings_valid [OF assms] split: sum.split)
qed (use default_settings_valid [OF assms] in \<open>simp_all add: settings_of_def\<close>)

lemma with_hotkey_valid:
  assumes "ascii_case p" "settings_valid p s" "with_hotkey p k b s = Inr s'" "\<And>h. b = Ready h \<Longrightarrow> hotkey_ok p h"
  shows "settings_valid p s'"
proof -
  obtain a h where a: "action_of p k = Some a" "parse_binding p b = Inr h"
    and s': "make_settings p (ready (AList.update a h (hs_hotkeys s))) (mode_name (hs_mode s)) (hs_closed s) = Inr s'"
    using assms(3) by (auto simp: with_hotkey_def split: option.splits sum.splits)
  have "hotkey_ok p h" using a(2) assms(4) by (cases b) (auto dest: hotkey_of_ok)
  then have "bindings_ok p (AList.update a h (hs_hotkeys s))"
    using assms(2) action_of_ok [OF a(1)] by (simp add: settings_valid_def bindings_update)
  then show ?thesis by (rule make_settings_valid [OF assms(1) s' ready_ok])
qed


section \<open>Stored settings are read back\<close>

lemma normalise_names: "ascii_case p \<Longrightarrow> normalise_modifiers p (names_value M) = Inr M"
proof -
  assume p: "ascii_case p"
  have name: "modifier_of (str_lower p (py_strip (modifier_name m))) = Inr m" for m
  proof -
    have "list_all (\<lambda>c. c < 128) (modifier_name m) \<and> py_strip (modifier_name m) = modifier_name m
        \<and> map ascii_lower (modifier_name m) = modifier_name m"
      by (cases m) (simp_all add: modifier_name_def ulit_def py_strip_def py_space_def ascii_lower_def)
    then show ?thesis using p by (simp add: ascii_case_def)
  qed
  have "map_err (\<lambda>part. modifier_of (str_lower p (py_strip (py_str p part)))) (map (PStr \<circ> modifier_name) ms) = Inr ms" for ms
    by (induction ms) (simp_all add: py_str_def name)
  then show ?thesis by (simp add: normalise_modifiers_def names_value_def)
qed

definition key_char :: "nat \<Rightarrow> bool" where
  "key_char c \<longleftrightarrow> 65 \<le> c \<and> c \<le> 90 \<or> 48 \<le> c \<and> c \<le> 57"

lemma single_key: "k \<in> set single_keys \<Longrightarrow> \<exists>c. k = [c] \<and> key_char c"
  unfolding single_keys_def key_char_def set_map set_append set_upt by fastforce

lemma key_chars: "key_ok k \<Longrightarrow> k \<noteq> [] \<and> list_all key_char k"
proof -
  have l: "list_all (\<lambda>k. k \<noteq> [] \<and> list_all key_char k) (hook_keys @ function_keys @ named_keys)"
    by (simp add: hook_keys_def function_keys_def named_keys_def ulit_def key_char_def)
  assume "key_ok k"
  then consider "k \<in> set single_keys" | "k \<in> set (hook_keys @ function_keys @ named_keys)"
    unfolding key_ok_def ordinary_keys_def set_append by blast
  then show ?thesis
  proof cases
    case 1
    then show ?thesis using single_key by fastforce
  next
    case 2
    then show ?thesis using l unfolding list_all_iff by blast
  qed
qed

lemma key_char_texts:
  assumes "list_all key_char k"
  shows "list_all (\<lambda>c. c < 128) k \<and> py_strip k = k \<and> map ascii_raise k = k"
proof -
  have d: "dropWhile py_space xs = xs" if "list_all key_char xs" for xs
    using that by (cases xs) (auto simp: key_char_def py_space_def)
  have "list_all key_char (rev k)" using assms by (simp add: list_all_iff)
  then have "py_strip k = k" using d [OF assms] d by (simp add: py_strip_def)
  moreover have "c < 128 \<and> ascii_raise c = c" if "c \<in> set k" for c
    using assms that by (auto simp: list_all_iff key_char_def ascii_raise_def)
  ultimately show ?thesis by (simp add: list_all_iff map_idI)
qed

lemma key_alias_id: "key_ok k \<Longrightarrow> key_alias k = k"
proof -
  have "list_all (\<lambda>k. key_alias k = k) (hook_keys @ ordinary_keys)"
    by (simp add: hook_keys_def ordinary_keys_def single_keys_def function_keys_def named_keys_def ulit_def key_alias_def list_all_iff)
  then show "key_ok k \<Longrightarrow> key_alias k = k" by (auto simp: key_ok_def list_all_iff)
qed

lemma normalise_key_id:
  assumes "ascii_case p" "key_ok k"
  shows "normalise_key p (PStr k) = Inr k"
proof -
  have k: "list_all (\<lambda>c. c < 128) k" "py_strip k = k" "map ascii_raise k = k" "key_alias k = k" "k \<noteq> []"
    using key_chars [OF assms(2)] key_char_texts key_alias_id [OF assms(2)] by blast+
  then have "str_upper p (py_strip k) = k" using assms(1) by (simp add: ascii_case_def)
  then show ?thesis using k assms(2) by (simp add: normalise_key_def py_true_def py_str_def key_ok_def Let_def)
qed

lemma hotkey_roundtrip: "ascii_case p \<Longrightarrow> hotkey_ok p h \<Longrightarrow> hotkey_of p (hotkey_mapping h) = Inr h"
  by (simp add: hotkey_of_def hotkey_mapping_def get_default_def ulit_def make_hotkey_def normalise_names normalise_key_id
      hotkey_ok_def)

lemma action_value_inj: "action_value a = action_value b \<Longrightarrow> a = b"
  by (cases a; cases b) (simp_all add: action_value_def ulit_def)

lemma action_of_value: "action_ok a \<Longrightarrow> action_of p (action_value a) = Some a"
  by (cases a) (simp_all add: action_of_def members_def action_value_def ulit_def action_ok_def)

lemma normalise_ready:
  assumes "\<forall>(a, h) \<in> set hks. action_ok a \<and> parse_binding p (f h) = Inr h"
  shows "normalise_all p (map (\<lambda>(a, h). (action_value a, f h)) hks) acc = Inr (fold (\<lambda>(a, h). AList.update a h) hks acc)"
  using assms by (induction hks arbitrary: acc) (auto simp: action_of_value)

lemma map_of_fold_update:
  "distinct (map fst hks) \<Longrightarrow> map_of (fold (\<lambda>(a, h). AList.update a h) hks acc) = map_of acc ++ map_of hks"
proof (induction hks arbitrary: acc)
  case (Cons x hks)
  obtain a h where x: "x = (a, h)" by force
  have "map_of (fold (\<lambda>(a, h). AList.update a h) (x # hks) acc) = (map_of acc)(a \<mapsto> h) ++ map_of hks"
    using Cons by (simp add: x update_conv')
  also have "\<dots> = map_of acc ++ map_of (x # hks)"
    using Cons.prems by (auto simp: x map_add_def fun_eq_iff map_of_eq_None_iff [THEN iffD2] split: option.split)
  finally show ?case .
qed simp

lemma distinct_fold_update: "distinct (map fst acc) \<Longrightarrow> distinct (map fst (fold (\<lambda>(a, h). AList.update a h) hks acc))"
  by (induction hks arbitrary: acc) (auto simp: distinct_update)

lemma mode_of_name [simp]: "mode_of (mode_name m) = Inr m"
  by (cases m) (simp_all add: mode_of_def mode_name_def ulit_def)

definition base_hotkeys :: "hotkey_settings \<Rightarrow> (hotkey_action \<times> hotkey) list" where
  "base_hotkeys s = (if hs_closed s then [] else if Voice_translation \<in> set (map fst (hs_hotkeys s)) then default_hotkeys else legacy_hotkeys)"

text \<open>Settings that are valid are accepted again, with the same binding of every action.\<close>

lemma make_settings_again:
  assumes p: "ascii_case p" and s: "settings_valid p s" and f: "\<forall>(a, h) \<in> set (hs_hotkeys s). parse_binding p (f h) = Inr h"
  shows "\<exists>hks. make_settings p (map (\<lambda>(a, h). (action_value a, f h)) (hs_hotkeys s)) (mode_name (hs_mode s)) (hs_closed s)
      = Inr (s\<lparr>hs_hotkeys := hks\<rparr>) \<and> map_of hks = map_of (hs_hotkeys s)"
proof -
  let ?h = "hs_hotkeys s" let ?hks = "fold (\<lambda>(a, h). AList.update a h) ?h (base_hotkeys s)"
  have ok: "bindings_ok p ?h" using s by (simp add: settings_valid_def)
  then have act: "\<forall>(a, h) \<in> set ?h. action_ok a \<and> parse_binding p (f h) = Inr h" using f by (auto simp: bindings_ok_def)
  have base: "bindings_ok p (base_hotkeys s)" "set (map fst (base_hotkeys s)) \<subseteq> set (map fst ?h)"
  proof -
    show "bindings_ok p (base_hotkeys s)" using default_bindings_ok [OF p] by (auto simp: base_hotkeys_def bindings_ok_def)
    show "set (map fst (base_hotkeys s)) \<subseteq> set (map fst ?h)"
      using s by (auto simp: settings_valid_def base_hotkeys_def legacy_hotkeys_def default_hotkeys_def)
  qed
  have m: "map_of ?hks = map_of ?h"
  proof -
    have "map_of ?hks = map_of (base_hotkeys s) ++ map_of ?h" using ok by (simp add: bindings_ok_def map_of_fold_update)
    also have "\<dots> = map_of ?h"
    proof (rule ext)
      fix a
      show "(map_of (base_hotkeys s) ++ map_of ?h) a = map_of ?h a"
        using base(2) map_of_eq_None_iff [of "base_hotkeys s" a] map_of_eq_None_iff [of ?h a]
        by (cases "map_of ?h a") (auto simp: map_add_def)
    qed
    finally show ?thesis .
  qed
  have d: "distinct (map fst ?hks)" "distinct (map fst ?h)"
    using base(1) ok by (auto simp: bindings_ok_def distinct_fold_update)
  then have set: "set ?hks = set ?h" using m map_of_inject_set [OF d] by simp
  have hks: "bindings_ok p ?hks" using ok d by (simp add: bindings_ok_def set)
  have "distinct (map (\<lambda>(a, h). (hk_mods h, hk_key h)) ?hks)"
    using s d(1) by (simp add: settings_valid_def distinct_map set)
  then have disp: "distinct (map (display \<circ> snd) ?hks)" using display_distinct [OF hks] by simp
  have voice: "(\<exists>k \<in> set (map fst (map (\<lambda>(a, h). (action_value a, f h)) ?h)). action_of p k = Some Voice_translation)
      \<longleftrightarrow> Voice_translation \<in> set (map fst ?h)"
  proof -
    have "action_of p (action_value (fst x)) = Some (fst x)" if "x \<in> set ?h" for x
      using act that by (auto simp: action_of_value)
    then show ?thesis by (force simp: case_prod_beta)
  qed
  have start: "(if \<not> hs_closed s then if Voice_translation \<in> set (map fst ?h) then default_hotkeys else legacy_hotkeys else [])
      = base_hotkeys s" by (cases "hs_closed s") (simp_all only: base_hotkeys_def simp_thms if_True if_False)
  have "validate_hotkeys p (map (\<lambda>(a, h). (action_value a, f h)) ?h) (\<not> hs_closed s) = Inr ?hks"
    unfolding validate_hotkeys_def Let_def voice start normalise_ready [OF act] sum.case if_P [OF disp] by (rule refl)
  from this have "make_settings p (map (\<lambda>(a, h). (action_value a, f h)) ?h) (mode_name (hs_mode s)) (hs_closed s)
      = Inr (s\<lparr>hs_hotkeys := ?hks\<rparr>)" unfolding make_settings_def by (simp only: sum.case mode_of_name) (cases s, simp)
  then show ?thesis using m by blast
qed


lemma flat_absent:
  assumes "map fst d = map ulit [''schema_version'', ''activation_mode'', ''bindings'']" "a \<in> set members"
  shows "add_flat d a parsed = parsed"
proof -
  have "map_of d k = None" if "k \<in> set (flat_names a)" for k
  proof -
    have "k \<notin> set (map fst d)"
      using that assms by (auto simp: members_def flat_names_def action_value_def ulit_def Let_def)
    then show ?thesis by (simp add: map_of_eq_None_iff)
  qed
  then have "find (\<lambda>k. map_of d k \<noteq> None) (flat_names a) = None" by (auto simp: find_None_iff)
  then show ?thesis by (simp add: add_flat_def)
qed

lemma parsed_mapping:
  assumes "settings_valid p s" "settings_mapping s = PDict d"
  shows "parsed_bindings p d (PDict (map (\<lambda>(a, h). (action_value a, hotkey_mapping h)) (hs_hotkeys s)))
    = map (\<lambda>(a, h). (action_value a, Raw (hotkey_mapping h))) (hs_hotkeys s)"
proof -
  have d: "map fst d = map ulit [''schema_version'', ''activation_mode'', ''bindings'']"
    using assms(2) by (auto simp: settings_mapping_def)
  have keep: "fold (add_flat d) ms parsed = parsed" if "set ms \<subseteq> set members" for ms parsed
    using that by (induction ms) (auto simp: flat_absent [OF d])
  have act: "\<forall>x \<in> set (hs_hotkeys s). action_ok (fst x)"
    using assms(1) by (auto simp: settings_valid_def bindings_ok_def)
  have "filter (\<lambda>(k, v). action_of p k \<noteq> None) (map (\<lambda>(a, h). (action_value a, hotkey_mapping h)) hks)
      = map (\<lambda>(a, h). (action_value a, hotkey_mapping h)) hks" if "\<forall>x \<in> set hks. action_ok (fst x)" for hks
    using that by (induction hks) (auto simp: action_of_value)
  from this [OF act] show ?thesis unfolding parsed_bindings_def keep [OF subset_refl] by (simp add: case_prod_beta)
qed

section \<open>Properties\<close>

text \<open>What callers may hand to the draft: bindings and settings that the constructors made.\<close>

definition made :: "text_rules \<Rightarrow> draft_event \<Rightarrow> bool" where
  "made p e \<longleftrightarrow> (case e of Capture k (Ready h) \<Rightarrow> hotkey_ok p h | Restore s \<Rightarrow> settings_valid p s | _ \<Rightarrow> True)"

inductive draft_step :: "text_rules \<Rightarrow> bool \<Rightarrow> hotkey_settings \<Rightarrow> draft_event \<Rightarrow> hotkey_settings \<Rightarrow> bool" for p supported where
  "made p e \<Longrightarrow> draft_call p supported e s = (err, s') \<Longrightarrow> draft_step p supported s e s'"

inductive_cases draft_stepE: "draft_step p supported s e s'"

lemma reset_hotkey_valid:
  assumes "ascii_case p" "settings_valid p s" "reset_hotkey p k s = Inr s'"
  shows "settings_valid p s'"
proof -
  obtain a h where "map_of default_hotkeys a = Some h" "with_hotkey p (action_value a) (Ready h) s = Inr s'"
    using assms(3) by (auto simp: reset_hotkey_def split: option.splits)
  then show ?thesis
    using with_hotkey_valid [OF assms(1,2)] default_bindings_ok [OF assms(1)] by (fastforce simp: bindings_ok_def dest: map_of_SomeD)
qed

lemma with_mode_valid:
  assumes "ascii_case p" "settings_valid p s" "with_activation_mode p m supported s = Inr s'"
  shows "settings_valid p s'"
proof -
  obtain mode where "make_settings p (ready (hs_hotkeys s)) mode (hs_closed s) = Inr s'"
    using assms(3) by (auto simp: with_activation_mode_def split: sum.splits if_splits)
  then show ?thesis
    by (rule make_settings_valid [OF assms(1)]) (use assms(2) ready_ok in \<open>auto simp: settings_valid_def\<close>)
qed

lemma attempt_valid:
  "attempt s r = (err, s') \<Longrightarrow> settings_valid p s \<Longrightarrow> (\<And>t. r = Inr t \<Longrightarrow> settings_valid p t) \<Longrightarrow> settings_valid p s'"
  by (auto simp: attempt_def split: sum.splits)

lemma hotkey_of_event_ok: "hotkey_of_event p n k = Inr h \<Longrightarrow> hotkey_ok p h"
  unfolding hotkey_of_event_def by (rule make_hotkey_ok)

lemma draft_step_valid:
  assumes p: "ascii_case p" and s: "settings_valid p s" and step: "draft_step p supported s e s'"
  shows "settings_valid p s'"
proof -
  obtain err where made: "made p e" and call: "draft_call p supported e s = (err, s')"
    using step by (rule draft_stepE)
  show ?thesis
  proof (cases e)
    case (Capture k b)
    have "settings_valid p t" if "with_hotkey p k b s = Inr t" for t
      using with_hotkey_valid [OF p s that] made by (cases b) (simp_all add: Capture made_def)
    then show ?thesis using call attempt_valid [OF _ s] by (simp add: Capture draft_call_def)
  next
    case (Capture_event k n v)
    then show ?thesis
      using call s attempt_valid [OF _ s] with_hotkey_valid [OF p s] hotkey_of_event_ok
      by (fastforce simp: draft_call_def split: sum.splits)
  qed (use call made s attempt_valid [OF _ s] reset_hotkey_valid [OF p s] with_mode_valid [OF p s] settings_of_valid [OF p]
      default_settings_valid [OF p] in \<open>auto simp: draft_call_def made_def\<close>)
qed

definition draft_start :: "text_rules \<Rightarrow> hotkey_settings \<Rightarrow> bool" where
  "draft_start p s \<longleftrightarrow> ascii_case p \<and> (\<exists>v. s = settings_of p v)"

interpretation draft: stateful_component "draft_start p" "draft_step p supported" "\<lambda>s. ascii_case p \<and> settings_valid p s"
  for p supported
  by unfold_locales (auto simp: draft_start_def settings_of_valid draft_step_valid)


text \<open>
  C29. Shortcuts never collide. Whatever was stored, and after any sequence of captures, resets,
  replacements and mode changes in the settings window, every binding is a supported key, no two
  actions share a combination of keys, and settings that are not a closed catalog still bind the four
  original actions.
\<close>

theorem shortcuts_never_collide:
  assumes "ascii_case p" "run_of (draft_step p supported) (settings_of p v) es s"
  shows "distinct (map fst (hs_hotkeys s)) \<and> distinct (map (\<lambda>(a, h). (hk_mods h, hk_key h)) (hs_hotkeys s))
    \<and> (\<forall>(a, h) \<in> set (hs_hotkeys s). key_ok (hk_key h) \<and> (hk_mods h \<noteq> {} \<or> requires_hook h))
    \<and> (\<not> hs_closed s \<longrightarrow> {Recording, Rewrite, Translation, Visibility} \<subseteq> set (map fst (hs_hotkeys s)))"
proof -
  have "settings_valid p s" using draft.reachable_inv [OF _ assms(2)] assms(1) by (auto simp: draft_start_def)
  then show ?thesis
    by (auto simp: settings_valid_def bindings_ok_def hotkey_ok_def requires_hook_def legacy_hotkeys_def default_hotkeys_def)
qed

definition ascii_rules :: text_rules where
  "ascii_rules = \<lparr>str_lower = map ascii_lower, str_upper = map ascii_raise, str_other = \<lambda>v. []\<rparr>"

lemma ascii_rules_case: "ascii_case ascii_rules"
  by (simp add: ascii_case_def ascii_rules_def)

theorem shortcuts_never_collide_witness:
  "distinct (map (\<lambda>(a, h). (hk_mods h, hk_key h)) (hs_hotkeys (settings_of ascii_rules PNone)))"
proof -
  have "run_of (draft_step ascii_rules False) (settings_of ascii_rules PNone) [] (settings_of ascii_rules PNone)"
    by (rule run_nil)
  from shortcuts_never_collide [OF ascii_rules_case this] show ?thesis by blast
qed

text \<open>
  C30. Saved shortcuts are read back. What \<^verbatim>\<open>to_mapping\<close> writes of valid settings, \<^verbatim>\<open>from_mapping\<close> reads
  as settings with the same mode and the same binding of every action.
\<close>

theorem settings_roundtrip:
  assumes "ascii_case p" "settings_valid p s" "\<not> hs_closed s"
  shows "map_of (hs_hotkeys (settings_of p (settings_mapping s))) = map_of (hs_hotkeys s)
    \<and> hs_mode (settings_of p (settings_mapping s)) = hs_mode s \<and> \<not> hs_closed (settings_of p (settings_mapping s))"
proof -
  let ?b = "map (\<lambda>(a, h). (action_value a, hotkey_mapping h)) (hs_hotkeys s)"
  let ?raw = "map (\<lambda>(a, h). (action_value a, Raw (hotkey_mapping h))) (hs_hotkeys s)"
  obtain d where d: "settings_mapping s = PDict d" by (simp add: settings_mapping_def)
  have get: "get_default d (ulit ''bindings'') x = PDict ?b" "get_default d (ulit ''activation_mode'') x = PStr (mode_name (hs_mode s))" for x
    using d by (auto simp: settings_mapping_def get_default_def ulit_def)
  have "\<forall>(a, h) \<in> set (hs_hotkeys s). parse_binding p (Raw (hotkey_mapping h)) = Inr h"
    using assms(1,2) by (auto simp: settings_valid_def bindings_ok_def hotkey_roundtrip)
  from make_settings_again [OF assms(1,2) this]
  obtain hks where m: "make_settings p ?raw (mode_name (hs_mode s)) False = Inr (s\<lparr>hs_hotkeys := hks\<rparr>)"
    and hks: "map_of hks = map_of (hs_hotkeys s)" using assms(3) by auto
  have raw: "parsed_bindings p d (PDict ?b) = ?raw" by (rule parsed_mapping [OF assms(2) d])
  have "hs_hotkeys s \<noteq> []" using assms(2,3) by (auto simp: settings_valid_def legacy_hotkeys_def default_hotkeys_def)
  then have ne: "?raw \<noteq> []" by simp
  have "settings_of p (settings_mapping s) = s\<lparr>hs_hotkeys := hks\<rparr>"
    unfolding d settings_of_def pyval.case Let_def get raw if_not_P [OF ne] py_str_def m sum.case by (rule refl)
  then show ?thesis using hks assms(3) by simp
qed

theorem settings_roundtrip_witness:
  "hs_mode (settings_of ascii_rules (settings_mapping (default_settings\<lparr>hs_mode := Push_to_talk\<rparr>))) = Push_to_talk"
proof -
  have "settings_valid ascii_rules (default_settings\<lparr>hs_mode := Push_to_talk\<rparr>)"
    using default_settings_valid [OF ascii_rules_case] by (simp add: settings_valid_def default_settings_def)
  from settings_roundtrip [OF ascii_rules_case this] show ?thesis by (simp add: default_settings_def)
qed

end
