(* ===== verification/Workflow_Routes.thy ===== *)
theory Workflow_Routes
  imports Hotkeys
begin

text \<open>
  \<^verbatim>\<open>workflow_config.py\<close>: the provider route of each workflow, read from stored values of several ages.
  Validation against the provider registry and the diagnostics of endpoints are not modelled.
\<close>

section \<open>Scopes\<close>

datatype workflow_scope = Sc_transcription | Sc_refinement | Sc_rewrite | Sc_translation | Sc_local_refinement

definition scope_value :: "workflow_scope \<Rightarrow> ustr" where
  "scope_value s = ulit (case s of Sc_transcription \<Rightarrow> ''transcription'' | Sc_refinement \<Rightarrow> ''refinement''
     | Sc_rewrite \<Rightarrow> ''rewrite'' | Sc_translation \<Rightarrow> ''translation'' | Sc_local_refinement \<Rightarrow> ''local_asr_refinement'')"

definition all_scopes :: "workflow_scope list" where
  "all_scopes = [Sc_transcription, Sc_refinement, Sc_rewrite, Sc_translation, Sc_local_refinement]"

definition scope_aliases :: "(ustr \<times> workflow_scope) list" where
  "scope_aliases = [(ulit ''dictation'', Sc_transcription), (ulit ''cleanup'', Sc_refinement),
     (ulit ''text_refinement'', Sc_refinement), (ulit ''local-refinement'', Sc_local_refinement)]"

definition default_prompt :: "workflow_scope \<Rightarrow> ustr" where
  "default_prompt s = ulit (case s of Sc_transcription \<Rightarrow> ''Transcribe this audio.''
     | Sc_refinement \<Rightarrow> ''Rewrite the transcript clearly while preserving its meaning.''
     | Sc_rewrite \<Rightarrow> ''Rewrite the selected text clearly while preserving every requirement.''
     | Sc_translation \<Rightarrow> ''Translate the selected text literally without adding commentary.''
     | Sc_local_refinement \<Rightarrow> ''Rewrite the local transcript clearly while preserving its meaning.'')"

text \<open>\<^verbatim>\<open>normalize_workflow_scope\<close> of a text; \<open>None\<close> is a value that names no scope.\<close>

definition scope_text :: "text_rules \<Rightarrow> ustr \<Rightarrow> ustr" where
  "scope_text p s = str_lower p (py_strip s)"

definition scope_of :: "text_rules \<Rightarrow> ustr \<Rightarrow> workflow_scope option" where
  "scope_of p s = (case map_of scope_aliases (scope_text p s) of
     Some sc \<Rightarrow> Some sc
   | None \<Rightarrow> find (\<lambda>sc. scope_value sc = scope_text p s) all_scopes)"

section \<open>Routes\<close>

record route =
  rt_provider :: ustr
  rt_model :: ustr
  rt_prompt :: ustr
  rt_endpoint :: ustr
  rt_enabled :: bool
  rt_independent :: bool
  rt_account :: ustr

definition plain_route :: route where
  "plain_route = \<lparr>rt_provider = ulit ''openai'', rt_model = ulit ''gpt-4o-mini'', rt_prompt = [], rt_endpoint = [],
     rt_enabled = True, rt_independent = False, rt_account = []\<rparr>"

text \<open>The first key that holds a string.\<close>

fun route_text :: "(ustr \<times> pyval) list \<Rightarrow> string list \<Rightarrow> ustr \<Rightarrow> ustr" where
  "route_text d [] fallback = fallback"
| "route_text d (k # ks) fallback = (case map_of d (ulit k) of
     Some (PStr s) \<Rightarrow> py_strip s | _ \<Rightarrow> route_text d ks fallback)"

definition route_flag :: "(ustr \<times> pyval) list \<Rightarrow> string \<Rightarrow> bool \<Rightarrow> bool" where
  "route_flag d k fallback = (case map_of d (ulit k) of Some (PBool b) \<Rightarrow> b | _ \<Rightarrow> fallback)"

definition route_of :: "text_rules \<Rightarrow> pyval \<Rightarrow> route \<Rightarrow> route" where
  "route_of p v fallback = (case v of
     PDict d \<Rightarrow> (let provider = str_lower p (route_text d [''provider_id'', ''provider''] (rt_provider fallback)) in
       \<lparr>rt_provider = (if provider = [] then rt_provider fallback else provider),
        rt_model = route_text d [''model_id'', ''model''] (rt_model fallback),
        rt_prompt = route_text d [''prompt''] (rt_prompt fallback),
        rt_endpoint = route_text d [''custom_endpoint'', ''endpoint'', ''base_url''] (rt_endpoint fallback),
        rt_enabled = route_flag d ''enabled'' (rt_enabled fallback),
        rt_independent = route_flag d ''independent'' (rt_independent fallback),
        rt_account = route_text d [''account_id''] (rt_account fallback)\<rparr>)
   | _ \<Rightarrow> fallback)"

definition route_mapping :: "route \<Rightarrow> pyval" where
  "route_mapping r = PDict ([(ulit ''provider_id'', PStr (rt_provider r)), (ulit ''model_id'', PStr (rt_model r)),
     (ulit ''prompt'', PStr (rt_prompt r)), (ulit ''custom_endpoint'', PStr (rt_endpoint r)),
     (ulit ''enabled'', PBool (rt_enabled r)), (ulit ''independent'', PBool (rt_independent r))]
     @ (if rt_account r \<noteq> [] then [(ulit ''account_id'', PStr (rt_account r))] else []))"

section \<open>The configuration\<close>

type_synonym workflow_config = "workflow_scope \<Rightarrow> route"

definition default_config :: workflow_config where
  "default_config s = (case s of
     Sc_transcription \<Rightarrow> plain_route\<lparr>rt_provider := ulit ''gemini'', rt_model := ulit ''gemini-2.5-flash'', rt_prompt := default_prompt s\<rparr>
   | Sc_local_refinement \<Rightarrow> plain_route\<lparr>rt_prompt := default_prompt s, rt_enabled := False\<rparr>
   | _ \<Rightarrow> plain_route\<lparr>rt_prompt := default_prompt s\<rparr>)"

text \<open>A later entry of the same spelling kind replaces an earlier one; the canonical spelling wins.\<close>

fun last_route :: "(ustr \<Rightarrow> bool) \<Rightarrow> (ustr \<times> pyval) list \<Rightarrow> pyval option \<Rightarrow> pyval option" where
  "last_route ok [] found = found"
| "last_route ok ((k, v) # d) found = last_route ok d (if ok k then Some v else found)"

definition raw_route :: "text_rules \<Rightarrow> (ustr \<times> pyval) list \<Rightarrow> workflow_scope \<Rightarrow> pyval" where
  "raw_route p d sc =
     (case last_route (\<lambda>k. scope_of p k = Some sc \<and> scope_text p k = scope_value sc) d None of
        Some v \<Rightarrow> v
      | None \<Rightarrow> (case last_route (\<lambda>k. scope_of p k = Some sc \<and> scope_text p k \<noteq> scope_value sc) d None of
          Some v \<Rightarrow> v | None \<Rightarrow> PNone))"

definition config_of :: "text_rules \<Rightarrow> pyval \<Rightarrow> workflow_config \<Rightarrow> workflow_config" where
  "config_of p v fallback = (case v of
     PDict d \<Rightarrow> (\<lambda>sc. let raw = raw_route p d sc; r = route_of p raw (fallback sc) in
       if (sc = Sc_rewrite \<or> sc = Sc_translation)
         \<and> (case raw of PDict rd \<Rightarrow> map_of rd (ulit ''independent'') = None | _ \<Rightarrow> False)
       then r\<lparr>rt_independent := True\<rparr> else r)
   | _ \<Rightarrow> fallback)"

definition config_mapping :: "workflow_config \<Rightarrow> pyval" where
  "config_mapping c = PDict (map (\<lambda>sc. (scope_value sc, route_mapping (c sc))) all_scopes)"

text \<open>\<^verbatim>\<open>config[scope]\<close> and \<^verbatim>\<open>with_route\<close>: \<open>None\<close> is the KeyError.\<close>

definition config_route :: "text_rules \<Rightarrow> workflow_config \<Rightarrow> ustr \<Rightarrow> route option" where
  "config_route p c s = map_option c (scope_of p s)"

definition with_route :: "text_rules \<Rightarrow> workflow_config \<Rightarrow> ustr \<Rightarrow> route \<Rightarrow> workflow_config option" where
  "with_route p c s r = map_option (\<lambda>sc. c(sc := r)) (scope_of p s)"

section \<open>Round trips\<close>

definition route_ok :: "text_rules \<Rightarrow> route \<Rightarrow> bool" where
  "route_ok p r \<longleftrightarrow> py_strip (rt_provider r) = rt_provider r \<and> str_lower p (rt_provider r) = rt_provider r \<and> rt_provider r \<noteq> []
     \<and> py_strip (rt_model r) = rt_model r \<and> py_strip (rt_prompt r) = rt_prompt r \<and> py_strip (rt_endpoint r) = rt_endpoint r
     \<and> py_strip (rt_account r) = rt_account r"

lemma route_roundtrip:
  assumes "route_ok p r" "rt_account fallback = []"
  shows "route_of p (route_mapping r) fallback = r"
  using assms by (cases r) (auto simp: route_of_def route_mapping_def route_ok_def route_flag_def ulit_def Let_def)

lemma scope_of_value: "ascii_case p \<Longrightarrow> scope_of p (scope_value sc) = Some sc \<and> scope_text p (scope_value sc) = scope_value sc"
proof -
  assume "ascii_case p"
  then have "scope_text p (scope_value sc) = scope_value sc"
    by (cases sc) (simp_all add: scope_text_def ascii_case_def scope_value_def ulit_def py_strip_def py_space_def ascii_lower_def)
  then show ?thesis by (cases sc) (simp_all add: scope_of_def scope_aliases_def scope_value_def ulit_def all_scopes_def)
qed

lemma scope_value_inj [simp]: "scope_value a = scope_value b \<longleftrightarrow> a = b"
  by (cases a; cases b) (simp_all add: scope_value_def ulit_def)

lemma raw_route_mapping:
  assumes "ascii_case p" "config_mapping c = PDict d"
  shows "raw_route p d sc = route_mapping (c sc)"
proof -
  have "d = map (\<lambda>sc. (scope_value sc, route_mapping (c sc))) all_scopes" using assms(2) by (simp add: config_mapping_def)
  then show ?thesis by (cases sc) (simp_all add: raw_route_def all_scopes_def scope_of_value [OF assms(1)])
qed

lemma config_roundtrip:
  assumes "ascii_case p" "\<And>sc. route_ok p (c sc)" "\<And>sc. rt_account (fallback sc) = []"
  shows "config_of p (config_mapping c) fallback = c"
proof
  fix sc
  obtain d where d: "config_mapping c = PDict d" by (simp add: config_mapping_def)
  obtain rd where rd: "route_mapping (c sc) = PDict rd" by (simp add: route_mapping_def)
  have "map_of rd (ulit ''independent'') \<noteq> None" using rd by (auto simp: route_mapping_def ulit_def)
  then show "config_of p (config_mapping c) fallback sc = c sc"
    using route_roundtrip [OF assms(2) assms(3), of sc sc]
    unfolding d config_of_def pyval.case Let_def raw_route_mapping [OF assms(1) d] by (auto simp: rd)
qed

end
