(* ===== verification/Text_Actions.thy ===== *)
theory Text_Actions
  imports Text_Library Workflow_Routes
begin

text \<open>
  \<^verbatim>\<open>text_actions.py\<close>: the desktop side of text actions. It validates the library an account sends, keeps
  the device's own preferences of every action (profile and shortcut) and builds the shortcuts that are
  registered. \<open>frepr\<close> renders a float of a JSON value.
\<close>

section \<open>Input and output\<close>

datatype input_policy = Standard | Paired_computer

definition computer_language :: "ustr \<Rightarrow> bool" where
  "computer_language s \<longleftrightarrow> 1 \<le> length s \<and> length s \<le> 32
     \<and> list_all (\<lambda>c. 65 \<le> c \<and> c \<le> 90 \<or> 97 \<le> c \<and> c \<le> 122 \<or> c = 45) s"

text \<open>Text of at most so many UTF-8 bytes that is not blank.\<close>

definition bounded_text :: "pyval \<Rightarrow> nat \<Rightarrow> bool" where
  "bounded_text v maximum \<longleftrightarrow> (case v of
     PStr s \<Rightarrow> py_strip s \<noteq> [] \<and> (case utf8_len s of Some n \<Rightarrow> n \<le> maximum | None \<Rightarrow> False) | _ \<Rightarrow> False)"

definition validate_input :: "input_policy \<Rightarrow> pyval \<Rightarrow> pyval \<Rightarrow> bool" where
  "validate_input policy v language \<longleftrightarrow>
     bounded_text v (nat (text_input_bytes (capabilities (if policy = Paired_computer then Computer else Account))))
     \<and> (case language of
          PStr l \<Rightarrow> if policy = Paired_computer then computer_language l else l \<in> set (output_languages (capabilities Account))
        | _ \<Rightarrow> False)"

definition validate_output :: "pyval \<Rightarrow> unit + pyval" where
  "validate_output v = (if bounded_text v (nat (text_output_bytes (capabilities Account))) then Inr v else Inl ())"

section \<open>One action\<close>

record device_action =
  da_id :: ustr
  da_name :: ustr
  da_prompt :: ustr
  da_kind :: ustr
  da_enabled :: bool
  da_revision :: int
  da_profile :: ustr
  da_shortcut :: "hotkey option"

definition identity :: "pyval \<Rightarrow> unit + ustr" where
  "identity v = (case v of
     PStr s \<Rightarrow> if 1 \<le> length s \<and> length s \<le> 64 \<and> list_all id_char s then Inr s else Inl () | _ \<Rightarrow> Inl ())"

text \<open>\<^verbatim>\<open>TextAction(...)\<close> with the checks of \<^verbatim>\<open>__post_init__\<close>.\<close>

definition make_action :: "pyval \<Rightarrow> pyval \<Rightarrow> pyval \<Rightarrow> pyval \<Rightarrow> pyval \<Rightarrow> pyval \<Rightarrow> pyval \<Rightarrow> hotkey option \<Rightarrow> unit + device_action" where
  "make_action i name prompt kind enabled revision profile shortcut =
     (case (identity i, name, prompt, kind, enabled, revision, identity profile) of
        (Inr aid, PStr n, PStr pr, PStr k, PBool en, PInt r, Inr prof) \<Rightarrow>
          if py_strip n \<noteq> [] \<and> length n \<le> 80 \<and> bounded_text prompt 8192
            \<and> k \<in> set (map ulit [''rewrite'', ''translation'', ''custom'']) \<and> 1 \<le> r \<and> r \<le> 2 ^ 63 - 1
          then Inr \<lparr>da_id = aid, da_name = n, da_prompt = pr, da_kind = k, da_enabled = en, da_revision = r,
                    da_profile = prof, da_shortcut = shortcut\<rparr>
          else Inl ()
      | _ \<Rightarrow> Inl ())"

definition definition_fields :: "ustr list" where
  "definition_fields = map ulit [''id'', ''name'', ''prompt'', ''kind'', ''enabled'']"

definition definition_members :: "device_action \<Rightarrow> (ustr \<times> pyval) list" where
  "definition_members a = [(ulit ''id'', PStr (da_id a)), (ulit ''name'', PStr (da_name a)), (ulit ''prompt'', PStr (da_prompt a)),
     (ulit ''kind'', PStr (da_kind a)), (ulit ''enabled'', PBool (da_enabled a))]"

definition action_mapping :: "device_action \<Rightarrow> pyval" where
  "action_mapping a = PDict (definition_members a @ [(ulit ''revision'', PInt (da_revision a)),
     (ulit ''processingProfileId'', PStr (da_profile a)),
     (ulit ''shortcut'', case da_shortcut a of Some h \<Rightarrow> hotkey_mapping h | None \<Rightarrow> PNone)])"

definition shortcut_of :: "text_rules \<Rightarrow> pyval \<Rightarrow> unit + hotkey option" where
  "shortcut_of p v = (case v of
     PNone \<Rightarrow> Inr None
   | PDict d \<Rightarrow> if \<not> same_set (dict_keys d) (map ulit [''modifiers'', ''key'']) then Inl ()
       else (case hotkey_of p v of Inl e \<Rightarrow> Inl () | Inr h \<Rightarrow> Inr (Some h))
   | _ \<Rightarrow> Inl ())"

definition action_of_mapping :: "text_rules \<Rightarrow> bool \<Rightarrow> pyval \<Rightarrow> unit + device_action" where
  "action_of_mapping p definition_only v = (case v of PDict d \<Rightarrow>
     if \<not> set (dict_keys d) \<subseteq> set (definition_fields @ [ulit ''revision'']
            @ (if definition_only then [] else map ulit [''processingProfileId'', ''shortcut'']))
       \<or> \<not> set definition_fields \<subseteq> set (dict_keys d) then Inl ()
     else (case shortcut_of p (get_default d (ulit ''shortcut'') PNone) of
       Inl e \<Rightarrow> Inl ()
     | Inr shortcut \<Rightarrow> make_action (get_default d (ulit ''id'') PNone) (get_default d (ulit ''name'') PNone)
         (get_default d (ulit ''prompt'') PNone) (get_default d (ulit ''kind'') PNone) (get_default d (ulit ''enabled'') PNone)
         (get_default d (ulit ''revision'') (PInt 1)) (get_default d (ulit ''processingProfileId'') (PStr (ulit ''default'')))
         shortcut)
   | _ \<Rightarrow> Inl ())"

section \<open>The library\<close>

definition listed :: "device_action list \<Rightarrow> pyval" where
  "listed as = PDict [(ulit ''revision'', PInt 0),
     (ulit ''actions'', PList (map (\<lambda>a. PDict (definition_members a @ [(ulit ''revision'', PInt (da_revision a))])) as))]"

definition size_ok :: "(rat \<Rightarrow> ustr) \<Rightarrow> pyval \<Rightarrow> bool" where
  "size_ok frepr v \<longleftrightarrow> (case compact_size frepr v of Some n \<Rightarrow> n \<le> 262144 | None \<Rightarrow> False)"

definition validate_library :: "device_action list \<Rightarrow> unit + device_action list" where
  "validate_library as =
     (if 64 < length as \<or> \<not> distinct (map da_id as) then Inl ()
      else if \<not> size_ok (\<lambda>_. []) (listed as) then Inl () else Inr as)"

definition read_library :: "text_rules \<Rightarrow> (rat \<Rightarrow> ustr) \<Rightarrow> pyval \<Rightarrow> unit + int \<times> device_action list" where
  "read_library p frepr v = (case v of PDict d \<Rightarrow>
     if \<not> same_set (dict_keys d) (map ulit [''revision'', ''actions'']) then Inl ()
     else (case (map_of d (ulit ''revision''), map_of d (ulit ''actions'')) of
       (Some (PInt n), Some (PList vs)) \<Rightarrow>
         if \<not> (0 \<le> n \<and> n \<le> 2 ^ 63 - 1) then Inl ()
         else if \<not> list_all (\<lambda>x. case x of
             PDict item \<Rightarrow> same_set (dict_keys item) (definition_fields @ [ulit ''revision'']) | _ \<Rightarrow> False) vs then Inl ()
         else if \<not> size_ok frepr v then Inl ()
         else (case map_err (action_of_mapping p True) vs of
           Inl e \<Rightarrow> Inl ()
         | Inr as \<Rightarrow> (case validate_library as of Inl e \<Rightarrow> Inl () | Inr as' \<Rightarrow> Inr (n, as')))
     | _ \<Rightarrow> Inl ())
   | _ \<Rightarrow> Inl ())"

section \<open>The device's settings\<close>

record profile =
  pf_id :: ustr
  pf_route :: route
  pf_source :: ustr

definition make_profile :: "pyval \<Rightarrow> route \<Rightarrow> pyval \<Rightarrow> unit + profile" where
  "make_profile i r source = (case (identity i, source) of
     (Inr pid, PStr s) \<Rightarrow> if s \<in> set (map ulit ['''', ''refinement'', ''rewrite'', ''translation''])
       then Inr \<lparr>pf_id = pid, pf_route = r, pf_source = s\<rparr> else Inl ()
   | _ \<Rightarrow> Inl ())"

definition profile_mapping :: "profile \<Rightarrow> pyval" where
  "profile_mapping f = PDict [(ulit ''id'', PStr (pf_id f)), (ulit ''route'', route_mapping (pf_route f)),
     (ulit ''sourceScope'', PStr (pf_source f))]"

text \<open>The three device mappings are kept as they were stored.\<close>

record text_settings =
  st_actions :: "device_action list"
  st_profiles :: "profile list"
  st_revision :: int
  st_devices :: pyval
  st_after_dictation :: pyval
  st_action_revisions :: pyval

definition profile_named :: "profile list \<Rightarrow> ustr \<Rightarrow> profile option" where
  "profile_named fs i = find (\<lambda>f. pf_id f = i) fs"

definition action_named :: "text_settings \<Rightarrow> ustr \<Rightarrow> device_action option" where
  "action_named s i = find (\<lambda>a. da_id a = i) (st_actions s)"

definition make_text_settings :: "device_action list \<Rightarrow> profile list \<Rightarrow> pyval \<Rightarrow> pyval \<Rightarrow> pyval \<Rightarrow> pyval \<Rightarrow> unit + text_settings" where
  "make_text_settings as fs revision devices after revisions =
     (case (validate_library as, revision) of
        (Inr as', PInt n) \<Rightarrow>
          if 0 \<le> n \<and> length fs \<le> 64 \<and> distinct (map pf_id fs)
            \<and> (fs \<noteq> [] \<longrightarrow> list_all (\<lambda>a. profile_named fs (da_profile a) \<noteq> None) as)
          then Inr \<lparr>st_actions = as, st_profiles = fs, st_revision = n, st_devices = devices,
                    st_after_dictation = after, st_action_revisions = revisions\<rparr>
          else Inl ()
      | _ \<Rightarrow> Inl ())"

definition migrated_action :: "workflow_config \<Rightarrow> hotkey_settings \<Rightarrow> workflow_scope \<Rightarrow> string \<Rightarrow> string \<Rightarrow> hotkey_action \<Rightarrow> unit + device_action" where
  "migrated_action c hs sc i name a = (case map_of (hs_hotkeys hs) a of
     None \<Rightarrow> Inl ()
   | Some h \<Rightarrow> make_action (PStr (ulit i)) (PStr (ulit name))
       (PStr (if rt_prompt (c sc) = [] then default_prompt sc else rt_prompt (c sc))) (PStr (ulit i))
       (PBool (rt_enabled (c sc))) (PInt 1) (PStr (ulit ''legacy-'' @ ulit i)) (Some h))"

definition migrate_settings :: "workflow_config \<Rightarrow> hotkey_settings \<Rightarrow> unit + text_settings" where
  "migrate_settings c hs =
     (case (migrated_action c hs Sc_rewrite ''rewrite'' ''Rewrite'' Rewrite,
            migrated_action c hs Sc_translation ''translation'' ''Translation'' Translation,
            make_profile (PStr (ulit ''default'')) (c Sc_refinement) (PStr (ulit ''refinement'')),
            make_profile (PStr (ulit ''legacy-rewrite'')) (c Sc_rewrite) (PStr (ulit ''rewrite'')),
            make_profile (PStr (ulit ''legacy-translation'')) (c Sc_translation) (PStr (ulit ''translation''))) of
       (Inr a, Inr b, Inr f, Inr g, Inr h) \<Rightarrow> make_text_settings [a, b] [f, g, h] (PInt 0) (PDict []) (PDict []) (PDict [])
     | _ \<Rightarrow> Inl ())"

text \<open>What iterating a stored value yields; the other values raise.\<close>

definition iterated :: "pyval \<Rightarrow> unit + pyval list" where
  "iterated v = (case v of PList xs \<Rightarrow> Inr xs | PStr s \<Rightarrow> Inr (map (\<lambda>c. PStr [c]) s)
     | PDict d \<Rightarrow> Inr (map (PStr \<circ> fst) d) | _ \<Rightarrow> Inl ())"

definition profile_of_mapping :: "text_rules \<Rightarrow> pyval \<Rightarrow> unit + profile" where
  "profile_of_mapping p v = (case v of PDict d \<Rightarrow>
     (case (map_of d (ulit ''id''), map_of d (ulit ''route'')) of
        (Some i, Some r) \<Rightarrow> make_profile i (route_of p r plain_route) (get_default d (ulit ''sourceScope'') (PStr []))
      | _ \<Rightarrow> Inl ())
   | _ \<Rightarrow> Inl ())"

definition text_settings_of :: "text_rules \<Rightarrow> pyval \<Rightarrow> workflow_config \<Rightarrow> hotkey_settings \<Rightarrow> unit + text_settings" where
  "text_settings_of p v c hs = (case v of
     PDict d \<Rightarrow> (case (iterated (get_default d (ulit ''actions'') (PList [])), iterated (get_default d (ulit ''profiles'') (PList []))) of
       (Inr avs, Inr fvs) \<Rightarrow> (case (map_err (action_of_mapping p False) avs, map_err (profile_of_mapping p) fvs) of
          (Inr as, Inr fs) \<Rightarrow> make_text_settings as fs (get_default d (ulit ''revision'') (PInt 0))
            (get_default d (ulit ''devices'') (PDict [])) (get_default d (ulit ''afterDictation'') (PDict []))
            (get_default d (ulit ''actionRevisions'') (PDict []))
        | _ \<Rightarrow> Inl ())
     | _ \<Rightarrow> Inl ())
   | _ \<Rightarrow> migrate_settings c hs)"

definition settings_for :: "text_settings option \<Rightarrow> workflow_config \<Rightarrow> hotkey_settings \<Rightarrow> unit + text_settings" where
  "settings_for configured c hs = (case configured of Some s \<Rightarrow> Inr s | None \<Rightarrow> migrate_settings c hs)"

text \<open>\<open>None\<close>: \<^verbatim>\<open>dict()\<close> of a value that is not a mapping, which its declared type excludes.\<close>

definition text_settings_mapping :: "text_settings \<Rightarrow> pyval option" where
  "text_settings_mapping s = (case (st_devices s, st_after_dictation s, st_action_revisions s) of
     (PDict a, PDict b, PDict c) \<Rightarrow> Some (PDict [(ulit ''actions'', PList (map action_mapping (st_actions s))),
        (ulit ''profiles'', PList (map profile_mapping (st_profiles s))), (ulit ''revision'', PInt (st_revision s)),
        (ulit ''devices'', PDict a), (ulit ''afterDictation'', PDict b), (ulit ''actionRevisions'', PDict c)])
   | _ \<Rightarrow> None)"



section \<open>The account's library is readable\<close>

definition delivered :: "versioned_action \<Rightarrow> device_action" where
  "delivered ar = \<lparr>da_id = tx_id (fst ar), da_name = tx_name (fst ar), da_prompt = tx_prompt (fst ar), da_kind = tx_kind (fst ar),
     da_enabled = tx_enabled (fst ar), da_revision = snd ar, da_profile = ulit ''default'', da_shortcut = None\<rparr>"

lemma delivered_members: "definition_members (delivered ar) = action_members (fst ar)"
  by (simp add: definition_members_def action_members_def delivered_def)

lemma versioned_keys: "map fst (action_members a @ [(ulit ''revision'', v)]) = definition_fields @ [ulit ''revision'']"
  by (simp add: action_members_def definition_fields_def)

lemma read_versioned:
  assumes "action_valid a" "1 \<le> r" "r \<le> max_revision"
  shows "action_of_mapping p True (versioned_json (a, r)) = Inr (delivered (a, r))"
proof -
  have get: "get_default (action_members a @ [(ulit ''revision'', PInt r)]) (ulit k) other = v"
    if "(k, v) \<in> {(''id'', PStr (tx_id a)), (''name'', PStr (tx_name a)), (''prompt'', PStr (tx_prompt a)), (''kind'', PStr (tx_kind a)),
        (''enabled'', PBool (tx_enabled a)), (''revision'', PInt r), (''shortcut'', other), (''processingProfileId'', other)}" for k v other
    using that by (auto simp: get_default_def action_members_def ulit_def)
  have prof: "identity (PStr (ulit ''default'')) = Inr (ulit ''default'')"
    by (simp add: identity_def ulit_def id_char_def ascii_alnum_def)
  have "identity (PStr (tx_id a)) = Inr (tx_id a)" "bounded_text (PStr (tx_prompt a)) 8192"
    using assms(1) by (auto simp: action_valid_iff identity_def valid_id_def bounded_text_def)
  then have m: "make_action (PStr (tx_id a)) (PStr (tx_name a)) (PStr (tx_prompt a)) (PStr (tx_kind a)) (PBool (tx_enabled a)) (PInt r)
      (PStr (ulit ''default'')) None = Inr (delivered (a, r))"
    using assms prof by (simp add: make_action_def action_valid_iff kinds_def max_revision_def delivered_def)
  have keys: "set (dict_keys (action_members a @ [(ulit ''revision'', PInt r)])) = set (definition_fields @ [ulit ''revision''])"
    unfolding dict_keys_def versioned_keys by (rule refl)
  show ?thesis
    unfolding action_of_mapping_def versioned_json_def fst_conv snd_conv pyval.case keys
    by (simp add: get shortcut_of_def m subset_insertI)
qed

lemma compact_renderer:
  "compact_json f (library_json n (map versioned_json as)) = compact_json g (library_json n (map versioned_json as))"
proof -
  have "compact_items f (map versioned_json as) = compact_items g (map versioned_json as)"
    by (induction as) (simp_all add: versioned_json_def action_members_def)
  then show ?thesis by (simp add: library_json_def)
qed

text \<open>A larger revision number never makes the text shorter.\<close>

lemma ascii_utf8: "list_all (\<lambda>c. c < 128) s \<Longrightarrow> utf8_len s = Some (length s)"
  by (induction s) (auto simp: utf8_width_def)

lemma fits_zero:
  assumes "fits (library_json n (map versioned_json as))" "0 \<le> n"
  shows "fits (library_json 0 (map versioned_json as))"
proof -
  let ?rest = "44 # plain_string (ulit ''actions'') @ 58 # 91 # compact_items (\<lambda>_. []) (map versioned_json as) @ [93, 125]"
  have t: "compact_json (\<lambda>_. []) (library_json k (map versioned_json as))
      = (123 # plain_string (ulit ''revision'') @ [58]) @ json_int k @ ?rest" for k
    by (simp add: library_json_def)
  obtain a b where ab: "utf8_len (123 # plain_string (ulit ''revision'') @ [58]) = Some a" "utf8_len ?rest = Some b"
    using assms(1) unfolding fits_def compact_size_def t utf8_len_append by (auto split: option.splits)
  have i: "utf8_len (json_int k) = Some (length (json_int k))" "0 < length (json_int k)" for k
    by (rule ascii_utf8 [OF json_int_ascii]) (rule json_int_hd [of k], simp)
  have z: "length (json_int 0) = 1" by (simp add: json_int_def dec_digits.simps)
  obtain l where l: "length (json_int n) = Suc l" using i(2) [of n] by (cases "length (json_int n)") auto
  show ?thesis
    using assms(1) i(1) [of n] i(1) [of 0] z l unfolding fits_def compact_size_def t utf8_len_append ab by simp
qed


lemma read_library_inv:
  assumes "library_inv l"
  shows "read_library p frepr (library_json (tl_revision l) (map versioned_json (tl_actions l)))
    = Inr (tl_revision l, map delivered (tl_actions l))"
proof -
  let ?as = "tl_actions l" let ?v = "library_json (tl_revision l) (map versioned_json ?as)"
  have inv: "0 \<le> tl_revision l" "tl_revision l \<le> 2 ^ 63 - 1" "length ?as \<le> 64" "distinct (map (tx_id \<circ> fst) ?as)" "fits ?v"
    and each: "\<And>a r. (a, r) \<in> set ?as \<Longrightarrow> action_valid a \<and> 1 \<le> r \<and> r \<le> max_revision"
    using assms by (auto simp: library_inv_def max_revision_def)
  have items: "list_all (\<lambda>x. case x of PDict item \<Rightarrow> same_set (dict_keys item) (definition_fields @ [ulit ''revision'']) | _ \<Rightarrow> False)
      (map versioned_json ?as)"
  proof -
    have "versioned_json x = PDict (action_members (fst x) @ [(ulit ''revision'', PInt (snd x))])"
      "dict_keys (action_members (fst x) @ [(ulit ''revision'', PInt (snd x))]) = definition_fields @ [ulit ''revision'']" for x
      unfolding versioned_json_def dict_keys_def versioned_keys by (rule refl)+
    then show ?thesis by (simp add: list_all_iff same_set_iff)
  qed
  have "map_err (action_of_mapping p True) (map versioned_json ?as) = Inr (map delivered ?as)"
    using each by (simp add: map_err_Inr list_all2_conv_all_nth) (metis nth_mem prod.collapse read_versioned)
  moreover have "size_ok frepr ?v"
    using inv(5) compact_renderer [of frepr "tl_revision l" ?as "\<lambda>_. []"] by (simp add: size_ok_def fits_def compact_size_def)
  moreover have "validate_library (map delivered ?as) = Inr (map delivered ?as)"
  proof -
    have "listed (map delivered ?as) = library_json 0 (map versioned_json ?as)"
      by (simp add: listed_def library_json_def versioned_json_def delivered_members comp_def) (simp add: delivered_def)
    moreover have "distinct (map da_id (map delivered ?as))" using inv(4) by (simp add: delivered_def comp_def)
    ultimately show ?thesis using inv(3) fits_zero [OF inv(5,1)] by (simp add: validate_library_def size_ok_def fits_def)
  qed
  moreover obtain d where d: "?v = PDict d" "same_set (dict_keys d) (map ulit [''revision'', ''actions''])"
    "map_of d (ulit ''revision'') = Some (PInt (tl_revision l))" "map_of d (ulit ''actions'') = Some (PList (map versioned_json ?as))"
    by (simp add: library_json_def dict_keys_def same_set_iff ulit_def)
  ultimately show ?thesis
    using inv(1,2) items unfolding d(1) read_library_def pyval.case d(3,4) by (simp add: d(2))
qed


section \<open>Stored settings are read back\<close>

definition device_action_ok :: "text_rules \<Rightarrow> device_action \<Rightarrow> bool" where
  "device_action_ok p a \<longleftrightarrow> make_action (PStr (da_id a)) (PStr (da_name a)) (PStr (da_prompt a)) (PStr (da_kind a)) (PBool (da_enabled a))
       (PInt (da_revision a)) (PStr (da_profile a)) (da_shortcut a) = Inr a
     \<and> (case da_shortcut a of None \<Rightarrow> True | Some h \<Rightarrow> hotkey_ok p h)"

definition profile_ok :: "text_rules \<Rightarrow> profile \<Rightarrow> bool" where
  "profile_ok p f \<longleftrightarrow> make_profile (PStr (pf_id f)) (pf_route f) (PStr (pf_source f)) = Inr f \<and> route_ok p (pf_route f)"

definition text_settings_ok :: "text_rules \<Rightarrow> text_settings \<Rightarrow> bool" where
  "text_settings_ok p s \<longleftrightarrow> list_all (device_action_ok p) (st_actions s) \<and> list_all (profile_ok p) (st_profiles s)
     \<and> make_text_settings (st_actions s) (st_profiles s) (PInt (st_revision s)) (st_devices s) (st_after_dictation s)
         (st_action_revisions s) = Inr s"

lemma shortcut_roundtrip:
  "ascii_case p \<Longrightarrow> (case sc of None \<Rightarrow> True | Some h \<Rightarrow> hotkey_ok p h) \<Longrightarrow>
     shortcut_of p (case sc of Some h \<Rightarrow> hotkey_mapping h | None \<Rightarrow> PNone) = Inr sc"
  using hotkey_roundtrip by (cases sc) (auto simp: shortcut_of_def hotkey_mapping_def dict_keys_def same_set_iff)

lemma action_roundtrip:
  assumes "ascii_case p" "device_action_ok p a"
  shows "action_of_mapping p False (action_mapping a) = Inr a"
proof -
  obtain d where d: "action_mapping a = PDict d" by (simp add: action_mapping_def)
  have keys: "dict_keys d = definition_fields @ map ulit [''revision'', ''processingProfileId'', ''shortcut'']"
    using d by (auto simp: action_mapping_def definition_members_def dict_keys_def definition_fields_def)
  have get: "get_default d (ulit ''id'') x = PStr (da_id a)" "get_default d (ulit ''name'') x = PStr (da_name a)"
    "get_default d (ulit ''prompt'') x = PStr (da_prompt a)" "get_default d (ulit ''kind'') x = PStr (da_kind a)"
    "get_default d (ulit ''enabled'') x = PBool (da_enabled a)" "get_default d (ulit ''revision'') x = PInt (da_revision a)"
    "get_default d (ulit ''processingProfileId'') x = PStr (da_profile a)"
    "get_default d (ulit ''shortcut'') x = (case da_shortcut a of Some h \<Rightarrow> hotkey_mapping h | None \<Rightarrow> PNone)" for x
    using d by (auto simp: action_mapping_def definition_members_def get_default_def ulit_def)
  show ?thesis
    using assms(2) shortcut_roundtrip [OF assms(1)]
    unfolding d action_of_mapping_def pyval.case keys get device_action_ok_def by (auto simp: definition_fields_def)
qed

lemma profile_roundtrip:
  assumes "profile_ok p f"
  shows "profile_of_mapping p (profile_mapping f) = Inr f"
proof -
  have "route_of p (route_mapping (pf_route f)) plain_route = pf_route f"
    using assms by (intro route_roundtrip) (simp_all add: profile_ok_def plain_route_def)
  then show ?thesis
    using assms by (simp add: profile_of_mapping_def profile_mapping_def get_default_def profile_ok_def ulit_def)
qed

lemma map_err_inverse: "list_all (\<lambda>x. f (g x) = Inr x) xs \<Longrightarrow> map_err f (map g xs) = Inr xs"
  by (induction xs) auto

section \<open>Registered shortcuts\<close>








section \<open>Properties\<close>

text \<open>
  C33. The two sides of the library agree. Whatever an account has been through, the desktop accepts the
  library that the service sends it, with the same revision and the same actions in the same order.
\<close>

theorem account_library_readable:
  assumes "run_of text_step new_account es s"
  shows "read_library p frepr (library_json (tl_revision (current_library s)) (map versioned_json (tl_actions (current_library s))))
    = Inr (tl_revision (current_library s), map delivered (tl_actions (current_library s)))"
proof -
  have "library_inv (current_library s)" using text_runs.reachable_inv [OF refl assms] by (simp add: account_inv_def)
  then show ?thesis by (rule read_library_inv)
qed

theorem account_library_readable_witness:
  "read_library ascii_rules (\<lambda>_. []) (library_json 0 (map versioned_json (tl_actions initial_library)))
    = Inr (0, map delivered (tl_actions initial_library))"
proof -
  have "run_of text_step new_account [] new_account" by (rule run_nil)
  from account_library_readable [OF this, of ascii_rules "\<lambda>_. []"] show ?thesis
    by (simp add: current_library_def new_account_def) (simp add: initial_library_def)
qed

text \<open>
  C34. The device's text settings survive storage: what \<^verbatim>\<open>to_mapping\<close> writes of valid settings, with their
  profiles, routes and shortcuts, \<^verbatim>\<open>from_mapping\<close> reads as the same settings.
\<close>

theorem text_settings_roundtrip:
  assumes "ascii_case p" "text_settings_ok p s" "text_settings_mapping s = Some v"
  shows "text_settings_of p v c hs = Inr s"
proof -
  obtain a b e where m: "st_devices s = PDict a" "st_after_dictation s = PDict b" "st_action_revisions s = PDict e"
    and v: "v = PDict [(ulit ''actions'', PList (map action_mapping (st_actions s))),
        (ulit ''profiles'', PList (map profile_mapping (st_profiles s))), (ulit ''revision'', PInt (st_revision s)),
        (ulit ''devices'', PDict a), (ulit ''afterDictation'', PDict b), (ulit ''actionRevisions'', PDict e)]"
    using assms(3) by (auto simp: text_settings_mapping_def split: pyval.splits)
  have acts: "map_err (action_of_mapping p False) (map action_mapping (st_actions s)) = Inr (st_actions s)"
    using assms(2) action_roundtrip [OF assms(1)] by (intro map_err_inverse) (auto simp: text_settings_ok_def list_all_iff)
  have profs: "map_err (profile_of_mapping p) (map profile_mapping (st_profiles s)) = Inr (st_profiles s)"
    using assms(2) profile_roundtrip by (intro map_err_inverse) (auto simp: text_settings_ok_def list_all_iff)
  obtain d where d: "v = PDict d" "get_default d (ulit ''actions'') (PList []) = PList (map action_mapping (st_actions s))"
    "get_default d (ulit ''profiles'') (PList []) = PList (map profile_mapping (st_profiles s))"
    "get_default d (ulit ''revision'') (PInt 0) = PInt (st_revision s)" "get_default d (ulit ''devices'') (PDict []) = st_devices s"
    "get_default d (ulit ''afterDictation'') (PDict []) = st_after_dictation s"
    "get_default d (ulit ''actionRevisions'') (PDict []) = st_action_revisions s"
    by (simp add: v m get_default_def ulit_def)
  show ?thesis
    using assms(2) unfolding d(1) text_settings_of_def pyval.case d(2-) iterated_def
    by (simp add: acts profs text_settings_ok_def)
qed

definition demo_action :: device_action where
  "demo_action = \<lparr>da_id = ulit ''a'', da_name = ulit ''A'', da_prompt = ulit ''P'', da_kind = ulit ''custom'', da_enabled = True,
     da_revision = 1, da_profile = ulit ''default'', da_shortcut = Some (alt_key ''Q'')\<rparr>"

definition demo_text_settings :: text_settings where
  "demo_text_settings = \<lparr>st_actions = [demo_action], st_profiles = [], st_revision = 0, st_devices = PDict [],
     st_after_dictation = PDict [], st_action_revisions = PDict []\<rparr>"

lemma demo_action_ok: "device_action_ok ascii_rules demo_action"
proof -
  have "make_action (PStr (ulit ''a'')) (PStr (ulit ''A'')) (PStr (ulit ''P'')) (PStr (ulit ''custom'')) (PBool True) (PInt 1)
      (PStr (ulit ''default'')) (Some (alt_key ''Q'')) = Inr demo_action"
    by (simp add: make_action_def identity_def ulit_def id_char_def ascii_alnum_def py_strip_def py_space_def bounded_text_def
        utf8_width_def demo_action_def)
  moreover have "hotkey_ok ascii_rules (alt_key ''Q'')"
    by (simp add: hotkey_ok_def alt_key_def key_ok_def ordinary_keys_def single_keys_def ulit_def self_modifying_def
        modifier_name_def ascii_rules_def ascii_lower_def)
  ultimately show ?thesis by (simp add: device_action_ok_def demo_action_def)
qed

lemma demo_settings_fit: "validate_library [demo_action] = Inr [demo_action]"
proof -
  have "size_ok (\<lambda>_. []) (listed [demo_action])"
    by (simp add: size_ok_def listed_def definition_members_def demo_action_def compact_size_def ulit_def plain_string_def
        plain_escape_def json_int_def dec_digits.simps utf8_width_def)
  then show ?thesis by (simp add: validate_library_def)
qed

theorem text_settings_roundtrip_witness:
  "text_settings_of ascii_rules (the (text_settings_mapping demo_text_settings)) default_config default_settings = Inr demo_text_settings"
proof -
  have "text_settings_ok ascii_rules demo_text_settings"
    using demo_action_ok demo_settings_fit by (simp add: text_settings_ok_def demo_text_settings_def make_text_settings_def)
  moreover have "text_settings_mapping demo_text_settings = Some (the (text_settings_mapping demo_text_settings))"
    by (simp add: text_settings_mapping_def demo_text_settings_def)
  ultimately show ?thesis by (rule text_settings_roundtrip [OF ascii_rules_case])
qed




end
