(* ===== verification/Account_Documents.thy ===== *)
theory Account_Documents
  imports Dictionary Text_Library
begin

text \<open>
  The account documents of \<^verbatim>\<open>server/cloud/service/api.py\<close>: dictionary, snippets and text actions. Each
  is replaced as a whole by a client that names the revision it has read.
\<close>

section \<open>Optimistic replacement\<close>

text \<open>A sequence of requests, of which only the accepted ones change the document.\<close>

fun write_all :: "('q \<Rightarrow> 'd \<Rightarrow> 'e + 'd) \<Rightarrow> 'q list \<Rightarrow> 'd \<Rightarrow> 'q list \<times> 'd" where
  "write_all put [] d = ([], d)"
| "write_all put (q # qs) d = (case put q d of
     Inl e \<Rightarrow> write_all put qs d
   | Inr d' \<Rightarrow> (case write_all put qs d' of (accepted, res) \<Rightarrow> (q # accepted, res)))"

locale versioned_document =
  fixes current :: "'d \<Rightarrow> int"
    and named :: "'q \<Rightarrow> int option"
    and put :: "'q \<Rightarrow> 'd \<Rightarrow> 'e + 'd"
  assumes put_names_current: "put q d = Inr d' \<Longrightarrow> named q = Some (current d)"
    and put_next: "put q d = Inr d' \<Longrightarrow> current d' = current d + 1"
begin

lemma write_all_grows: "current d \<le> current (snd (write_all put qs d))"
proof (induction qs arbitrary: d)
  case (Cons q qs)
  show ?case
  proof (cases "put q d")
    case (Inr d')
    then show ?thesis using Cons [of d'] put_next [OF Inr] by (simp add: case_prod_beta)
  qed (simp add: Cons)
qed simp

lemma accepted_bases: "map named (fst (write_all put qs d)) = map Some [current d..current (snd (write_all put qs d)) - 1]"
proof (induction qs arbitrary: d)
  case (Cons q qs)
  show ?case
  proof (cases "put q d")
    case (Inr d')
    have g: "current d + 1 \<le> current (snd (write_all put qs d'))"
      using write_all_grows [of d' qs] put_next [OF Inr] by simp
    show ?thesis using Cons [of d'] put_names_current [OF Inr] put_next [OF Inr] g
      by (simp add: Inr upto_rec1 case_prod_beta)
  qed (simp add: Cons)
qed simp

end

section \<open>Dictionary and snippets\<close>

record 'a document =
  doc_revision :: int
  doc_entries :: "'a list"

datatype document_error = Doc_invalid | Doc_too_large | Doc_denied | Doc_conflict

definition new_document :: "'a document" where
  "new_document = \<lparr>doc_revision = 0, doc_entries = []\<rparr>"

text \<open>The revision and the entries of a request that has exactly these fields.\<close>

definition request_parts :: "pyval \<Rightarrow> (int \<times> pyval) option" where
  "request_parts v = (case v of PDict d \<Rightarrow>
     if \<not> same_set (dict_keys d) (map ulit [''revision'', ''entries'']) then None
     else (case (map_of d (ulit ''revision''), map_of d (ulit ''entries'')) of
       (Some (PInt n), Some e) \<Rightarrow> if 0 \<le> n then Some (n, e) else None | _ \<Rightarrow> None)
   | _ \<Rightarrow> None)"

definition request_revision :: "pyval \<Rightarrow> int option" where
  "request_revision v = map_option fst (request_parts v)"

definition allowed_items :: "string list \<Rightarrow> pyval list \<Rightarrow> bool" where
  "allowed_items names vs \<longleftrightarrow> list_all (\<lambda>v. case v of
     PDict d \<Rightarrow> set (dict_keys d) \<subseteq> set (map ulit names) | _ \<Rightarrow> False) vs"

definition validate_entries :: "unicode \<Rightarrow> pyval \<Rightarrow> document_error + dict_entry list" where
  "validate_entries u v = (case v of PList vs \<Rightarrow>
     if 512 < length vs then Inl Doc_invalid
     else if \<not> allowed_items [''term'', ''pronunciation'', ''aliases'', ''enabled''] vs then Inl Doc_invalid
     else (case map_err (entry_of_mapping u) vs of
       Inl e \<Rightarrow> Inl Doc_invalid
     | Inr es \<Rightarrow> (case make_library u es [] of Inl e \<Rightarrow> Inl Doc_invalid | Inr l \<Rightarrow> Inr (lib_dictionary l)))
   | _ \<Rightarrow> Inl Doc_invalid)"

definition put_dictionary :: "unicode \<Rightarrow> pyval \<Rightarrow> dict_entry document \<Rightarrow> document_error + dict_entry document" where
  "put_dictionary u q d = (case request_parts q of
     None \<Rightarrow> Inl Doc_invalid
   | Some (n, e) \<Rightarrow> (case validate_entries u e of
       Inl err \<Rightarrow> Inl err
     | Inr es \<Rightarrow> if n \<noteq> doc_revision d then Inl Doc_conflict
         else Inr \<lparr>doc_revision = doc_revision d + 1, doc_entries = es\<rparr>))"

definition validate_snippets :: "unicode \<Rightarrow> pyval \<Rightarrow> document_error + snippet list" where
  "validate_snippets u v = (case v of PList vs \<Rightarrow>
     if 512 < length vs then Inl Doc_invalid
     else if \<not> allowed_items [''trigger'', ''replacement'', ''enabled'', ''case_sensitive''] vs then Inl Doc_invalid
     else (case map_err (snippet_of_mapping u) vs of
       Inl e \<Rightarrow> Inl Doc_invalid
     | Inr ss \<Rightarrow> (case make_library u [] ss of
         Inl e \<Rightarrow> Inl Doc_invalid
       | Inr l \<Rightarrow> if \<exists>s \<in> set (lib_snippets l). py_strip (sn_replacement s) = [] then Inl Doc_invalid
           else (case compact_size (\<lambda>_. []) (PList (map snippet_mapping (lib_snippets l))) of
             None \<Rightarrow> Inl Doc_invalid
           | Some n \<Rightarrow> if 262144 < n then Inl Doc_too_large else Inr (lib_snippets l))))
   | _ \<Rightarrow> Inl Doc_invalid)"

definition put_snippets :: "unicode \<Rightarrow> bool \<Rightarrow> pyval \<Rightarrow> snippet document \<Rightarrow> document_error + snippet document" where
  "put_snippets u owner q d = (case request_parts q of
     None \<Rightarrow> Inl Doc_invalid
   | Some (n, e) \<Rightarrow> (case validate_snippets u e of
       Inl err \<Rightarrow> Inl err
     | Inr ss \<Rightarrow> if \<not> owner then Inl Doc_denied
         else if n \<noteq> doc_revision d then Inl Doc_conflict
         else Inr \<lparr>doc_revision = doc_revision d + 1, doc_entries = ss\<rparr>))"

section \<open>Text actions\<close>

definition text_request :: "pyval \<Rightarrow> (pyval \<times> pyval) option" where
  "text_request v = (case v of PDict d \<Rightarrow>
     if \<not> same_set (dict_keys d) (map ulit [''expected_revision'', ''actions'']) then None
     else (case (map_of d (ulit ''expected_revision''), map_of d (ulit ''actions'')) of
       (Some n, Some a) \<Rightarrow> Some (n, a) | _ \<Rightarrow> None)
   | _ \<Rightarrow> None)"

definition put_text_actions :: "bool \<Rightarrow> pyval \<Rightarrow> text_library option \<Rightarrow> text_error + text_library option" where
  "put_text_actions owner q stored = (case text_request q of
     None \<Rightarrow> Inl Bad_request
   | Some (n, a) \<Rightarrow> (case replace_actions owner n a stored of Inl e \<Rightarrow> Inl e | Inr l \<Rightarrow> Inr (Some l)))"

definition text_revision :: "text_library option \<Rightarrow> int" where
  "text_revision stored = (case stored of Some l \<Rightarrow> tl_revision l | None \<Rightarrow> tl_revision initial_library)"

definition text_named :: "pyval \<Rightarrow> int option" where
  "text_named q = (case text_request q of Some (PInt n, a) \<Rightarrow> Some n | _ \<Rightarrow> None)"

section \<open>The three documents follow the protocol\<close>

interpretation dictionary_document: versioned_document doc_revision request_revision "put_dictionary u" for u
  by unfold_locales (auto simp: put_dictionary_def request_revision_def split: option.splits sum.splits if_splits)

interpretation snippet_document: versioned_document doc_revision request_revision "put_snippets u owner" for u owner
  by unfold_locales (auto simp: put_snippets_def request_revision_def split: option.splits sum.splits if_splits)

lemma put_text_cases:
  assumes "put_text_actions owner q stored = Inr stored'"
  shows "text_named q = Some (text_revision stored) \<and> text_revision stored' = text_revision stored + 1"
proof -
  obtain n a l where r: "text_request q = Some (n, a)" "replace_actions owner n a stored = Inr l" "stored' = Some l"
    using assms by (auto simp: put_text_actions_def split: option.splits sum.splits)
  show ?thesis
    using r(2)
  proof (rule replace_actions_cases)
    fix l0 as
    assume "library_locked owner stored = Inr l0" "n = PInt (tl_revision l0)" "tl_revision l = tl_revision l0 + 1"
    moreover from this have "tl_revision l0 = text_revision stored"
      by (auto simp: library_locked_def text_revision_def split: if_splits option.splits)
    ultimately show ?thesis by (simp add: text_named_def text_revision_def r)
  qed
qed

interpretation text_document: versioned_document text_revision text_named "put_text_actions owner" for owner
  by unfold_locales (simp_all add: put_text_cases)

section \<open>Properties\<close>

text \<open>
  C32. No update is lost. Whatever clients send, the accepted replacements of an account's dictionary, of
  its snippets and of its text actions name exactly the revisions that follow each other, one each: two
  clients that have read the same revision never both replace it.
\<close>

theorem no_lost_update:
  "map request_revision (fst (write_all (put_dictionary u) qs dictionary))
       = map Some [doc_revision dictionary..doc_revision (snd (write_all (put_dictionary u) qs dictionary)) - 1]
   \<and> map request_revision (fst (write_all (put_snippets u owner) qs snippets))
       = map Some [doc_revision snippets..doc_revision (snd (write_all (put_snippets u owner) qs snippets)) - 1]
   \<and> map text_named (fst (write_all (put_text_actions owner) qs stored))
       = map Some [text_revision stored..text_revision (snd (write_all (put_text_actions owner) qs stored)) - 1]"
  using dictionary_document.accepted_bases snippet_document.accepted_bases text_document.accepted_bases by blast

end
