(* ===== verification/Account_History.thy ===== *)
theory Account_History
  imports History_Service Codecs Calendar Py_Decimal "HOL-Library.AList"
begin

text \<open>
  \<^verbatim>\<open>account_history.py\<close>: the device's durable copy of an account's history, with the work that has not
  been sent yet. A local record is kept with the fields this module reads and writes; the rest of
  \<^verbatim>\<open>HistoryRecord\<close>, its redaction and its file format belong to \<^verbatim>\<open>history_store.py\<close>. Times are exact
  rationals.
\<close>

section \<open>Wire entries\<close>

datatype cache_error = Bad_value | Store_error | History_conflict | Account_changed | Sync_failed

definition wire_id :: "ustr \<Rightarrow> bool" where
  "wire_id s \<longleftrightarrow> 1 \<le> length s \<and> length s \<le> 128 \<and> list_all id_char s"

definition wire_text :: "pyval \<Rightarrow> ustr option" where
  "wire_text v = (case v of PStr s \<Rightarrow> (case utf8_len s of Some n \<Rightarrow> if n \<le> 32768 then Some s else None | None \<Rightarrow> None)
     | _ \<Rightarrow> None)"

definition wire_of :: "pyval \<Rightarrow> cache_error + payload" where
  "wire_of v = (case v of PDict d \<Rightarrow>
     if \<not> same_set (dict_keys d) (map ulit [''id'', ''createdAt'', ''transcript'', ''text'', ''rewritten'', ''sourceDevice''])
     then Inl Bad_value
     else (case (map_of d (ulit ''id''), map_of d (ulit ''createdAt''), map_of d (ulit ''transcript''), map_of d (ulit ''text''),
                 map_of d (ulit ''rewritten''), map_of d (ulit ''sourceDevice'')) of
       (Some (PStr i), Some c, Some tr, Some tx, Some (PBool r), Some (PStr dev)) \<Rightarrow>
         (case (number_of c, wire_text tr, wire_text tx) of
            (Some t, Some transcript, Some txt) \<Rightarrow>
              if wire_id i \<and> 0 < t \<and> t < 4102444800 \<and> py_strip txt \<noteq> [] \<and> dev \<in> {ulit ''desktop'', ulit ''mobile''}
              then Inr \<lparr>pl_id = i, pl_created = t, pl_transcript = transcript, pl_text = txt, pl_rewritten = r, pl_device = dev\<rparr>
              else Inl Bad_value
          | _ \<Rightarrow> Inl Bad_value)
     | _ \<Rightarrow> Inl Bad_value)
   | _ \<Rightarrow> Inl Bad_value)"

definition wire_ok :: "payload \<Rightarrow> bool" where
  "wire_ok w \<longleftrightarrow> wire_of (payload_json w) = Inr w"

record local_record =
  lr_id :: ustr
  lr_time :: rat
  lr_raw :: "ustr option"
  lr_refined :: "ustr option"
  lr_device :: "ustr option"

definition entry_of :: "local_record \<Rightarrow> ustr option \<Rightarrow> cache_error + payload" where
  "entry_of r final_text =
     (let raw = (case lr_raw r of Some s \<Rightarrow> s | None \<Rightarrow> []);
          device = (case lr_device r of Some s \<Rightarrow> if s = [] then ulit ''desktop'' else s | None \<Rightarrow> ulit ''desktop'') in
      wire_of (payload_json \<lparr>pl_id = lr_id r, pl_created = lr_time r, pl_transcript = raw,
        pl_text = (case final_text of Some t \<Rightarrow> t | None \<Rightarrow> (case lr_refined r of Some t \<Rightarrow> t | None \<Rightarrow> raw)),
        pl_rewritten = (lr_refined r \<noteq> None), pl_device = device\<rparr>))"

text \<open>\<^verbatim>\<open>datetime.fromtimestamp\<close> keeps whole microseconds.\<close>

definition imported :: "payload \<Rightarrow> local_record" where
  "imported w = \<lparr>lr_id = pl_id w, lr_time = of_int (round_half_even (pl_created w * 1000000)) / 1000000,
     lr_raw = Some (pl_transcript w),
     lr_refined = (if pl_rewritten w \<or> pl_text w \<noteq> pl_transcript w then Some (pl_text w) else None),
     lr_device = Some (pl_device w)\<rparr>"

section \<open>The document\<close>

record cached =
  ch_record :: local_record
  ch_wire :: payload

record cache =
  cc_cursor :: int
  cc_records :: "(ustr \<times> cached) list"
  cc_pending :: "(ustr \<times> payload) list"
  cc_deleted :: "ustr list"
  cc_tombstones :: "ustr list"
  cc_clear :: "nat option"

definition empty_cache :: cache where
  "empty_cache = \<lparr>cc_cursor = 0, cc_records = [], cc_pending = [], cc_deleted = [], cc_tombstones = [], cc_clear = None\<rparr>"

text \<open>The checks of \<^verbatim>\<open>_read\<close> on a document of the right shape.\<close>

definition cache_readable :: "cache \<Rightarrow> bool" where
  "cache_readable c \<longleftrightarrow> 0 \<le> cc_cursor c
     \<and> list_all (\<lambda>(k, x). wire_ok (ch_wire x) \<and> pl_id (ch_wire x) = k \<and> lr_id (ch_record x) = k) (cc_records c)
     \<and> list_all (\<lambda>(k, w). wire_ok w \<and> pl_id w = k \<and> (case map_of (cc_records c) k of Some x \<Rightarrow> ch_wire x = w | None \<Rightarrow> False)
          \<and> k \<notin> set (cc_tombstones c)) (cc_pending c)
     \<and> list_all wire_id (cc_deleted c @ cc_tombstones c)"

definition read_cache :: "cache option \<Rightarrow> cache_error + cache" where
  "read_cache stored = (case stored of
     None \<Rightarrow> Inr empty_cache | Some c \<Rightarrow> if cache_readable c then Inr c else Inl Store_error)"

definition add_once :: "ustr list \<Rightarrow> ustr \<Rightarrow> ustr list" where
  "add_once xs x = (if x \<in> set xs then xs else xs @ [x])"

section \<open>Local operations\<close>

text \<open>\<open>Inr None\<close>: nothing is written. The flag is the answer of the call.\<close>

definition append_record :: "local_record \<Rightarrow> ustr option \<Rightarrow> cache option \<Rightarrow> cache_error + bool \<times> cache option" where
  "append_record record0 final_text stored =
     (let r = record0\<lparr>lr_device := Some (ulit ''desktop'')\<rparr> in
      case entry_of r final_text of
        Inl e \<Rightarrow> Inl e
      | Inr wire \<Rightarrow> (case read_cache stored of
          Inl e \<Rightarrow> Inl e
        | Inr c \<Rightarrow>
            if lr_id r \<in> set (cc_tombstones c) then Inr (False, None)
            else (case map_of (cc_records c) (lr_id r) of
              Some x \<Rightarrow> if ch_wire x \<noteq> wire then Inl Bad_value else Inr (True, None)
            | None \<Rightarrow> Inr (True, Some (c\<lparr>cc_records := cc_records c @ [(lr_id r, \<lparr>ch_record = r, ch_wire = wire\<rparr>)],
                cc_pending := AList.update (lr_id r) wire (cc_pending c)\<rparr>)))))"

definition delete_record :: "ustr \<Rightarrow> cache option \<Rightarrow> cache_error + cache option" where
  "delete_record i stored = (case read_cache stored of
     Inl e \<Rightarrow> Inl e
   | Inr c \<Rightarrow> if map_of (cc_records c) i = None then Inr None
       else Inr (Some (c\<lparr>cc_records := AList.delete i (cc_records c), cc_pending := AList.delete i (cc_pending c),
         cc_deleted := add_once (cc_deleted c) i, cc_tombstones := add_once (cc_tombstones c) i\<rparr>)))"

definition clear_cache :: "nat \<Rightarrow> cache option \<Rightarrow> cache_error + cache" where
  "clear_cache op stored = (case read_cache stored of
     Inl e \<Rightarrow> Inl e
   | Inr c \<Rightarrow> Inr (c\<lparr>cc_tombstones := foldl add_once [] (cc_tombstones c @ map fst (cc_records c)),
       cc_records := [], cc_pending := [], cc_deleted := [], cc_clear := Some op\<rparr>))"

section \<open>Synchronization\<close>

record batch =
  bt_cursor :: int
  bt_upserts :: "payload list"
  bt_deletes :: "ustr list"
  bt_clear :: "ustr option"

text \<open>
  \<^verbatim>\<open>json.dumps(value)\<close> with its default separators; \<open>frepr\<close> is \<^verbatim>\<open>float.__repr__\<close> and
  \<open>show_uuid\<close> is \<^verbatim>\<open>str(uuid)\<close>.
\<close>

fun json_text :: "(rat \<Rightarrow> ustr) \<Rightarrow> pyval \<Rightarrow> ustr"
  and item_texts :: "(rat \<Rightarrow> ustr) \<Rightarrow> pyval list \<Rightarrow> ustr list"
  and member_texts :: "(rat \<Rightarrow> ustr) \<Rightarrow> (ustr \<times> pyval) list \<Rightarrow> ustr list" where
  "json_text frepr PNone = ulit ''null''"
| "json_text frepr (PBool b) = (if b then ulit ''true'' else ulit ''false'')"
| "json_text frepr (PInt i) = json_int i"
| "json_text frepr (PFloat q) = frepr q"
| "json_text frepr PNonfinite = ulit ''NaN''"
| "json_text frepr (PStr s) = json_string s"
| "json_text frepr (PList vs) = 91 # join [44, 32] (item_texts frepr vs) @ [93]"
| "json_text frepr (PDict d) = 123 # join [44, 32] (member_texts frepr d) @ [125]"
| "item_texts frepr [] = []"
| "item_texts frepr (v # vs) = json_text frepr v # item_texts frepr vs"
| "member_texts frepr [] = []"
| "member_texts frepr ((k, v) # d) = (json_string k @ [58, 32] @ json_text frepr v) # member_texts frepr d"

definition batch_json :: "batch \<Rightarrow> pyval" where
  "batch_json b = PDict ([(ulit ''cursor'', PInt (bt_cursor b)), (ulit ''upserts'', PList (map payload_json (bt_upserts b))),
     (ulit ''deletes'', PList (map PStr (bt_deletes b)))]
     @ (case bt_clear b of Some s \<Rightarrow> [(ulit ''clearID'', PStr s)] | None \<Rightarrow> []))"

fun fill_upserts :: "(rat \<Rightarrow> ustr) \<Rightarrow> payload list \<Rightarrow> batch \<Rightarrow> batch" where
  "fill_upserts frepr [] b = b"
| "fill_upserts frepr (w # ws) b =
     (let b' = b\<lparr>bt_upserts := bt_upserts b @ [w]\<rparr> in
      if 409600 < length (json_text frepr (batch_json b')) then b else fill_upserts frepr ws b')"

definition make_batch :: "(rat \<Rightarrow> ustr) \<Rightarrow> (nat \<Rightarrow> ustr) \<Rightarrow> cache \<Rightarrow> batch" where
  "make_batch frepr show_uuid c = (case cc_clear c of
     Some op \<Rightarrow> \<lparr>bt_cursor = cc_cursor c, bt_upserts = [], bt_deletes = [], bt_clear = Some (show_uuid op)\<rparr>
   | None \<Rightarrow> fill_upserts frepr (take 50 (map snd (cc_pending c)))
       \<lparr>bt_cursor = cc_cursor c, bt_upserts = [], bt_deletes = take 50 (cc_deleted c), bt_clear = None\<rparr>)"

definition page_of :: "(ustr \<times> pyval) list \<Rightarrow> int \<Rightarrow> cache_error + page" where
  "page_of d cursor = (case (map_of d (ulit ''cursor''), map_of d (ulit ''hasMore''), map_of d (ulit ''entries''),
       map_of d (ulit ''deleted'')) of
     (Some (PInt n), Some (PBool m), Some (PList es), Some (PList ds)) \<Rightarrow>
       if n < cursor \<or> 20 < length es + length ds then Inl Bad_value
       else if m \<and> n \<le> cursor then Inl Bad_value
       else if (es \<noteq> [] \<or> ds \<noteq> []) \<and> n \<le> cursor then Inl Bad_value
       else (case (map_err wire_of es, map_err (\<lambda>v. case v of PStr s \<Rightarrow> if wire_id s then Inr s else Inl Bad_value
             | _ \<Rightarrow> Inl Bad_value) ds) of
         (Inr entries, Inr deleted) \<Rightarrow> Inr \<lparr>pg_cursor = n, pg_more = m, pg_entries = entries, pg_deleted = deleted\<rparr>
       | _ \<Rightarrow> Inl Bad_value)
   | _ \<Rightarrow> Inl Bad_value)"

text \<open>What the response acknowledges, then the deletions, then the entries.\<close>

definition acknowledge :: "(nat \<Rightarrow> ustr) \<Rightarrow> batch \<Rightarrow> cache \<Rightarrow> cache" where
  "acknowledge show_uuid b c = c\<lparr>
     cc_clear := (if bt_clear b = map_option show_uuid (cc_clear c) then None else cc_clear c),
     cc_pending := fold (\<lambda>w p. if map_of p (pl_id w) = Some w then AList.delete (pl_id w) p else p) (bt_upserts b) (cc_pending c),
     cc_deleted := filter (\<lambda>i. i \<notin> set (bt_deletes b)) (cc_deleted c)\<rparr>"

definition drop_record :: "ustr \<Rightarrow> cache \<Rightarrow> cache" where
  "drop_record i c = c\<lparr>cc_records := AList.delete i (cc_records c), cc_pending := AList.delete i (cc_pending c),
     cc_tombstones := add_once (cc_tombstones c) i\<rparr>"

fun merge_entries :: "payload list \<Rightarrow> cache \<Rightarrow> cache_error + cache" where
  "merge_entries [] c = Inr c"
| "merge_entries (w # ws) c =
     (if cc_clear c \<noteq> None \<or> pl_id w \<in> set (cc_tombstones c) then merge_entries ws c
      else (case map_of (cc_records c) (pl_id w) of
        Some x \<Rightarrow> if ch_wire x \<noteq> w then Inl History_conflict else merge_entries ws c
      | None \<Rightarrow> merge_entries ws (c\<lparr>cc_records := cc_records c @ [(pl_id w, \<lparr>ch_record = imported w, ch_wire = w\<rparr>)]\<rparr>)))"

definition merge_page :: "(nat \<Rightarrow> ustr) \<Rightarrow> batch \<Rightarrow> page \<Rightarrow> cache \<Rightarrow> cache_error + cache" where
  "merge_page show_uuid b g c =
     (case merge_entries (pg_entries g) (fold drop_record (pg_deleted g) (acknowledge show_uuid b c)) of
        Inl e \<Rightarrow> Inl e | Inr c' \<Rightarrow> Inr (c'\<lparr>cc_cursor := pg_cursor g\<rparr>))"

definition changed_by :: "batch \<Rightarrow> page \<Rightarrow> cache \<Rightarrow> bool" where
  "changed_by b g c \<longleftrightarrow> bt_clear b \<noteq> None \<or> bt_upserts b \<noteq> [] \<or> bt_deletes b \<noteq> [] \<or> pg_entries g \<noteq> [] \<or> pg_deleted g \<noteq> []
     \<or> pg_cursor g \<noteq> cc_cursor c"

definition sync_finished :: "page \<Rightarrow> cache \<Rightarrow> bool" where
  "sync_finished g c \<longleftrightarrow> \<not> pg_more g \<and> cc_pending c = [] \<and> cc_deleted c = [] \<and> cc_clear c = None"

section \<open>Entries accepted by both sides\<close>

definition wire_fields :: "pyval option \<Rightarrow> pyval option \<Rightarrow> pyval option \<Rightarrow> pyval option \<Rightarrow> pyval option \<Rightarrow> pyval option \<Rightarrow> payload \<Rightarrow> bool" where
  "wire_fields i c tr tx r dev w \<longleftrightarrow> i = Some (PStr (pl_id w)) \<and> (\<exists>n. c = Some n \<and> number_of n = Some (pl_created w))
     \<and> (\<exists>t. tr = Some t \<and> wire_text t = Some (pl_transcript w)) \<and> (\<exists>t. tx = Some t \<and> wire_text t = Some (pl_text w))
     \<and> r = Some (PBool (pl_rewritten w)) \<and> dev = Some (PStr (pl_device w)) \<and> wire_id (pl_id w) \<and> 0 < pl_created w
     \<and> pl_created w < 4102444800 \<and> py_strip (pl_text w) \<noteq> [] \<and> pl_device w \<in> {ulit ''desktop'', ulit ''mobile''}"

lemma wire_of_fields: "wire_of (PDict d) = Inr w \<longleftrightarrow> same_set (dict_keys d) entry_fields
    \<and> wire_fields (map_of d (ulit ''id'')) (map_of d (ulit ''createdAt'')) (map_of d (ulit ''transcript'')) (map_of d (ulit ''text''))
        (map_of d (ulit ''rewritten'')) (map_of d (ulit ''sourceDevice'')) w"
proof -
  have "(case (i, c, tr, tx, r, dev) of
       (Some (PStr i), Some c, Some tr, Some tx, Some (PBool r), Some (PStr dev)) \<Rightarrow>
         (case (number_of c, wire_text tr, wire_text tx) of
            (Some t, Some transcript, Some txt) \<Rightarrow>
              if wire_id i \<and> 0 < t \<and> t < 4102444800 \<and> py_strip txt \<noteq> [] \<and> dev \<in> {ulit ''desktop'', ulit ''mobile''}
              then Inr \<lparr>pl_id = i, pl_created = t, pl_transcript = transcript, pl_text = txt, pl_rewritten = r, pl_device = dev\<rparr>
              else Inl Bad_value
          | _ \<Rightarrow> Inl Bad_value)
     | _ \<Rightarrow> Inl Bad_value) = Inr w \<longleftrightarrow> wire_fields i c tr tx r dev w" for i c tr tx r dev
    unfolding wire_fields_def by (cases w) (auto split: option.splits pyval.splits)
  then show ?thesis unfolding wire_of_def pyval.case entry_fields_def by simp
qed

lemma entry_wire_fields: "entry (PDict d) = Inr w \<longleftrightarrow> same_set (dict_keys d) entry_fields
    \<and> wire_fields (map_of d (ulit ''id'')) (map_of d (ulit ''createdAt'')) (map_of d (ulit ''transcript'')) (map_of d (ulit ''text''))
        (map_of d (ulit ''rewritten'')) (map_of d (ulit ''sourceDevice'')) w"
proof -
  have same_texts: "text_of = wire_text"
    by (rule ext) (auto simp: text_of_def wire_text_def split: pyval.splits option.splits)
  have "(case (i, c, r, dev, tr, tx) of
       (Some i, Some c, Some (PBool r), Some (PStr dev), Some tr, Some tx) \<Rightarrow>
         (case (record_id i, number_of c, wire_text tr, wire_text tx) of
            (Inr rid, Some t, Some transcript, Some text) \<Rightarrow>
              if 0 < t \<and> t < 4102444800 \<and> (dev = ulit ''mobile'' \<or> dev = ulit ''desktop'') \<and> py_strip text \<noteq> []
              then Inr \<lparr>pl_id = rid, pl_created = t, pl_transcript = transcript, pl_text = text,
                        pl_rewritten = r, pl_device = dev\<rparr>
              else Inl ()
          | _ \<Rightarrow> Inl ())
     | _ \<Rightarrow> Inl ()) = Inr w \<longleftrightarrow> wire_fields i c tr tx r dev w" for i c tr tx r dev
    unfolding wire_fields_def record_id_def wire_id_def by (cases w) (auto split: option.splits pyval.splits)
  then show ?thesis unfolding entry_def pyval.case same_texts by simp
qed

lemma wire_of_eq: "wire_of v = Inr w \<longleftrightarrow> entry v = Inr w"
proof (cases v)
  case (PDict d)
  show ?thesis by (simp only: PDict wire_of_fields entry_wire_fields)
qed (auto simp: wire_of_def entry_def)

lemma wire_ok_iff:
  "wire_ok w \<longleftrightarrow> wire_id (pl_id w) \<and> 0 < pl_created w \<and> pl_created w < 4102444800 \<and> py_strip (pl_text w) \<noteq> []
     \<and> pl_device w \<in> {ulit ''desktop'', ulit ''mobile''} \<and> wire_text (PStr (pl_transcript w)) \<noteq> None \<and> wire_text (PStr (pl_text w)) \<noteq> None"
proof -
  have keys: "same_set (dict_keys [(ulit ''id'', a), (ulit ''createdAt'', b), (ulit ''transcript'', c), (ulit ''text'', d), (ulit ''rewritten'', e),
      (ulit ''sourceDevice'', f)]) (map ulit [''id'', ''createdAt'', ''transcript'', ''text'', ''rewritten'', ''sourceDevice''])" for a b c d e f :: pyval
    by (simp add: same_set_iff dict_keys_def)
  show ?thesis
    unfolding wire_ok_def payload_json_def wire_of_fields entry_fields_def
    by (simp only: keys) (auto simp: ulit_def number_of_def wire_text_def wire_fields_def split: option.splits if_splits)
qed

lemma wire_text_again: "wire_text t = Some x \<Longrightarrow> wire_text (PStr x) = Some x"
  by (cases t) (auto simp: wire_text_def split: option.splits if_splits)

lemma wire_of_ok:
  assumes "wire_of v = Inr w"
  shows "wire_ok w"
proof -
  obtain d where "v = PDict d" using assms by (cases v) (simp_all add: wire_of_def)
  with assms have fields: "wire_fields (map_of d (ulit ''id'')) (map_of d (ulit ''createdAt'')) (map_of d (ulit ''transcript''))
      (map_of d (ulit ''text'')) (map_of d (ulit ''rewritten'')) (map_of d (ulit ''sourceDevice'')) w"
    by (simp add: wire_of_fields)
  then obtain t u where "wire_text t = Some (pl_transcript w)" "wire_text u = Some (pl_text w)"
    unfolding wire_fields_def by blast
  from this [THEN wire_text_again] fields show ?thesis
    unfolding wire_fields_def wire_ok_iff by simp
qed

lemma wire_ok_entry: "wire_ok w \<Longrightarrow> entry (payload_json w) = Inr w"
  by (simp add: wire_ok_def flip: wire_of_eq)


section \<open>The size of a batch\<close>

lemma join_length: "length (join sep xs) \<le> sum_list (map length xs) + length xs * length sep"
  by (induction sep xs rule: join.induct) auto

lemma escape_char_length: "utf8_width c = Some n \<Longrightarrow> length (escape_char c) \<le> 6 * n"
  by (auto simp: utf8_width_def escape_char_def u_escape_def split: if_splits)

lemma json_string_length: "utf8_len s = Some n \<Longrightarrow> length (json_string s) \<le> 6 * n + 2"
proof -
  have "utf8_len s = Some n \<Longrightarrow> length (concat (map escape_char s)) \<le> 6 * n" for n
  proof (induction s arbitrary: n)
    case (Cons c s)
    then obtain a b where ab: "utf8_width c = Some a" "utf8_len s = Some b" "n = a + b" by (auto split: option.splits)
    from Cons.IH [OF ab(2)] escape_char_length [OF ab(1)] ab(3) show ?case by simp
  qed simp
  then show "utf8_len s = Some n \<Longrightarrow> ?thesis" by (simp add: json_string_def)
qed

lemma id_char_escape: "id_char c \<Longrightarrow> escape_char c = [c]"
  by (auto simp: id_char_def ascii_alnum_def escape_char_def)

lemma json_id_length: "wire_id s \<Longrightarrow> length (json_string s) \<le> 130"
proof -
  assume w: "wire_id s"
  have "list_all id_char s \<Longrightarrow> concat (map escape_char s) = s" by (induction s) (auto simp: id_char_escape)
  then show ?thesis using w by (simp add: json_string_def wire_id_def)
qed

lemma dec_digits_length: "n < 10 ^ k \<Longrightarrow> 0 < k \<Longrightarrow> length (dec_digits n) \<le> k"
proof (induction k arbitrary: n)
  case (Suc k)
  show ?case
  proof (cases "n < 10")
    case True
    then show ?thesis by (subst dec_digits.simps) simp
  next
    case False
    then have "n div 10 < 10 ^ k" "0 < k" using Suc.prems(1) by (cases k; simp add: less_mult_imp_div_less mult.commute)+
    from Suc.IH [OF this] show ?thesis using False by (subst dec_digits.simps) simp
  qed
qed simp

lemma json_cursor_length: "0 \<le> i \<Longrightarrow> i \<le> 2 ^ 63 - 1 \<Longrightarrow> length (json_int i) \<le> 19"
  unfolding json_int_def by (auto intro!: dec_digits_length simp: nat_less_iff)

lemma literal_lengths:
  "length (json_string (ulit ''id'')) = 4" "length (json_string (ulit ''createdAt'')) = 11"
  "length (json_string (ulit ''transcript'')) = 12" "length (json_string (ulit ''text'')) = 6"
  "length (json_string (ulit ''rewritten'')) = 11" "length (json_string (ulit ''sourceDevice'')) = 14"
  "length (json_string (ulit ''cursor'')) = 8" "length (json_string (ulit ''upserts'')) = 9"
  "length (json_string (ulit ''deletes'')) = 9" "length (json_string (ulit ''desktop'')) = 9"
  "length (json_string (ulit ''mobile'')) = 8" "length (json_string (ulit ''clearID'')) = 9"
  by (simp_all add: json_string_def ulit_def escape_char_def)

lemma wire_json_length:
  assumes "wire_ok w" "\<And>q. length (frepr q) \<le> 32"
  shows "length (json_text frepr (payload_json w)) \<le> 393600"
proof -
  obtain a b where ab: "utf8_len (pl_transcript w) = Some a" "a \<le> 32768" "utf8_len (pl_text w) = Some b" "b \<le> 32768"
    using assms(1) unfolding wire_ok_iff wire_text_def by (auto split: option.splits if_splits)
  have dev: "length (json_string (pl_device w)) \<le> 9" and i: "length (json_string (pl_id w)) \<le> 130"
    using assms(1) json_id_length unfolding wire_ok_iff by (auto simp: literal_lengths)
  have r: "length (json_text frepr (PBool (pl_rewritten w))) \<le> 5" by (simp add: ulit_def)
  show ?thesis
    using json_string_length [OF ab(1)] json_string_length [OF ab(3)] ab(2,4) dev i r assms(2) [of "pl_created w"]
      join_length [of "[44, 32]" "member_texts frepr [(ulit ''id'', PStr (pl_id w)), (ulit ''createdAt'', PFloat (pl_created w)),
     (ulit ''transcript'', PStr (pl_transcript w)), (ulit ''text'', PStr (pl_text w)),
     (ulit ''rewritten'', PBool (pl_rewritten w)), (ulit ''sourceDevice'', PStr (pl_device w))]"]
    by (simp add: payload_json_def literal_lengths del: join.simps json_text.simps(2))
qed

lemma item_texts_map: "item_texts frepr vs = map (json_text frepr) vs"
  by (induction vs) auto

lemma ids_json_length:
  assumes "list_all wire_id ds" "length ds \<le> 50"
  shows "length (json_text frepr (PList (map PStr ds))) \<le> 6602"
proof -
  have "sum_list (map length (map (json_text frepr) (map PStr ds))) \<le> length ds * 130"
    using assms(1) by (induction ds) (auto dest: json_id_length)
  then show ?thesis
    using join_length [of "[44, 32]" "map (json_text frepr) (map PStr ds)"] assms(2) by (simp add: item_texts_map)
qed

text \<open>The first entry always fits: a batch with something to upload is never empty.\<close>

lemma first_upsert_fits:
  assumes "wire_ok w" "\<And>q. length (frepr q) \<le> 32" "list_all wire_id ds" "length ds \<le> 50" "0 \<le> cur" "cur \<le> 2 ^ 63 - 1"
  shows "length (json_text frepr (batch_json \<lparr>bt_cursor = cur, bt_upserts = [w], bt_deletes = ds, bt_clear = None\<rparr>)) \<le> 409600"
proof -
  define U D where "U = PList (map payload_json [w])" and "D = PList (map PStr ds)"
  have u: "length (json_text frepr U) \<le> 393602" using wire_json_length [OF assms(1,2)] by (simp add: U_def)
  have d: "length (json_text frepr D) \<le> 6602" unfolding D_def by (rule ids_json_length [OF assms(3,4)])
  have "length (json_text frepr (PDict [(ulit ''cursor'', PInt cur), (ulit ''upserts'', U), (ulit ''deletes'', D)])) \<le> 409600"
    using u d json_cursor_length [OF assms(5,6)]
      join_length [of "[44, 32]" "member_texts frepr [(ulit ''cursor'', PInt cur), (ulit ''upserts'', U), (ulit ''deletes'', D)]"]
    by (simp add: literal_lengths del: join.simps)
  then show ?thesis by (simp add: batch_json_def U_def D_def)
qed


section \<open>Requests the service accepts\<close>

definition cache_inv :: "cache \<Rightarrow> bool" where
  "cache_inv c \<longleftrightarrow> cache_readable c \<and> distinct (map fst (cc_records c)) \<and> distinct (map fst (cc_pending c))
     \<and> distinct (cc_deleted c) \<and> distinct (cc_tombstones c) \<and> set (cc_deleted c) \<subseteq> set (cc_tombstones c)
     \<and> (\<forall>k \<in> set (cc_tombstones c). map_of (cc_records c) k = None)"

definition batch_ok :: "batch \<Rightarrow> bool" where
  "batch_ok b \<longleftrightarrow> 0 \<le> bt_cursor b \<and> list_all wire_ok (bt_upserts b) \<and> distinct (map pl_id (bt_upserts b)) \<and> length (bt_upserts b) \<le> 50
     \<and> list_all wire_id (bt_deletes b) \<and> distinct (bt_deletes b) \<and> length (bt_deletes b) \<le> 50
     \<and> pl_id ` set (bt_upserts b) \<inter> set (bt_deletes b) = {} \<and> (bt_clear b \<noteq> None \<longrightarrow> bt_upserts b = [] \<and> bt_deletes b = [])"

lemma fill_upserts_take:
  "\<exists>n \<le> length ws. fill_upserts frepr ws b = b\<lparr>bt_upserts := bt_upserts b @ take n ws\<rparr>"
proof (induction ws arbitrary: b)
  case (Cons w ws)
  define b' where "b' = b\<lparr>bt_upserts := bt_upserts b @ [w]\<rparr>"
  show ?case
  proof (cases "409600 < length (json_text frepr (batch_json b'))")
    case True
    then show ?thesis by (intro exI [of _ 0]) (simp add: Let_def b'_def)
  next
    case False
    obtain n where "n \<le> length ws" "fill_upserts frepr ws b' = b'\<lparr>bt_upserts := bt_upserts b' @ take n ws\<rparr>" using Cons.IH by blast
    then show ?thesis using False by (intro exI [of _ "Suc n"]) (simp add: Let_def b'_def)
  qed
qed simp

lemma fill_upserts_size:
  "length (json_text frepr (batch_json b)) \<le> 409600 \<Longrightarrow> length (json_text frepr (batch_json (fill_upserts frepr ws b))) \<le> 409600"
  by (induction ws arbitrary: b) (auto simp: Let_def)

lemma cache_pending_ok:
  assumes "cache_inv c" "(k, w) \<in> set (cc_pending c)"
  shows "wire_ok w" "pl_id w = k" "k \<notin> set (cc_tombstones c)" "\<exists>x. map_of (cc_records c) k = Some x \<and> ch_wire x = w"
proof -
  have "case (k, w) of (k, w) \<Rightarrow> wire_ok w \<and> pl_id w = k \<and> (case map_of (cc_records c) k of Some x \<Rightarrow> ch_wire x = w | None \<Rightarrow> False)
      \<and> k \<notin> set (cc_tombstones c)"
    using assms unfolding cache_inv_def cache_readable_def list_all_iff by blast
  then show "wire_ok w" "pl_id w = k" "k \<notin> set (cc_tombstones c)" "\<exists>x. map_of (cc_records c) k = Some x \<and> ch_wire x = w"
    by (simp_all split: option.splits)
qed

lemma make_batch_ok:
  assumes inv: "cache_inv c"
  shows "batch_ok (make_batch frepr show_uuid c)"
proof (cases "cc_clear c")
  case (Some op)
  then show ?thesis using inv by (simp add: make_batch_def batch_ok_def cache_inv_def cache_readable_def)
next
  case None
  obtain n where n: "make_batch frepr show_uuid c = \<lparr>bt_cursor = cc_cursor c, bt_upserts = take n (take 50 (map snd (cc_pending c))),
      bt_deletes = take 50 (cc_deleted c), bt_clear = None\<rparr>"
    using fill_upserts_take [of "take 50 (map snd (cc_pending c))" frepr
      "\<lparr>bt_cursor = cc_cursor c, bt_upserts = [], bt_deletes = take 50 (cc_deleted c), bt_clear = None\<rparr>"]
    by (auto simp: make_batch_def None)
  have ids: "map pl_id (map snd (cc_pending c)) = map fst (cc_pending c)" using cache_pending_ok(2) [OF inv] by auto
  have up: "set (bt_upserts (make_batch frepr show_uuid c)) \<subseteq> snd ` set (cc_pending c)"
    using n by (auto dest!: in_set_takeD)
  have del: "set (bt_deletes (make_batch frepr show_uuid c)) \<subseteq> set (cc_deleted c)"
    using n by (auto dest!: in_set_takeD)
  have "distinct (map pl_id (bt_upserts (make_batch frepr show_uuid c)))"
    using inv unfolding n by (simp only: batch.simps ids cache_inv_def distinct_take flip: take_map)
  moreover have "list_all wire_ok (bt_upserts (make_batch frepr show_uuid c))"
    using up cache_pending_ok(1) [OF inv] by (fastforce simp: list_all_iff)
  moreover have "list_all wire_id (bt_deletes (make_batch frepr show_uuid c))"
    using del inv by (auto simp: list_all_iff cache_inv_def cache_readable_def)
  moreover have "pl_id ` set (bt_upserts (make_batch frepr show_uuid c)) \<inter> set (bt_deletes (make_batch frepr show_uuid c)) = {}"
  proof -
    have "pl_id w \<notin> set (bt_deletes (make_batch frepr show_uuid c))" if w: "w \<in> set (bt_upserts (make_batch frepr show_uuid c))" for w
    proof -
      obtain k where k: "(k, w) \<in> set (cc_pending c)" using up w by auto
      have "pl_id w \<notin> set (cc_tombstones c)" using cache_pending_ok(2,3) [OF inv k] by simp
      moreover have "set (cc_deleted c) \<subseteq> set (cc_tombstones c)" using inv unfolding cache_inv_def by blast
      ultimately show ?thesis using del by blast
    qed
    then show ?thesis by blast
  qed
  ultimately show ?thesis using inv n by (simp add: batch_ok_def cache_inv_def cache_readable_def)
qed

lemma batch_upsert_pending:
  assumes "w \<in> set (bt_upserts (make_batch frepr show_uuid c))"
  shows "cc_clear c = None \<and> w \<in> snd ` set (cc_pending c)"
proof (cases "cc_clear c")
  case None
  then show ?thesis
    using assms fill_upserts_take [of "take 50 (map snd (cc_pending c))" frepr
      "\<lparr>bt_cursor = cc_cursor c, bt_upserts = [], bt_deletes = take 50 (cc_deleted c), bt_clear = None\<rparr>"]
    by (auto simp: make_batch_def dest!: in_set_takeD)
qed (use assms in \<open>simp add: make_batch_def\<close>)

lemma batch_fields:
  "bt_cursor (make_batch frepr show_uuid c) = cc_cursor c"
  "bt_clear (make_batch frepr show_uuid c) = map_option show_uuid (cc_clear c)"
  "bt_deletes (make_batch frepr show_uuid c) = (if cc_clear c = None then take 50 (cc_deleted c) else [])"
  using fill_upserts_take [of "take 50 (map snd (cc_pending c))" frepr
      "\<lparr>bt_cursor = cc_cursor c, bt_upserts = [], bt_deletes = take 50 (cc_deleted c), bt_clear = None\<rparr>"]
  by (auto simp: make_batch_def split: option.splits)

lemma batch_validates:
  assumes b: "batch_ok b" "bt_cursor b \<le> 2 ^ 63 - 1" "render (batch_json b) \<le> 409600"
    and clear: "\<And>s. bt_clear b = Some s \<Longrightarrow> uuid_of s \<noteq> None"
  shows "validate render uuid_of (batch_json b) = Inr \<lparr>cr_cursor = bt_cursor b, cr_upserts = bt_upserts b, cr_deletes = bt_deletes b,
    cr_clear = (case bt_clear b of Some s \<Rightarrow> uuid_of s | None \<Rightarrow> None)\<rparr>"
proof -
  define d where "d = [(ulit ''cursor'', PInt (bt_cursor b)), (ulit ''upserts'', PList (map payload_json (bt_upserts b))),
     (ulit ''deletes'', PList (map PStr (bt_deletes b)))] @ (case bt_clear b of Some s \<Rightarrow> [(ulit ''clearID'', PStr s)] | None \<Rightarrow> [])"
  have ups: "map_err entry (map payload_json (bt_upserts b)) = Inr (bt_upserts b)"
    using b(1) wire_ok_entry by (intro map_err_map) (auto simp: batch_ok_def list_all_iff)
  have dels: "map_err record_id (map PStr (bt_deletes b)) = Inr (bt_deletes b)"
    using b(1) by (intro map_err_map) (auto simp: batch_ok_def list_all_iff record_id_def wire_id_def)
  have look: "map_of d (ulit ''cursor'') = Some (PInt (bt_cursor b))" "map_of d (ulit ''upserts'') = Some (PList (map payload_json (bt_upserts b)))"
    "map_of d (ulit ''deletes'') = Some (PList (map PStr (bt_deletes b)))" "map_of d (ulit ''clearID'') = map_option PStr (bt_clear b)"
    by (auto simp: d_def ulit_def split: option.splits)
  have keys: "set (dict_keys d) \<subseteq> set (map ulit [''cursor'', ''upserts'', ''deletes'', ''clearID''])"
    by (auto simp: d_def dict_keys_def split: option.splits)
  have cl: "clear_of uuid_of d (bt_upserts b = [] \<and> bt_deletes b = []) = Inr (case bt_clear b of Some s \<Rightarrow> uuid_of s | None \<Rightarrow> None)"
    unfolding clear_of_def look using b(1) clear by (auto simp: batch_ok_def split: option.splits)
  have sizes: "\<not> (\<not> (0 \<le> bt_cursor b \<and> bt_cursor b \<le> 2 ^ 63 - 1) \<or> 50 < length (map payload_json (bt_upserts b)) \<or> 50 < length (map PStr (bt_deletes b)))"
    and ids: "\<not> (\<not> distinct (map pl_id (bt_upserts b)) \<or> \<not> distinct (bt_deletes b) \<or> (\<exists>i \<in> set (map pl_id (bt_upserts b)). i \<in> set (bt_deletes b)))"
    using b(1,2) by (auto simp: batch_ok_def)
  have json: "batch_json b = PDict d" by (simp add: batch_json_def d_def)
  show ?thesis
    using keys sizes ids cl b(3) unfolding validate_def json pyval.case look Let_def by (simp add: ups dels)
qed

lemma deletes_fit:
  assumes "list_all wire_id ds" "length ds \<le> 50" "0 \<le> cur" "cur \<le> 2 ^ 63 - 1"
  shows "length (json_text frepr (batch_json \<lparr>bt_cursor = cur, bt_upserts = [], bt_deletes = ds, bt_clear = None\<rparr>)) \<le> 409600"
proof -
  define D where "D = PList (map PStr ds)"
  have d: "length (json_text frepr D) \<le> 6602" unfolding D_def by (rule ids_json_length [OF assms(1,2)])
  have "length (json_text frepr (PDict [(ulit ''cursor'', PInt cur), (ulit ''upserts'', PList []), (ulit ''deletes'', D)])) \<le> 409600"
    using d json_cursor_length [OF assms(3,4)]
      join_length [of "[44, 32]" "member_texts frepr [(ulit ''cursor'', PInt cur), (ulit ''upserts'', PList []), (ulit ''deletes'', D)]"]
    by (simp add: literal_lengths del: join.simps) simp
  then show ?thesis by (simp add: batch_json_def D_def)
qed

lemma make_batch_size:
  assumes inv: "cache_inv c" and "\<And>q. length (frepr q) \<le> 32"
    and clear: "\<And>op. cc_clear c = Some op \<Longrightarrow> length (json_string (show_uuid op)) \<le> 38" and cur: "cc_cursor c \<le> 2 ^ 63 - 1"
  shows "length (json_text frepr (batch_json (make_batch frepr show_uuid c))) \<le> 409600"
proof (cases "cc_clear c")
  case None
  have "list_all wire_id (take 50 (cc_deleted c))" "0 \<le> cc_cursor c"
    using inv by (auto simp: cache_inv_def cache_readable_def list_all_iff dest: in_set_takeD)
  from deletes_fit [OF this(1) _ this(2) cur] show ?thesis by (simp add: make_batch_def None fill_upserts_size)
next
  case (Some op)
  define S where "S = PStr (show_uuid op)"
  have s: "length (json_text frepr S) \<le> 38" using clear [OF Some] by (simp add: S_def)
  have "0 \<le> cc_cursor c" using inv by (simp add: cache_inv_def cache_readable_def)
  then have "length (json_text frepr (PDict [(ulit ''cursor'', PInt (cc_cursor c)), (ulit ''upserts'', PList []), (ulit ''deletes'', PList []),
      (ulit ''clearID'', S)])) \<le> 409600"
    using s json_cursor_length [OF _ cur]
      join_length [of "[44, 32]" "member_texts frepr [(ulit ''cursor'', PInt (cc_cursor c)), (ulit ''upserts'', PList []), (ulit ''deletes'', PList []),
        (ulit ''clearID'', S)]"]
    by (simp add: literal_lengths del: join.simps) simp
  then show ?thesis by (simp add: make_batch_def Some batch_json_def S_def)
qed

lemma make_batch_progress:
  assumes inv: "cache_inv c" and "\<And>q. length (frepr q) \<le> 32" "cc_cursor c \<le> 2 ^ 63 - 1"
    and "cc_clear c = None" "cc_pending c \<noteq> []"
  shows "bt_upserts (make_batch frepr show_uuid c) \<noteq> []"
proof -
  obtain k w ws where p: "cc_pending c = (k, w) # ws" using assms(5) by (cases "cc_pending c") auto
  then have w: "wire_ok w" using cache_pending_ok(1) [OF inv, of k w] by simp
  have "list_all wire_id (take 50 (cc_deleted c))" "0 \<le> cc_cursor c"
    using inv by (auto simp: cache_inv_def cache_readable_def list_all_iff dest: in_set_takeD)
  then have fits: "length (json_text frepr (batch_json \<lparr>bt_cursor = cc_cursor c, bt_upserts = [w], bt_deletes = take 50 (cc_deleted c),
      bt_clear = None\<rparr>)) \<le> 409600"
    by (intro first_upsert_fits [OF w assms(2)] assms(3)) simp_all
  define b0 where "b0 = \<lparr>bt_cursor = cc_cursor c, bt_upserts = [w], bt_deletes = take 50 (cc_deleted c), bt_clear = None\<rparr>"
  have "make_batch frepr show_uuid c = fill_upserts frepr (map snd (take 49 ws)) b0"
    using fits by (simp add: make_batch_def assms(4) p b0_def Let_def take_map take_Cons_numeral)
  moreover obtain n where "fill_upserts frepr (map snd (take 49 ws)) b0 = b0\<lparr>bt_upserts := bt_upserts b0 @ take n (map snd (take 49 ws))\<rparr>"
    using fill_upserts_take by blast
  ultimately show ?thesis by (simp add: b0_def)
qed

section \<open>Every operation keeps the document readable\<close>

definition record_ok :: "ustr \<times> cached \<Rightarrow> bool" where
  "record_ok kx \<longleftrightarrow> wire_ok (ch_wire (snd kx)) \<and> pl_id (ch_wire (snd kx)) = fst kx \<and> lr_id (ch_record (snd kx)) = fst kx"

definition pending_ok :: "cache \<Rightarrow> ustr \<times> payload \<Rightarrow> bool" where
  "pending_ok c kw \<longleftrightarrow> wire_ok (snd kw) \<and> pl_id (snd kw) = fst kw \<and> map_option ch_wire (map_of (cc_records c) (fst kw)) = Some (snd kw)"

lemma cache_inv_iff:
  "cache_inv c \<longleftrightarrow> 0 \<le> cc_cursor c \<and> (\<forall>kx \<in> set (cc_records c). record_ok kx) \<and> (\<forall>kw \<in> set (cc_pending c). pending_ok c kw)
     \<and> (\<forall>i \<in> set (cc_tombstones c). wire_id i) \<and> distinct (map fst (cc_records c)) \<and> distinct (map fst (cc_pending c))
     \<and> distinct (cc_deleted c) \<and> distinct (cc_tombstones c) \<and> set (cc_deleted c) \<subseteq> set (cc_tombstones c)
     \<and> (\<forall>k \<in> set (cc_tombstones c). map_of (cc_records c) k = None)"
  (is "?l \<longleftrightarrow> ?r")
proof
  assume l: ?l
  have "pending_ok c kw" if "kw \<in> set (cc_pending c)" for kw
    using cache_pending_ok [OF l, of "fst kw" "snd kw"] that by (auto simp: pending_ok_def)
  with l show ?r by (auto simp: cache_inv_def cache_readable_def list_all_iff record_ok_def)
next
  assume r: ?r
  have "case kw of (k, w) \<Rightarrow> wire_ok w \<and> pl_id w = k \<and> (case map_of (cc_records c) k of Some x \<Rightarrow> ch_wire x = w | None \<Rightarrow> False)
      \<and> k \<notin> set (cc_tombstones c)" if kw: "kw \<in> set (cc_pending c)" for kw
  proof -
    obtain k w where [simp]: "kw = (k, w)" by (cases kw)
    have "pending_ok c (k, w)" using r kw by auto
    then obtain x where "map_of (cc_records c) k = Some x" "ch_wire x = w" "wire_ok w" "pl_id w = k" by (auto simp: pending_ok_def)
    moreover have "k \<notin> set (cc_tombstones c)" using r calculation(1) by auto
    ultimately show ?thesis by simp
  qed
  moreover have "list_all wire_id (cc_deleted c @ cc_tombstones c)" using r by (auto simp: list_all_iff)
  ultimately show ?l using r by (auto simp: cache_inv_def cache_readable_def list_all_iff record_ok_def)
qed

lemma set_alist_delete: "set (AList.delete k al) = {x \<in> set al. fst x \<noteq> k}"
  by (auto simp: AList.delete_eq)

lemma map_of_alist_delete: "map_of (AList.delete k al) i = (if i = k then None else map_of al i)"
  by (simp add: AList.delete_conv')

lemma set_alist_update: "x \<in> set (AList.update k v al) \<Longrightarrow> x = (k, v) \<or> x \<in> set al"
  by (induction al) (auto split: if_splits)

lemma set_add_once [simp]: "set (add_once xs x) = insert x (set xs)"
  by (auto simp: add_once_def)

lemma distinct_add_once [simp]: "distinct (add_once xs x) = distinct xs"
  by (auto simp: add_once_def)

lemma empty_cache_inv: "cache_inv empty_cache"
  by (simp add: cache_inv_iff empty_cache_def)

lemma read_cache_inv: "read_cache stored = Inr c \<Longrightarrow> (\<And>d. stored = Some d \<Longrightarrow> cache_inv d) \<Longrightarrow> cache_inv c"
  by (auto simp: read_cache_def empty_cache_inv split: option.splits if_splits)

lemma entry_of_ok:
  assumes "entry_of r ft = Inr w"
  shows "wire_ok w" "pl_id w = lr_id r"
proof -
  show "wire_ok w" using assms unfolding entry_of_def Let_def by (rule wire_of_ok)
  show "pl_id w = lr_id r"
    using assms unfolding entry_of_def Let_def payload_json_def wire_of_fields wire_fields_def by (simp add: ulit_def)
qed

lemma append_new:
  assumes "append_record r ft stored = Inr (b, Some c')"
  obtains c w where "read_cache stored = Inr c" "entry_of (r\<lparr>lr_device := Some (ulit ''desktop'')\<rparr>) ft = Inr w" "wire_ok w" "pl_id w = lr_id r"
    "lr_id r \<notin> set (cc_tombstones c)" "map_of (cc_records c) (lr_id r) = None"
    "c' = c\<lparr>cc_records := cc_records c @ [(lr_id r, \<lparr>ch_record = r\<lparr>lr_device := Some (ulit ''desktop'')\<rparr>, ch_wire = w\<rparr>)],
      cc_pending := AList.update (lr_id r) w (cc_pending c)\<rparr>"
proof -
  let ?r = "r\<lparr>lr_device := Some (ulit ''desktop'')\<rparr>"
  obtain w where w: "entry_of ?r ft = Inr w" using assms by (cases "entry_of ?r ft") (simp_all add: append_record_def Let_def)
  obtain c where c: "read_cache stored = Inr c" using assms w by (cases "read_cache stored") (simp_all add: append_record_def Let_def)
  show thesis
    using that [OF c w] entry_of_ok [OF w] assms w c by (auto simp: append_record_def Let_def split: if_splits option.splits)
qed

lemma append_inv:
  assumes "append_record r ft stored = Inr (b, Some c')" "\<And>d. stored = Some d \<Longrightarrow> cache_inv d"
  shows "cache_inv c'"
proof -
  obtain c w where c: "read_cache stored = Inr c" "wire_ok w" "pl_id w = lr_id r" "lr_id r \<notin> set (cc_tombstones c)" "map_of (cc_records c) (lr_id r) = None"
    "c' = c\<lparr>cc_records := cc_records c @ [(lr_id r, \<lparr>ch_record = r\<lparr>lr_device := Some (ulit ''desktop'')\<rparr>, ch_wire = w\<rparr>)],
      cc_pending := AList.update (lr_id r) w (cc_pending c)\<rparr>"
    by (rule append_new [OF assms(1)]) blast
  note inv = read_cache_inv [OF c(1) assms(2)]
  have "pending_ok c' kw" if kw: "kw \<in> set (cc_pending c')" for kw
  proof (cases "kw = (lr_id r, w)")
    case True
    then show ?thesis using c by (simp add: pending_ok_def map_add_def)
  next
    case False
    then have "kw \<in> set (cc_pending c)" using kw c(6) set_alist_update by fastforce
    then have "pending_ok c kw" using inv by (auto simp: cache_inv_iff)
    then show ?thesis using c(5,6) by (auto simp: pending_ok_def map_add_def)
  qed
  moreover have "lr_id r \<notin> fst ` set (cc_records c)" using c(5) by (metis map_of_eq_None_iff)
  moreover have "record_ok (lr_id r, \<lparr>ch_record = r\<lparr>lr_device := Some (ulit ''desktop'')\<rparr>, ch_wire = w\<rparr>)"
    using c(2,3) by (simp add: record_ok_def)
  ultimately show ?thesis
    using inv c(4-6) by (auto simp: cache_inv_iff AList.distinct_update map_add_def split: option.splits)
qed

text \<open>Dropping records, and their pending uploads, keeps the document well formed.\<close>

lemma drop_inv:
  assumes inv: "cache_inv c" and i: "wire_id i"
  shows "cache_inv (drop_record i c)"
proof -
  have "pending_ok (drop_record i c) kw" if "kw \<in> set (cc_pending (drop_record i c))" for kw
    using that inv by (auto simp: cache_inv_iff drop_record_def pending_ok_def set_alist_delete map_of_alist_delete)
  then show ?thesis
    using inv i by (auto simp: cache_inv_iff drop_record_def set_alist_delete map_of_alist_delete AList.distinct_delete)
qed

lemma pending_ok_records: "cc_records c' = cc_records c \<Longrightarrow> pending_ok c' = pending_ok c"
  by (rule ext) (simp add: pending_ok_def)

lemma set_deleted_inv:
  assumes "cache_inv c" "distinct d" "set d \<subseteq> set (cc_tombstones c)"
  shows "cache_inv (c\<lparr>cc_deleted := d\<rparr>)"
  using assms pending_ok_records [of "c\<lparr>cc_deleted := d\<rparr>" c] by (simp add: cache_inv_iff)

lemma delete_inv:
  assumes "delete_record i stored = Inr (Some c')" "\<And>d. stored = Some d \<Longrightarrow> cache_inv d"
  shows "cache_inv c'"
proof -
  obtain c where c: "read_cache stored = Inr c" "map_of (cc_records c) i \<noteq> None" "c' = (drop_record i c)\<lparr>cc_deleted := add_once (cc_deleted c) i\<rparr>"
    using assms(1) by (auto simp: delete_record_def drop_record_def split: sum.splits if_splits)
  note inv = read_cache_inv [OF c(1) assms(2)]
  obtain x where "(i, x) \<in> set (cc_records c)" using c(2) by (auto dest: map_of_SomeD)
  then have "wire_id i" using inv by (auto simp: cache_inv_iff record_ok_def wire_ok_iff)
  from drop_inv [OF inv this] show ?thesis
    unfolding c(3) by (rule set_deleted_inv) (use inv in \<open>auto simp: cache_inv_iff drop_record_def\<close>)
qed

lemma foldl_add_once: "set (foldl add_once xs ys) = set xs \<union> set ys" "distinct (foldl add_once xs ys) = distinct xs"
  by (induction ys arbitrary: xs) auto

lemma clear_inv:
  assumes "clear_cache op stored = Inr c'" "\<And>d. stored = Some d \<Longrightarrow> cache_inv d"
  shows "cache_inv c'"
proof -
  obtain c where c: "read_cache stored = Inr c" "c' = c\<lparr>cc_tombstones := foldl add_once [] (cc_tombstones c @ map fst (cc_records c)),
       cc_records := [], cc_pending := [], cc_deleted := [], cc_clear := Some op\<rparr>"
    using assms(1) by (auto simp: clear_cache_def split: sum.splits)
  have inv: "cache_inv c" by (rule read_cache_inv [OF c(1) assms(2)])
  then have "wire_id k" if "k \<in> fst ` set (cc_records c)" for k
    using that by (auto simp: cache_inv_iff record_ok_def wire_ok_iff)
  then show ?thesis using inv unfolding c(2) by (auto simp: cache_inv_iff foldl_add_once)
qed


text \<open>The acknowledged work is removed; what was changed meanwhile stays.\<close>

lemma settle_pending:
  fixes ups :: "payload list"
  defines "step \<equiv> \<lambda>w p. if map_of p (pl_id w) = Some w then AList.delete (pl_id w) p else p"
  assumes "distinct (map fst p)"
  shows "set (fold step ups p) \<subseteq> set p" "distinct (map fst (fold step ups p))"
    "\<And>k w. (k, w) \<in> set p \<Longrightarrow> (k, w) \<in> set (fold step ups p) \<or> (w \<in> set ups \<and> pl_id w = k)"
    "\<And>w. w \<in> set ups \<Longrightarrow> (pl_id w, w) \<notin> set (fold step ups p)"
proof -
  have "set (fold step ups p) \<subseteq> set p \<and> distinct (map fst (fold step ups p))
      \<and> (\<forall>k w. (k, w) \<in> set p \<longrightarrow> (k, w) \<in> set (fold step ups p) \<or> (w \<in> set ups \<and> pl_id w = k))
      \<and> (\<forall>w \<in> set ups. (pl_id w, w) \<notin> set (fold step ups p))"
    using assms(2)
  proof (induction ups arbitrary: p)
    case (Cons u ups)
    have d: "distinct (map fst (step u p))" using Cons.prems by (simp add: step_def AList.distinct_delete)
    have sub: "set (step u p) \<subseteq> set p" by (auto simp: step_def set_alist_delete)
    have keep: "(k, w) \<in> set (step u p) \<or> (w = u \<and> pl_id w = k)" if "(k, w) \<in> set p" for k w
      using that Cons.prems eq_key_imp_eq_value [of p] by (auto simp: step_def set_alist_delete)
    have gone: "(pl_id u, u) \<notin> set (step u p)" using Cons.prems by (auto simp: step_def set_alist_delete)
    from Cons.IH [OF d] sub keep gone show ?case
      by (intro conjI allI impI ballI) (auto, blast+)
  qed simp
  then show "set (fold step ups p) \<subseteq> set p" "distinct (map fst (fold step ups p))"
    "\<And>k w. (k, w) \<in> set p \<Longrightarrow> (k, w) \<in> set (fold step ups p) \<or> (w \<in> set ups \<and> pl_id w = k)"
    "\<And>w. w \<in> set ups \<Longrightarrow> (pl_id w, w) \<notin> set (fold step ups p)" by blast+
qed

lemma acknowledge_inv:
  assumes "cache_inv c"
  shows "cache_inv (acknowledge show_uuid b c)"
proof -
  have d: "distinct (map fst (cc_pending c))" using assms by (simp add: cache_inv_iff)
  note sp = settle_pending(1,2) [OF d, of "bt_upserts b"]
  have "pending_ok (acknowledge show_uuid b c) = pending_ok c" by (rule pending_ok_records) (simp add: acknowledge_def)
  then show ?thesis
    using assms sp by (auto simp: cache_inv_iff acknowledge_def)
qed

lemma drops_inv: "list_all wire_id is \<Longrightarrow> cache_inv c \<Longrightarrow> cache_inv (fold drop_record is c)"
  by (induction "is" arbitrary: c) (auto simp: drop_inv)

lemma import_inv:
  assumes "cache_inv c" "wire_ok w" "pl_id w \<notin> set (cc_tombstones c)" "map_of (cc_records c) (pl_id w) = None"
  shows "cache_inv (c\<lparr>cc_records := cc_records c @ [(pl_id w, \<lparr>ch_record = imported w, ch_wire = w\<rparr>)]\<rparr>)"
proof -
  let ?c = "c\<lparr>cc_records := cc_records c @ [(pl_id w, \<lparr>ch_record = imported w, ch_wire = w\<rparr>)]\<rparr>"
  have "pending_ok ?c kw" if "kw \<in> set (cc_pending c)" for kw
  proof -
    have "pending_ok c kw" using assms(1) that unfolding cache_inv_iff by blast
    then obtain x where "map_of (cc_records c) (fst kw) = Some x" "ch_wire x = snd kw" "wire_ok (snd kw)" "pl_id (snd kw) = fst kw"
      by (auto simp: pending_ok_def)
    then show ?thesis using assms(4) by (auto simp: pending_ok_def map_add_def)
  qed
  moreover have "pl_id w \<notin> fst ` set (cc_records c)" using assms(4) by (metis map_of_eq_None_iff)
  moreover have "record_ok (pl_id w, \<lparr>ch_record = imported w, ch_wire = w\<rparr>)" using assms(2) by (simp add: record_ok_def imported_def)
  ultimately show ?thesis using assms by (auto simp: cache_inv_iff map_add_def split: option.splits)
qed

lemma merge_entries_inv:
  "merge_entries ws c = Inr c' \<Longrightarrow> list_all wire_ok ws \<Longrightarrow> cache_inv c \<Longrightarrow> cache_inv c'"
  by (induction ws arbitrary: c) (auto simp: import_inv split: if_splits option.splits)

definition page_ok :: "page \<Rightarrow> bool" where
  "page_ok g \<longleftrightarrow> list_all wire_ok (pg_entries g) \<and> list_all wire_id (pg_deleted g)"

lemma page_of_ok:
  assumes "page_of d cur = Inr g"
  shows "page_ok g" "cur \<le> pg_cursor g"
proof -
  obtain n m es ds where l: "map_of d (ulit ''cursor'') = Some (PInt n)" "map_of d (ulit ''hasMore'') = Some (PBool m)"
    "map_of d (ulit ''entries'') = Some (PList es)" "map_of d (ulit ''deleted'') = Some (PList ds)"
    using assms by (simp add: page_of_def split: option.splits pyval.splits)
  note p = assms [unfolded page_of_def l prod.case option.case pyval.case]
  obtain entries where es: "map_err wire_of es = Inr entries" using p by (cases "map_err wire_of es") (simp_all split: if_splits)
  obtain deleted where
    ds: "map_err (\<lambda>v. case v of PStr s \<Rightarrow> if wire_id s then Inr s else Inl Bad_value | _ \<Rightarrow> Inl Bad_value) ds = Inr deleted"
    using p by (cases "map_err (\<lambda>v. case v of PStr s \<Rightarrow> if wire_id s then Inr s else Inl Bad_value | _ \<Rightarrow> Inl Bad_value) ds")
      (simp_all add: es split: if_splits)
  have g: "g = \<lparr>pg_cursor = n, pg_more = m, pg_entries = entries, pg_deleted = deleted\<rparr>" "cur \<le> n"
    using p by (simp_all add: es ds split: if_splits)
  have "wire_ok w" if "w \<in> set entries" for w using map_err_set [OF es that] wire_of_ok by blast
  moreover have "wire_id s" if s: "s \<in> set deleted" for s
  proof -
    obtain v where "(case v of PStr s \<Rightarrow> if wire_id s then Inr s else Inl Bad_value | _ \<Rightarrow> Inl Bad_value) = Inr s"
      using map_err_set [OF ds s] by blast
    then show ?thesis by (cases v) (simp_all split: if_splits)
  qed
  ultimately show "page_ok g" "cur \<le> pg_cursor g" using g by (auto simp: page_ok_def list_all_iff)
qed

lemma merge_inv:
  assumes "merge_page show_uuid b g c = Inr c'" "cache_inv c" "page_ok g" "0 \<le> pg_cursor g"
  shows "cache_inv c'"
proof -
  let ?d = "fold drop_record (pg_deleted g) (acknowledge show_uuid b c)"
  obtain e where e: "merge_entries (pg_entries g) ?d = Inr e" "c' = e\<lparr>cc_cursor := pg_cursor g\<rparr>"
    using assms(1) by (auto simp: merge_page_def split: sum.splits)
  have "cache_inv e"
    using merge_entries_inv [OF e(1)] drops_inv acknowledge_inv assms(2,3) by (auto simp: page_ok_def)
  then show ?thesis
    using assms(4) pending_ok_records [of c' e] by (simp add: e(2) cache_inv_iff)
qed

end
