(* ===== verification/Account_Sync.thy ===== *)
theory Account_Sync
  imports Account_History
begin

text \<open>
  The device's history cache (\<^verbatim>\<open>account_history.py\<close>) together with the service's account history
  (\<^verbatim>\<open>server/cloud/service/history.py\<close>) and any number of other devices. One request is in flight at a
  time; local changes, other devices' requests and lost messages interleave with it. A request that
  the device has given up is never processed later. Two facts about random identifiers are assumptions
  of the steps: a clear has a new identifier, and no other device creates a record with an identifier
  that this device has deleted.
\<close>

section \<open>The account grows\<close>

text \<open>What every request does to an account: known records stay, or become deletions.\<close>

definition grows :: "history \<Rightarrow> history \<Rightarrow> bool" where
  "grows h h' \<longleftrightarrow> later h h' \<and> set (clears h) \<subseteq> set (clears h')
     \<and> (\<forall>i x. lookup h i = Some x \<longrightarrow> lookup h' i = Some x \<or> lookup h' i = Some None)"

lemma grows_refl [simp]: "grows h h"
  by (simp add: grows_def)

lemma grows_trans: "grows a b \<Longrightarrow> grows b c \<Longrightarrow> grows a c"
  unfolding grows_def by (blast intro: later_trans)

lemma clear_rows_clears [simp]: "clears (clear_rows rs h) = clears h"
  by (induction rs arbitrary: h) (simp_all add: Let_def)

lemma apply_upserts_clears [simp]: "clears (apply_upserts render existing ps h) = clears h"
  by (induction ps arbitrary: h) (simp_all add: Let_def)

lemma apply_deletes_clears [simp]: "clears (apply_deletes existing is h) = clears h"
  by (induction "is" arbitrary: h) (simp_all add: Let_def split: option.splits)

lemma changes_clears:
  assumes "(case cr_clear c of Some op \<Rightarrow> apply_clear op h | None \<Rightarrow> apply_changes render c h) = Inr h'"
  shows "set (clears h') = set (clears h) \<union> set_option (cr_clear c)"
  using assms by (auto simp: apply_clear_def apply_changes_def Let_def split: option.splits if_splits)

lemma changes_grow:
  assumes inv: "history_inv h" and ok: "request_ok c"
    and ch: "(case cr_clear c of Some op \<Rightarrow> apply_clear op h | None \<Rightarrow> apply_changes render c h) = Inr h'"
  shows "grows h h'"
  unfolding grows_def
proof (intro conjI allI impI)
  fix i x assume "lookup h i = Some x"
  then show "lookup h' i = Some x \<or> lookup h' i = Some None"
    using changes_spec(3) [OF assms, of i] by (auto simp: wanted_def split: option.splits if_splits)
qed (use changes_spec(2) [OF assms] changes_clears [OF ch] in auto)

definition live_ok :: "history \<Rightarrow> bool" where
  "live_ok h \<longleftrightarrow> (\<forall>i p. lookup h i = Some (Some p) \<longrightarrow> wire_ok p) \<and> (\<forall>i. lookup h i = Some None \<longrightarrow> wire_id i)"

lemma entry_wire_ok: "entry v = Inr w \<Longrightarrow> wire_ok w"
  using wire_of_ok by (simp add: wire_of_eq)

lemma validate_entries_ok:
  assumes "validate render uuid_of v = Inr req"
  shows "p \<in> set (cr_upserts req) \<Longrightarrow> wire_ok p" "i \<in> set (cr_deletes req) \<Longrightarrow> wire_id i"
proof -
  obtain us ds where m: "map_err entry us = Inr (cr_upserts req)" "map_err record_id ds = Inr (cr_deletes req)"
    using assms by (auto simp: validate_def Let_def split: pyval.splits option.splits sum.splits if_splits)
  show "p \<in> set (cr_upserts req) \<Longrightarrow> wire_ok p" using map_err_set [OF m(1)] entry_wire_ok by blast
  show "wire_id i" if i: "i \<in> set (cr_deletes req)"
  proof -
    obtain v where "record_id v = Inr i" using map_err_set [OF m(2) i] by blast
    then show ?thesis by (cases v) (simp_all add: record_id_def wire_id_def split: if_splits)
  qed
qed

lemma lookup_row:
  assumes "history_inv h" "r \<in> set (rows h)"
  shows "lookup h (hr_id r) = Some (hr_payload r)"
  using assms get_row_keyed [of hr_id "rows h" r] by (simp add: lookup_def history_inv_def)

lemma lookup_ids: "lookup h i = Some (Some p) \<Longrightarrow> history_inv h \<Longrightarrow> pl_id p = i"
  by (auto simp: lookup_def history_inv_def row_ok_def dest!: get_row_Some split: option.splits)

lemma live_ok_step:
  assumes "live_ok h" "validate render uuid_of v = Inr req" "history_inv h"
    and ch: "(case cr_clear req of Some op \<Rightarrow> apply_clear op h | None \<Rightarrow> apply_changes render req h) = Inr h'"
  shows "live_ok h'"
proof -
  note w = changes_spec(3) [OF assms(3) validate_ok [OF assms(2)] ch]
  have ids: "wire_id i" if "lookup h i = Some x" for i x
    using assms(1) that lookup_ids [of h i] assms(3) by (cases x) (auto simp: live_ok_def wire_ok_iff)
  have "wire_ok p" if "lookup h' i = Some (Some p)" for i p
    using that assms(1) validate_entries_ok(1) [OF assms(2), of p]
    by (auto simp: w wanted_def live_ok_def find_Some_iff in_set_conv_nth split: option.splits if_splits)
  moreover have "wire_id i" if "lookup h' i = Some None" for i
    using that assms(1) validate_entries_ok(2) [OF assms(2), of i] ids
    by (auto simp: w wanted_def live_ok_def split: option.splits if_splits)
  ultimately show ?thesis by (simp add: live_ok_def)
qed

section \<open>What the device knows of the account\<close>

lemma delete_keys_set: "fst ` set (AList.delete k al) = fst ` set al - {k}"
  by (force simp: set_alist_delete)

definition holds :: "cache \<Rightarrow> ustr \<Rightarrow> payload \<Rightarrow> bool" where
  "holds c i w \<longleftrightarrow> map_option ch_wire (map_of (cc_records c) i) = Some w"

text \<open>A clear that the service has not applied yet.\<close>

definition unapplied :: "cache \<Rightarrow> history \<Rightarrow> bool" where
  "unapplied c h \<longleftrightarrow> (case cc_clear c of Some op \<Rightarrow> op \<notin> set (clears h) | None \<Rightarrow> False)"

text \<open>A record is on its way out: the device has asked, or will ask, to delete it.\<close>

definition leaving :: "cache \<Rightarrow> history \<Rightarrow> ustr \<Rightarrow> bool" where
  "leaving c h i \<longleftrightarrow> i \<in> set (cc_deleted c) \<or> unapplied c h"

definition in_touch :: "history \<Rightarrow> cache \<Rightarrow> bool" where
  "in_touch h c \<longleftrightarrow> history_inv h \<and> live_ok h \<and> cache_inv c \<and> cc_cursor c \<le> revision h
     \<and> (\<forall>r \<in> set (rows h). hr_revision r \<le> cc_cursor c \<longrightarrow> hr_payload r = None \<longrightarrow> hr_id r \<in> set (cc_tombstones c))
     \<and> (\<forall>r \<in> set (rows h). hr_revision r \<le> cc_cursor c \<longrightarrow> (\<forall>p. hr_payload r = Some p \<longrightarrow> holds c (hr_id r) p \<or> leaving c h (hr_id r)))
     \<and> (\<forall>i w. holds c i w \<longrightarrow> i \<notin> fst ` set (cc_pending c) \<longrightarrow> lookup h i = Some (Some w) \<or> lookup h i = Some None)
     \<and> (\<forall>i p. lookup h i = Some (Some p) \<longrightarrow> i \<in> set (cc_tombstones c) \<longrightarrow> leaving c h i)"

lemma in_touchD:
  assumes "in_touch h c"
  shows "history_inv h" "live_ok h" "cache_inv c" "cc_cursor c \<le> revision h"
    "\<And>r. r \<in> set (rows h) \<Longrightarrow> hr_revision r \<le> cc_cursor c \<Longrightarrow> hr_payload r = None \<Longrightarrow> hr_id r \<in> set (cc_tombstones c)"
    "\<And>r p. r \<in> set (rows h) \<Longrightarrow> hr_revision r \<le> cc_cursor c \<Longrightarrow> hr_payload r = Some p \<Longrightarrow> holds c (hr_id r) p \<or> leaving c h (hr_id r)"
    "\<And>i w. holds c i w \<Longrightarrow> i \<notin> fst ` set (cc_pending c) \<Longrightarrow> lookup h i = Some (Some w) \<or> lookup h i = Some None"
    "\<And>i p. lookup h i = Some (Some p) \<Longrightarrow> i \<in> set (cc_tombstones c) \<Longrightarrow> leaving c h i"
  using assms unfolding in_touch_def by blast+

lemma in_touchI:
  assumes "history_inv h" "live_ok h" "cache_inv c" "cc_cursor c \<le> revision h"
    "\<And>r. r \<in> set (rows h) \<Longrightarrow> hr_revision r \<le> cc_cursor c \<Longrightarrow> hr_payload r = None \<Longrightarrow> hr_id r \<in> set (cc_tombstones c)"
    "\<And>r p. r \<in> set (rows h) \<Longrightarrow> hr_revision r \<le> cc_cursor c \<Longrightarrow> hr_payload r = Some p \<Longrightarrow> holds c (hr_id r) p \<or> leaving c h (hr_id r)"
    "\<And>i w. holds c i w \<Longrightarrow> i \<notin> fst ` set (cc_pending c) \<Longrightarrow> lookup h i = Some (Some w) \<or> lookup h i = Some None"
    "\<And>i p. lookup h i = Some (Some p) \<Longrightarrow> i \<in> set (cc_tombstones c) \<Longrightarrow> leaving c h i"
  shows "in_touch h c"
  unfolding in_touch_def using assms by blast

lemma holds_fresh: "i \<in> set (cc_tombstones c) \<Longrightarrow> cache_inv c \<Longrightarrow> \<not> holds c i w"
  by (auto simp: holds_def cache_inv_iff)

subsection \<open>Local changes\<close>

lemma append_in_touch:
  assumes t: "in_touch h c" and a: "append_record r ft stored = Inr (b, Some c')" and c: "read_cache stored = Inr c"
  shows "in_touch h c'"
proof -
  note d = in_touchD [OF t]
  obtain w where n: "map_of (cc_records c) (lr_id r) = None" "lr_id r \<notin> set (cc_tombstones c)"
    "c' = c\<lparr>cc_records := cc_records c @ [(lr_id r, \<lparr>ch_record = r\<lparr>lr_device := Some (ulit ''desktop'')\<rparr>, ch_wire = w\<rparr>)],
      cc_pending := AList.update (lr_id r) w (cc_pending c)\<rparr>"
    by (rule append_new [OF a]) (use c in auto)
  have "cache_inv c'"
    using d(3) c by (intro append_inv [OF a]) (auto simp: read_cache_def split: if_splits)
  have old: "holds c' i p = (if i = lr_id r then p = w else holds c i p)" for i p
    using n by (auto simp: holds_def map_add_def split: option.splits)
  have sub: "fst ` set (cc_pending c') = insert (lr_id r) (fst ` set (cc_pending c))"
    using n(3) by (simp add: AList.dom_update)
  have none: "\<not> holds c (lr_id r) p" for p using n(1) by (simp add: holds_def)
  have same: "cc_cursor c' = cc_cursor c" "cc_tombstones c' = cc_tombstones c" "leaving c' h = leaving c h"
    by (simp_all add: n(3) leaving_def unapplied_def fun_eq_iff)
  show ?thesis
  proof (rule in_touchI)
    fix x p assume "x \<in> set (rows h)" "hr_revision x \<le> cc_cursor c'" "hr_payload x = Some p"
    then have "holds c (hr_id x) p \<or> leaving c h (hr_id x)" using d(6) same by simp
    then show "holds c' (hr_id x) p \<or> leaving c' h (hr_id x)" using old none same by auto
  qed (use d \<open>cache_inv c'\<close> same old sub in \<open>auto split: if_splits\<close>)
qed

lemma drop_in_touch:
  assumes t: "in_touch h c" and i: "wire_id i" and gone: "\<And>p. lookup h i = Some (Some p) \<Longrightarrow> leaving c h i"
  shows "in_touch h (drop_record i c)"
proof -
  note d = in_touchD [OF t]
  let ?c = "drop_record i c"
  have same: "cc_cursor ?c = cc_cursor c" "set (cc_tombstones ?c) = insert i (set (cc_tombstones c))" "leaving ?c h = leaving c h"
    by (simp_all add: drop_record_def leaving_def unapplied_def fun_eq_iff)
  have old: "holds ?c k p \<longleftrightarrow> k \<noteq> i \<and> holds c k p" for k p
    by (auto simp: holds_def drop_record_def map_of_alist_delete)
  have pend: "fst ` set (cc_pending ?c) = fst ` set (cc_pending c) - {i}"
    by (simp add: drop_record_def delete_keys_set)
  show ?thesis
  proof (rule in_touchI)
    fix x p assume x: "x \<in> set (rows h)" "hr_revision x \<le> cc_cursor ?c" "hr_payload x = Some p"
    have "lookup h (hr_id x) = Some (Some p)" using lookup_row [OF d(1) x(1)] x(3) by simp
    then show "holds ?c (hr_id x) p \<or> leaving ?c h (hr_id x)" using d(6) [OF x(1) _ x(3)] x(2) same old gone by auto
  qed (use d drop_inv [OF d(3) i] same old pend gone in auto)
qed

lemma set_deleted_in_touch:
  assumes t: "in_touch h c" and d': "distinct del" "set del \<subseteq> set (cc_tombstones c)"
    and keep: "\<And>i p. i \<in> set (cc_deleted c) \<Longrightarrow> lookup h i = Some (Some p) \<Longrightarrow> i \<in> set del"
  shows "in_touch h (c\<lparr>cc_deleted := del\<rparr>)"
proof -
  note d = in_touchD [OF t]
  let ?c = "c\<lparr>cc_deleted := del\<rparr>"
  have lv: "leaving ?c h i" if "leaving c h i" "lookup h i = Some (Some p)" for i p
    using that keep by (auto simp: leaving_def unapplied_def)
  have old: "holds ?c = holds c" by (simp add: holds_def fun_eq_iff)
  show ?thesis
  proof (rule in_touchI)
    fix x p assume x: "x \<in> set (rows h)" "hr_revision x \<le> cc_cursor ?c" "hr_payload x = Some p"
    have "lookup h (hr_id x) = Some (Some p)" using lookup_row [OF d(1) x(1)] x(3) by simp
    then show "holds ?c (hr_id x) p \<or> leaving ?c h (hr_id x)" using d(6) [OF x(1) _ x(3)] x(2) lv by (auto simp: old)
  qed (use d set_deleted_inv [OF d(3) d'] lv in \<open>auto simp: old\<close>)
qed

lemma delete_in_touch:
  assumes t: "in_touch h c" and a: "delete_record i stored = Inr (Some c')" and c: "read_cache stored = Inr c"
  shows "in_touch h c'"
proof -
  note d = in_touchD [OF t]
  have r: "map_of (cc_records c) i \<noteq> None" "c' = (drop_record i c)\<lparr>cc_deleted := add_once (cc_deleted c) i\<rparr>"
    using a c by (auto simp: delete_record_def drop_record_def split: if_splits)
  obtain x where "(i, x) \<in> set (cc_records c)" using r(1) by (auto dest: map_of_SomeD)
  then have w: "wire_id i" using d(3) by (auto simp: cache_inv_iff record_ok_def wire_ok_iff)
  let ?c = "c\<lparr>cc_deleted := add_once (cc_deleted c) i, cc_tombstones := add_once (cc_tombstones c) i\<rparr>"
  have lv: "leaving c' h k \<longleftrightarrow> k = i \<or> leaving c h k" for k by (auto simp: r(2) leaving_def drop_record_def unapplied_def)
  have old: "holds c' k p \<longleftrightarrow> k \<noteq> i \<and> holds c k p" for k p
    by (auto simp: r(2) holds_def drop_record_def map_of_alist_delete)
  have pend: "fst ` set (cc_pending c') = fst ` set (cc_pending c) - {i}"
    by (simp add: r(2) drop_record_def delete_keys_set)
  have same: "cc_cursor c' = cc_cursor c" "set (cc_tombstones c') = insert i (set (cc_tombstones c))"
    by (simp_all add: r(2) drop_record_def)
  have inv: "cache_inv c'"
    using d(3) c by (intro delete_inv [OF a]) (auto simp: read_cache_def split: if_splits)
  show ?thesis
    by (rule in_touchI) (use d inv lv old pend same in auto)
qed

lemma clear_in_touch:
  assumes t: "in_touch h c" and a: "clear_cache op stored = Inr c'" and c: "read_cache stored = Inr c" and fresh: "op \<notin> set (clears h)"
  shows "in_touch h c'" "unapplied c' h"
proof -
  note d = in_touchD [OF t]
  have c': "c' = c\<lparr>cc_tombstones := foldl add_once [] (cc_tombstones c @ map fst (cc_records c)),
       cc_records := [], cc_pending := [], cc_deleted := [], cc_clear := Some op\<rparr>"
    using a c by (simp add: clear_cache_def)
  show u: "unapplied c' h" using fresh by (simp add: c' unapplied_def)
  have inv: "cache_inv c'"
    using d(3) c by (intro clear_inv [OF a]) (auto simp: read_cache_def split: if_splits)
  show "in_touch h c'"
  proof (rule in_touchI)
    show "hr_id r \<in> set (cc_tombstones c')" if "r \<in> set (rows h)" "hr_revision r \<le> cc_cursor c'" "hr_payload r = None" for r
      using d(5) [OF that(1) _ that(3)] that(2) by (simp add: c' foldl_add_once del: foldl_append)
  qed (use d inv u in \<open>auto simp: leaving_def holds_def c'\<close>)
qed


subsection \<open>Changes of the account\<close>

text \<open>
  A request of another device, or this device's own uploads and deletions. Its new records are not
  among the ones this device has dropped for good.
\<close>

lemma changes_in_touch:
  assumes t: "in_touch h c" and v: "validate render uuid_of v = Inr req"
    and ch: "(case cr_clear req of Some op \<Rightarrow> apply_clear op h | None \<Rightarrow> apply_changes render req h) = Inr h'"
    and fresh: "\<And>p. p \<in> set (cr_upserts req) \<Longrightarrow> lookup h (pl_id p) = None \<Longrightarrow> pl_id p \<in> set (cc_tombstones c) \<Longrightarrow> leaving c h (pl_id p)"
    and clear: "\<And>op. cr_clear req = Some op \<Longrightarrow> cc_clear c \<noteq> Some op"
  shows "in_touch h' c"
proof -
  note d = in_touchD [OF t]
  note cs = changes_spec [OF d(1) validate_ok [OF v] ch]
  have lat: "later h h'" by (rule cs(2))
  have unap: "unapplied c h' = unapplied c h"
    using changes_clears [OF ch] clear by (auto simp: unapplied_def split: option.splits)
  then have lv: "leaving c h' = leaving c h" by (simp add: leaving_def fun_eq_iff)
  have old: "r \<in> set (rows h)" if "r \<in> set (rows h')" "hr_revision r \<le> cc_cursor c" for r
    using lat that d(4) by (fastforce simp: later_def)
  show ?thesis
  proof (rule in_touchI)
    show "lookup h' i = Some (Some w) \<or> lookup h' i = Some None" if "holds c i w" "i \<notin> fst ` set (cc_pending c)" for i w
      using d(7) [OF that] changes_grow [OF d(1) validate_ok [OF v] ch] by (auto simp: grows_def)
    show "leaving c h' i" if l: "lookup h' i = Some (Some p)" and i: "i \<in> set (cc_tombstones c)" for i p
    proof (cases "lookup h i")
      case None
      then obtain q where "q \<in> set (cr_upserts req)" "pl_id q = i"
        using l cs(3) [of i] by (auto simp: wanted_def find_Some_iff split: option.splits if_splits dest: nth_mem)
      then show ?thesis using fresh None i lv by auto
    next
      case (Some x)
      then have "lookup h i = Some (Some p)"
        using changes_grow [OF d(1) validate_ok [OF v] ch] l by (fastforce simp: grows_def)
      then show ?thesis using d(8) i lv by simp
    qed
  qed (use d cs(1) lat live_ok_step [OF d(2) v d(1) ch] old lv in \<open>auto simp: later_def\<close>)
qed

text \<open>This device's clear, when the service applies it for the first time.\<close>

lemma own_clear_in_touch:
  assumes t: "in_touch h c" and ok: "request_ok req" and live: "live_ok h'"
    and ch: "(case cr_clear req of Some op \<Rightarrow> apply_clear op h | None \<Rightarrow> apply_changes render req h) = Inr h'"
    and clear: "cr_clear req = Some op" "op \<notin> set (clears h)"
  shows "in_touch h' c"
proof -
  note d = in_touchD [OF t]
  note cs = changes_spec [OF d(1) ok ch]
  have dead: "lookup h' i \<noteq> Some (Some p)" for i p
    using cs(3) [of i] clear by (auto simp: wanted_def split: option.splits)
  have old: "r \<in> set (rows h)" if "r \<in> set (rows h')" "hr_revision r \<le> cc_cursor c" for r
    using cs(2) that d(4) by (fastforce simp: later_def)
  show ?thesis
  proof (rule in_touchI)
    fix r p assume "r \<in> set (rows h')" "hr_payload r = Some p"
    then show "holds c (hr_id r) p \<or> leaving c h' (hr_id r)" using lookup_row [OF cs(1), of r] dead by simp
  next
    show "lookup h' i = Some (Some w) \<or> lookup h' i = Some None" if "holds c i w" "i \<notin> fst ` set (cc_pending c)" for i w
      using d(7) [OF that] changes_grow [OF d(1) ok ch] by (auto simp: grows_def)
  qed (use d cs(1,2) live old dead in \<open>auto simp: later_def\<close>)
qed

subsection \<open>Merging a page\<close>

definition acked :: "(nat \<Rightarrow> ustr) \<Rightarrow> batch \<Rightarrow> cache \<Rightarrow> history \<Rightarrow> bool" where
  "acked show_uuid b c h1 \<longleftrightarrow>
     (\<forall>w \<in> set (bt_upserts b). lookup h1 (pl_id w) = Some (Some w) \<or> lookup h1 (pl_id w) = Some None)
     \<and> (\<forall>i \<in> set (bt_deletes b). lookup h1 i = Some None)
     \<and> (\<forall>op. cc_clear c = Some op \<longrightarrow> bt_clear b = Some (show_uuid op) \<longrightarrow> op \<in> set (clears h1))"

lemma acknowledge_in_touch:
  assumes t: "in_touch h c" and a: "acked show_uuid b c h1" and g: "grows h1 h"
  shows "in_touch h (acknowledge show_uuid b c)"
proof -
  note d = in_touchD [OF t]
  let ?c = "acknowledge show_uuid b c"
  have dist: "distinct (map fst (cc_pending c))" using d(3) by (simp add: cache_inv_iff)
  note sp = settle_pending [OF dist, where ups = "bt_upserts b"]
  have same: "cc_cursor ?c = cc_cursor c" "cc_tombstones ?c = cc_tombstones c" "cc_records ?c = cc_records c"
    by (simp_all add: acknowledge_def)
  then have old: "holds ?c = holds c" by (simp add: holds_def fun_eq_iff)
  have unap: "unapplied ?c h" if u: "unapplied c h"
  proof -
    obtain op where op: "cc_clear c = Some op" "op \<notin> set (clears h)" using u by (auto simp: unapplied_def split: option.splits)
    then have "bt_clear b \<noteq> Some (show_uuid op)" using a g by (auto simp: acked_def grows_def)
    then show ?thesis using op by (simp add: acknowledge_def unapplied_def)
  qed
  have lv: "leaving ?c h i" if "leaving c h i" "lookup h i = Some (Some p)" for i p
  proof -
    have "i \<notin> set (bt_deletes b)" using a g that(2) by (force simp: acked_def grows_def)
    then show ?thesis using that(1) unap by (auto simp: leaving_def acknowledge_def)
  qed
  show ?thesis
  proof (rule in_touchI)
    fix r p assume r: "r \<in> set (rows h)" "hr_revision r \<le> cc_cursor ?c" "hr_payload r = Some p"
    have "lookup h (hr_id r) = Some (Some p)" using lookup_row [OF d(1) r(1)] r(3) by simp
    then show "holds ?c (hr_id r) p \<or> leaving ?c h (hr_id r)" using d(6) [OF r(1) _ r(3)] r(2) same lv by (auto simp: old)
  next
    fix i w assume hw: "holds ?c i w" and np: "i \<notin> fst ` set (cc_pending ?c)"
    show "lookup h i = Some (Some w) \<or> lookup h i = Some None"
    proof (cases "i \<in> fst ` set (cc_pending c)")
      case False
      then show ?thesis using d(7) hw by (simp add: old)
    next
      case True
      then obtain u where u: "(i, u) \<in> set (cc_pending c)" by force
      have "pending_ok c (i, u)" using d(3) u unfolding cache_inv_iff by blast
      then have "u = w" "pl_id w = i" using hw by (auto simp: pending_ok_def holds_def old acknowledge_def)
      moreover have "(i, u) \<notin> set (cc_pending ?c)" using np by force
      ultimately have "w \<in> set (bt_upserts b)" using sp(3) [OF u] by (auto simp: acknowledge_def)
      then have "lookup h1 i = Some (Some w) \<or> lookup h1 i = Some None" using a \<open>pl_id w = i\<close> by (auto simp: acked_def)
      then show ?thesis using g by (auto simp: grows_def)
    qed
  qed (use d acknowledge_inv [OF d(3)] same lv in auto)
qed

lemma drops_in_touch:
  assumes "in_touch h c" "\<And>i. i \<in> set is \<Longrightarrow> lookup h i = Some None"
  shows "in_touch h (fold drop_record is c)"
  using assms
proof (induction "is" arbitrary: c)
  case (Cons i "is")
  have "wire_id i" using in_touchD(2) [OF Cons.prems(1)] Cons.prems(2) by (auto simp: live_ok_def)
  then have "in_touch h (drop_record i c)" using Cons.prems by (intro drop_in_touch) auto
  then show ?case using Cons by simp
qed simp

lemma drops_keep:
  "cc_clear (fold drop_record is c) = cc_clear c" "cc_cursor (fold drop_record is c) = cc_cursor c"
  "set (cc_tombstones (fold drop_record is c)) = set (cc_tombstones c) \<union> set is"
  by (induction "is" arbitrary: c) (auto simp: drop_record_def)

lemma import_in_touch:
  assumes t: "in_touch h c" and w: "wire_ok w" "pl_id w \<notin> set (cc_tombstones c)" "map_of (cc_records c) (pl_id w) = None"
    and l: "lookup h (pl_id w) = Some (Some w) \<or> lookup h (pl_id w) = Some None"
  shows "in_touch h (c\<lparr>cc_records := cc_records c @ [(pl_id w, \<lparr>ch_record = imported w, ch_wire = w\<rparr>)]\<rparr>)"
proof -
  note d = in_touchD [OF t]
  let ?c = "c\<lparr>cc_records := cc_records c @ [(pl_id w, \<lparr>ch_record = imported w, ch_wire = w\<rparr>)]\<rparr>"
  have old: "holds ?c i p = (if i = pl_id w then p = w else holds c i p)" for i p
    using w(3) by (auto simp: holds_def map_add_def split: option.splits)
  have none: "\<not> holds c (pl_id w) p" for p using w(3) by (simp add: holds_def)
  have lv: "leaving ?c h = leaving c h" by (simp add: leaving_def unapplied_def fun_eq_iff)
  show ?thesis
  proof (rule in_touchI)
    fix x p assume "x \<in> set (rows h)" "hr_revision x \<le> cc_cursor ?c" "hr_payload x = Some p"
    then have "holds c (hr_id x) p \<or> leaving c h (hr_id x)" using d(6) by simp
    then show "holds ?c (hr_id x) p \<or> leaving ?c h (hr_id x)" using old none lv by auto
  next
    fix i p assume "holds ?c i p" "i \<notin> fst ` set (cc_pending ?c)"
    then show "lookup h i = Some (Some p) \<or> lookup h i = Some None" using d(7) l old by (auto split: if_splits)
  qed (use d import_inv [OF d(3) w] lv in auto)
qed

lemma merge_entries_in_touch:
  assumes "merge_entries ws c = Inr c'" "in_touch h c" "list_all wire_ok ws"
    "\<And>w. w \<in> set ws \<Longrightarrow> lookup h (pl_id w) = Some (Some w) \<or> lookup h (pl_id w) = Some None"
  shows "in_touch h c'"
  using assms
proof (induction ws arbitrary: c)
  case (Cons w ws)
  show ?case
  proof (cases "cc_clear c \<noteq> None \<or> pl_id w \<in> set (cc_tombstones c) \<or> map_of (cc_records c) (pl_id w) \<noteq> None")
    case True
    then have "merge_entries ws c = Inr c'" using Cons.prems(1) by (auto split: if_splits option.splits)
    then show ?thesis using Cons.IH [of c] Cons.prems by auto
  next
    case False
    let ?c = "c\<lparr>cc_records := cc_records c @ [(pl_id w, \<lparr>ch_record = imported w, ch_wire = w\<rparr>)]\<rparr>"
    have "in_touch h ?c" using Cons.prems False by (intro import_in_touch) auto
    moreover have "merge_entries ws ?c = Inr c'" using Cons.prems(1) False by simp
    ultimately show ?thesis using Cons.IH [of ?c] Cons.prems by auto
  qed
qed simp

lemma merge_entries_keeps:
  assumes "merge_entries ws c = Inr c'"
  shows "cc_clear c' = cc_clear c" "cc_tombstones c' = cc_tombstones c" "cc_deleted c' = cc_deleted c" "cc_cursor c' = cc_cursor c"
    "cc_pending c' = cc_pending c" "holds c i w \<Longrightarrow> holds c' i w"
proof -
  have "cc_clear c' = cc_clear c \<and> cc_tombstones c' = cc_tombstones c \<and> cc_deleted c' = cc_deleted c \<and> cc_cursor c' = cc_cursor c
    \<and> cc_pending c' = cc_pending c \<and> (\<forall>i w. holds c i w \<longrightarrow> holds c' i w)"
    using assms
  proof (induction ws arbitrary: c)
    case (Cons w ws)
    show ?case
    proof (cases "cc_clear c \<noteq> None \<or> pl_id w \<in> set (cc_tombstones c) \<or> map_of (cc_records c) (pl_id w) \<noteq> None")
      case True
      then have "merge_entries ws c = Inr c'" using Cons.prems(1) by (auto split: if_splits option.splits)
      from Cons.IH [OF this] show ?thesis .
    next
      case False
      let ?c = "c\<lparr>cc_records := cc_records c @ [(pl_id w, \<lparr>ch_record = imported w, ch_wire = w\<rparr>)]\<rparr>"
      have m: "merge_entries ws ?c = Inr c'" using Cons.prems(1) False by simp
      have "holds ?c i p" if "holds c i p" for i p using that False by (auto simp: holds_def map_add_def split: option.splits)
      with Cons.IH [OF m] show ?thesis by simp
    qed
  qed simp
  then show "cc_clear c' = cc_clear c" "cc_tombstones c' = cc_tombstones c" "cc_deleted c' = cc_deleted c" "cc_cursor c' = cc_cursor c"
    "cc_pending c' = cc_pending c" "holds c i w \<Longrightarrow> holds c' i w" by blast+
qed

lemma merge_entries_all:
  assumes "merge_entries ws c = Inr c'" "w \<in> set ws"
  shows "cc_clear c \<noteq> None \<or> pl_id w \<in> set (cc_tombstones c) \<or> holds c' (pl_id w) w"
  using assms
proof (induction ws arbitrary: c)
  case (Cons x ws)
  show ?case
  proof (cases "cc_clear c \<noteq> None \<or> pl_id x \<in> set (cc_tombstones c)")
    case True
    then have "merge_entries ws c = Inr c'" using Cons.prems(1) by auto
    then show ?thesis using Cons.IH [of c] Cons.prems(2) True by auto
  next
    case False
    show ?thesis
    proof (cases "map_of (cc_records c) (pl_id x)")
      case (Some y)
      then have m: "merge_entries ws c = Inr c'" "ch_wire y = x" using Cons.prems(1) False by (auto split: if_splits)
      then have "holds c (pl_id x) x" using Some by (simp add: holds_def)
      then show ?thesis using merge_entries_keeps(6) [OF m(1)] Cons.IH [OF m(1)] Cons.prems(2) by auto
    next
      case None
      let ?c = "c\<lparr>cc_records := cc_records c @ [(pl_id x, \<lparr>ch_record = imported x, ch_wire = x\<rparr>)]\<rparr>"
      have m: "merge_entries ws ?c = Inr c'" using Cons.prems(1) False None by simp
      have "holds ?c (pl_id x) x" using None by (simp add: holds_def map_add_def)
      then show ?thesis using merge_entries_keeps(6) [OF m] Cons.IH [OF m] Cons.prems(2) by auto
    qed
  qed
qed simp


lemma page_of_json:
  assumes "page_json g = PDict d" "list_all wire_ok (pg_entries g)" "list_all wire_id (pg_deleted g)" "page_of d cur = Inr g'"
  shows "g' = g"
proof -
  have l: "map_of d (ulit ''cursor'') = Some (PInt (pg_cursor g))" "map_of d (ulit ''hasMore'') = Some (PBool (pg_more g))"
    "map_of d (ulit ''entries'') = Some (PList (map payload_json (pg_entries g)))" "map_of d (ulit ''deleted'') = Some (PList (map PStr (pg_deleted g)))"
    using assms(1) by (auto simp: page_json_def ulit_def)
  have es: "map_err wire_of (map payload_json (pg_entries g)) = Inr (pg_entries g)"
    using assms(2) by (intro map_err_map) (simp add: list_all_iff wire_ok_def)
  have ds: "map_err (\<lambda>v. case v of PStr s \<Rightarrow> if wire_id s then Inr s else Inl Bad_value | _ \<Rightarrow> Inl Bad_value)
      (map PStr (pg_deleted g)) = Inr (pg_deleted g)"
    using assms(3) by (intro map_err_map) (simp add: list_all_iff)
  have "g' = \<lparr>pg_cursor = pg_cursor g, pg_more = pg_more g, pg_entries = pg_entries g, pg_deleted = pg_deleted g\<rparr>"
    using assms(4) unfolding page_of_def l prod.case option.case pyval.case by (simp add: es ds split: if_splits)
  then show ?thesis by (intro page.equality) simp_all
qed

lemma page_rows:
  assumes inv: "history_inv h" and g: "g = read_page render c h" and c: "c \<le> revision h"
  shows "w \<in> set (pg_entries g) \<longleftrightarrow> (\<exists>r \<in> set (rows h). c < hr_revision r \<and> hr_revision r \<le> pg_cursor g \<and> hr_payload r = Some w)"
    "i \<in> set (pg_deleted g) \<longleftrightarrow> (\<exists>r \<in> set (rows h). c < hr_revision r \<and> hr_revision r \<le> pg_cursor g \<and> hr_payload r = None \<and> hr_id r = i)"
    "\<not> pg_more g \<Longrightarrow> r \<in> set (rows h) \<Longrightarrow> hr_revision r \<le> pg_cursor g"
    "pg_cursor g \<le> revision h" "c \<le> pg_cursor g"
proof -
  obtain n where n: "pg_entries g = row_entries (take n (after_cursor c (rows h)))"
    "pg_deleted g = row_deleted (take n (after_cursor c (rows h)))"
    "set (take n (after_cursor c (rows h))) = {r \<in> set (rows h). c < hr_revision r \<and> hr_revision r \<le> pg_cursor g}"
    "pg_more g \<longleftrightarrow> n < length (after_cursor c (rows h))"
    by (rule read_page_spec [OF inv g [symmetric]])
  show "w \<in> set (pg_entries g) \<longleftrightarrow> (\<exists>r \<in> set (rows h). c < hr_revision r \<and> hr_revision r \<le> pg_cursor g \<and> hr_payload r = Some w)"
    unfolding n(1) row_entries_mem n(3) by blast
  show "i \<in> set (pg_deleted g) \<longleftrightarrow> (\<exists>r \<in> set (rows h). c < hr_revision r \<and> hr_revision r \<le> pg_cursor g \<and> hr_payload r = None \<and> hr_id r = i)"
    unfolding n(2) row_deleted_mem n(3) by blast
  show cur: "pg_cursor g \<le> revision h" "c \<le> pg_cursor g" unfolding g by (rule read_page_cursor [OF inv c])+
  show "hr_revision r \<le> pg_cursor g" if "\<not> pg_more g" "r \<in> set (rows h)"
  proof (rule ccontr)
    assume no: "\<not> hr_revision r \<le> pg_cursor g"
    then have "r \<in> set (after_cursor c (rows h))" using that(2) after_cursor_props(3) [OF inv, of c] cur by auto
    moreover have "take n (after_cursor c (rows h)) = after_cursor c (rows h)" using n(4) that(1) by simp
    ultimately show False using n(3) no by auto
  qed
qed

text \<open>The page was read at \<open>h1\<close>; the account may have grown since.\<close>

lemma merge_in_touch:
  assumes t: "in_touch h c" and inv1: "history_inv h1" and gr: "grows h1 h" and c1: "cc_cursor c \<le> revision h1"
    and g: "g = read_page render (cc_cursor c) h1" and live: "live_ok h1"
    and a: "acked show_uuid b c h1"
    and pend: "\<And>op. cc_clear c = Some op \<Longrightarrow> bt_clear b \<noteq> Some (show_uuid op) \<Longrightarrow> op \<notin> set (clears h)"
    and m: "merge_page show_uuid b g c = Inr c'"
  shows "in_touch h c'"
proof -
  note pr = page_rows [OF inv1 g c1]
  let ?a = "acknowledge show_uuid b c" and ?d = "fold drop_record (pg_deleted g) (acknowledge show_uuid b c)"
  obtain e where e: "merge_entries (pg_entries g) ?d = Inr e" "c' = e\<lparr>cc_cursor := pg_cursor g\<rparr>"
    using m by (auto simp: merge_page_def split: sum.splits)
  have dead: "lookup h1 i = Some None" if "i \<in> set (pg_deleted g)" for i
    using that pr(2) lookup_row [OF inv1] by auto
  have live1: "lookup h1 (pl_id w) = Some (Some w)" if w: "w \<in> set (pg_entries g)" for w
  proof -
    obtain r where r: "r \<in> set (rows h1)" "hr_payload r = Some w" using w pr(1) by auto
    then have "lookup h1 (hr_id r) = Some (Some w)" using lookup_row [OF inv1] by simp
    moreover from lookup_ids [OF this inv1] have "pl_id w = hr_id r" .
    ultimately show ?thesis by simp
  qed
  have wires: "list_all wire_ok (pg_entries g)" using live live1 by (auto simp: list_all_iff live_ok_def)
  have ta: "in_touch h ?a" by (rule acknowledge_in_touch [OF t a gr])
  have td: "in_touch h ?d" by (rule drops_in_touch [OF ta]) (use dead gr in \<open>fastforce simp: grows_def\<close>)
  have te: "in_touch h e" by (rule merge_entries_in_touch [OF e(1) td wires]) (use live1 gr in \<open>fastforce simp: grows_def\<close>)
  note k = merge_entries_keeps [OF e(1)]
  have clr: "cc_clear ?d = cc_clear ?a \<and> cc_cursor ?d = cc_cursor ?a \<and> set (cc_tombstones ?d) = set (cc_tombstones ?a) \<union> set (pg_deleted g)"
    by (simp add: drops_keep)
  have unap: "unapplied e h" if "cc_clear ?d \<noteq> None"
  proof -
    have "cc_clear ?a \<noteq> None" using that clr by simp
    then obtain op where "cc_clear c = Some op" "bt_clear b \<noteq> Some (show_uuid op)" "cc_clear ?a = Some op"
      by (auto simp: acknowledge_def split: if_splits)
    then show ?thesis using pend clr k(1) by (simp add: unapplied_def)
  qed
  note d = in_touchD [OF te]
  have lv: "leaving c' h = leaving e h" "holds c' = holds e" by (simp_all add: e(2) leaving_def unapplied_def holds_def fun_eq_iff)
  have row1: "r \<in> set (rows h1)" if "r \<in> set (rows h)" "hr_revision r \<le> pg_cursor g" for r
    using that gr pr(4) by (fastforce simp: grows_def later_def)
  have cur: "cc_cursor e = cc_cursor c" using k(4) clr by (simp add: acknowledge_def)
  show ?thesis
  proof (rule in_touchI)
    show "cache_inv c'"
      using d(3) pr(5) pending_ok_records [of c' e] in_touchD(3) [OF t] by (simp add: e(2) cache_inv_iff)
    show "cc_cursor c' \<le> revision h" using pr(4) gr by (simp add: e(2) grows_def later_def)
  next
    fix r assume r: "r \<in> set (rows h)" "hr_revision r \<le> cc_cursor c'" "hr_payload r = None"
    show "hr_id r \<in> set (cc_tombstones c')"
    proof (cases "hr_revision r \<le> cc_cursor c")
      case True
      then show ?thesis using d(5) [OF r(1) _ r(3)] cur by (simp add: e(2))
    next
      case False
      then have "hr_id r \<in> set (pg_deleted g)"
        unfolding pr(2) using row1 [OF r(1)] r by (intro bexI [of _ r]) (simp_all add: e(2))
      then show ?thesis using clr k(2) by (simp add: e(2))
    qed
  next
    fix r p assume r: "r \<in> set (rows h)" "hr_revision r \<le> cc_cursor c'" "hr_payload r = Some p"
    show "holds c' (hr_id r) p \<or> leaving c' h (hr_id r)"
    proof (cases "hr_revision r \<le> cc_cursor c")
      case True
      then show ?thesis using d(6) [OF r(1) _ r(3)] cur by (simp add: lv)
    next
      case False
      have lk: "lookup h (hr_id r) = Some (Some p)" using lookup_row [OF d(1) r(1)] r(3) by simp
      then have "pl_id p = hr_id r" by (rule lookup_ids [OF _ d(1)])
      moreover have "p \<in> set (pg_entries g)" unfolding pr(1) using False row1 [OF r(1)] r by (intro bexI [of _ r]) (simp_all add: e(2))
      ultimately have "cc_clear ?d \<noteq> None \<or> hr_id r \<in> set (cc_tombstones e) \<or> holds e (hr_id r) p"
        using merge_entries_all [OF e(1)] k(2) by metis
      then show ?thesis using unap d(8) [OF lk] by (auto simp: lv leaving_def)
    qed
  qed (use d lv in \<open>auto simp: e(2)\<close>)
qed


section \<open>The device, the service and the other devices\<close>

text \<open>The request in flight; once served, with the page and the account it was read from.\<close>

datatype flight = Idle | Sent batch | Served batch page history

type_synonym account_system = "history \<times> cache option \<times> flight"

fun flight_clear :: "flight \<Rightarrow> ustr option" where
  "flight_clear Idle = None"
| "flight_clear (Sent b) = bt_clear b"
| "flight_clear (Served b g h) = bt_clear b"

text \<open>\<^verbatim>\<open>_read\<close> of a document that is known to be readable.\<close>

definition document :: "cache option \<Rightarrow> cache" where
  "document stored = (case stored of Some c \<Rightarrow> c | None \<Rightarrow> empty_cache)"

inductive account_step ::
  "(rat \<Rightarrow> ustr) \<Rightarrow> (nat \<Rightarrow> ustr) \<Rightarrow> (pyval \<Rightarrow> int) \<Rightarrow> (ustr \<Rightarrow> nat option) \<Rightarrow> account_system \<Rightarrow> unit \<Rightarrow> account_system \<Rightarrow> bool"
  for frepr show_uuid render uuid_of where
  other_device: "\<lbrakk>synchronize render uuid_of True v h = Inr (g, h'); validate render uuid_of v = Inr req;
      \<forall>p \<in> set (cr_upserts req). lookup h (pl_id p) = None \<longrightarrow> pl_id p \<notin> set (cc_tombstones (document st));
      \<forall>op. cr_clear req = Some op \<longrightarrow> cc_clear (document st) \<noteq> Some op\<rbrakk>
    \<Longrightarrow> account_step frepr show_uuid render uuid_of (h, st, fl) () (h', st, fl)"
| recorded: "append_record r final_text st = Inr (b, Some c)
    \<Longrightarrow> account_step frepr show_uuid render uuid_of (h, st, fl) () (h, Some c, fl)"
| deleted: "delete_record i st = Inr (Some c) \<Longrightarrow> account_step frepr show_uuid render uuid_of (h, st, fl) () (h, Some c, fl)"
| cleared: "\<lbrakk>clear_cache op st = Inr c; op \<notin> set (clears h); flight_clear fl \<noteq> Some (show_uuid op)\<rbrakk>
    \<Longrightarrow> account_step frepr show_uuid render uuid_of (h, st, fl) () (h, Some c, fl)"
| sent: "read_cache st = Inr c
    \<Longrightarrow> account_step frepr show_uuid render uuid_of (h, st, Idle) () (h, st, Sent (make_batch frepr show_uuid c))"
| served: "synchronize render uuid_of True (batch_json b) h = Inr (g, h')
    \<Longrightarrow> account_step frepr show_uuid render uuid_of (h, st, Sent b) () (h', st, Served b g h')"
| given_up: "account_step frepr show_uuid render uuid_of (h, st, fl) () (h, st, Idle)"
| merged: "\<lbrakk>page_json g = PDict d; page_of d (bt_cursor b) = Inr g'; read_cache st = Inr c; merge_page show_uuid b g' c = Inr c'\<rbrakk>
    \<Longrightarrow> account_step frepr show_uuid render uuid_of (h, st, Served b g h1) ()
         (h, if changed_by b g' c then Some c' else st, Idle)"

definition account_start :: "account_system \<Rightarrow> bool" where
  "account_start s \<longleftrightarrow> fst s = empty_history \<and> snd s = (None, Idle)"

definition flight_ok :: "(nat \<Rightarrow> ustr) \<Rightarrow> (pyval \<Rightarrow> int) \<Rightarrow> history \<Rightarrow> cache \<Rightarrow> flight \<Rightarrow> bool" where
  "flight_ok show_uuid render h c fl = (case fl of
     Idle \<Rightarrow> True
   | Sent b \<Rightarrow> bt_cursor b = cc_cursor c \<and> batch_ok b
       \<and> (\<forall>w \<in> set (bt_upserts b). pl_id w \<in> set (cc_tombstones c) \<longrightarrow> leaving c h (pl_id w))
       \<and> (\<forall>s. bt_clear b = Some s \<longrightarrow> (\<exists>op. s = show_uuid op))
       \<and> (\<forall>op. cc_clear c = Some op \<longrightarrow> bt_clear b \<noteq> Some (show_uuid op) \<longrightarrow> op \<notin> set (clears h))
   | Served b g h1 \<Rightarrow> bt_cursor b = cc_cursor c \<and> in_touch h1 c \<and> grows h1 h \<and> g = read_page render (bt_cursor b) h1
       \<and> acked show_uuid b c h1
       \<and> (\<forall>op. cc_clear c = Some op \<longrightarrow> bt_clear b \<noteq> Some (show_uuid op) \<longrightarrow> op \<notin> set (clears h)))"

definition system_inv :: "(nat \<Rightarrow> ustr) \<Rightarrow> (pyval \<Rightarrow> int) \<Rightarrow> account_system \<Rightarrow> bool" where
  "system_inv show_uuid render s = (case s of (h, st, fl) \<Rightarrow>
     in_touch h (document st) \<and> flight_ok show_uuid render h (document st) fl)"

lemma read_document: "in_touch h (document st) \<Longrightarrow> read_cache st = Inr (document st)"
  using in_touchD(3) by (auto simp: read_cache_def document_def cache_inv_def split: option.splits)

lemma unchanged:
  assumes "\<not> changed_by b g c" "merge_page show_uuid b g c = Inr c'"
  shows "c' = c"
proof -
  have n: "bt_clear b = None" "bt_upserts b = []" "bt_deletes b = []" "pg_entries g = []" "pg_deleted g = []" "pg_cursor g = cc_cursor c"
    using assms(1) by (auto simp: changed_by_def)
  then have "acknowledge show_uuid b c = c" by (auto simp: acknowledge_def intro!: cache.equality)
  then show ?thesis using assms(2) n by (auto simp: merge_page_def intro!: cache.equality)
qed

lemma validate_batch:
  assumes "batch_ok b" "validate render uuid_of (batch_json b) = Inr req" "\<And>s. bt_clear b = Some s \<Longrightarrow> uuid_of s \<noteq> None"
  shows "req = \<lparr>cr_cursor = bt_cursor b, cr_upserts = bt_upserts b, cr_deletes = bt_deletes b,
    cr_clear = (case bt_clear b of Some s \<Rightarrow> uuid_of s | None \<Rightarrow> None)\<rparr>"
proof -
  have "render (batch_json b) \<le> 409600"
    using assms(2) by (auto simp: validate_def Let_def split: pyval.splits option.splits sum.splits if_splits)
  moreover have "bt_cursor b \<le> 2 ^ 63 - 1"
    using assms(2) by (auto simp: validate_def batch_json_def Let_def split: option.splits sum.splits if_splits)
  ultimately show ?thesis using batch_validates [OF assms(1), of render uuid_of] assms(2,3) by simp
qed


text \<open>One lemma per kind of step.\<close>

lemma local_step:
  assumes fl: "flight_ok show_uuid render h c fl" and t: "in_touch h c'"
    and t1: "\<And>h1. in_touch h1 c \<Longrightarrow> grows h1 h \<Longrightarrow> in_touch h1 c'"
    and same: "cc_cursor c' = cc_cursor c"
    and gone: "\<And>i. i \<in> set (cc_tombstones c') \<Longrightarrow> i \<in> set (cc_tombstones c) \<or> leaving c' h i"
    and lv: "\<And>i. leaving c h i \<Longrightarrow> leaving c' h i"
    and clr: "\<And>op. cc_clear c' = Some op \<Longrightarrow> cc_clear c = Some op \<or> op \<notin> set (clears h) \<and> flight_clear fl \<noteq> Some (show_uuid op)"
  shows "flight_ok show_uuid render h c' fl"
proof (cases fl)
  case (Served b g h1)
  have f: "in_touch h1 c" "grows h1 h" "acked show_uuid b c h1" using fl by (simp_all add: flight_ok_def Served)
  have "acked show_uuid b c' h1" using f(2,3) clr by (auto simp: acked_def Served grows_def)
  then show ?thesis using fl t1 [OF f(1,2)] same clr by (auto simp: flight_ok_def Served)
qed (use fl same gone lv clr in \<open>auto simp: flight_ok_def\<close>)

lemma changes_of_synchronize:
  assumes "synchronize render uuid_of True v h = Inr (g, h')" "validate render uuid_of v = Inr req"
  shows "(case cr_clear req of Some op \<Rightarrow> apply_clear op h | None \<Rightarrow> apply_changes render req h) = Inr h'"
    "g = read_page render (cr_cursor req) h'" "cr_cursor req \<le> revision h"
  using assms by (auto elim!: synchronize_cases)

lemma other_device_inv:
  assumes inv: "system_inv show_uuid render (h, st, fl)"
    and s: "synchronize render uuid_of True v h = Inr (g, h')" and v: "validate render uuid_of v = Inr req"
    and fresh: "\<forall>p \<in> set (cr_upserts req). lookup h (pl_id p) = None \<longrightarrow> pl_id p \<notin> set (cc_tombstones (document st))"
    and clear: "\<forall>op. cr_clear req = Some op \<longrightarrow> cc_clear (document st) \<noteq> Some op"
  shows "system_inv show_uuid render (h', st, fl)"
proof -
  let ?c = "document st"
  have t: "in_touch h ?c" and fl: "flight_ok show_uuid render h ?c fl" using inv by (simp_all add: system_inv_def)
  note ch = changes_of_synchronize(1) [OF s v]
  have t': "in_touch h' ?c" by (rule changes_in_touch [OF t v ch]) (use fresh clear in auto)
  have gr: "grows h h'" by (rule changes_grow [OF in_touchD(1) [OF t] validate_ok [OF v] ch])
  have pend: "op \<notin> set (clears h')" if "cc_clear ?c = Some op" "op \<notin> set (clears h)" for op
    using changes_clears [OF ch] clear that by auto
  have lv: "leaving ?c h' i" if "leaving ?c h i" for i
    using that pend by (auto simp: leaving_def unapplied_def split: option.splits)
  show ?thesis
  proof (cases fl)
    case (Served b g h1)
    then show ?thesis using fl t' gr pend grows_trans [of h1 h h'] by (auto simp: system_inv_def flight_ok_def)
  qed (use fl t' pend lv in \<open>auto simp: system_inv_def flight_ok_def\<close>)
qed

lemma served_inv:
  assumes inv: "system_inv show_uuid render (h, st, Sent b)" and uuid: "\<And>op. uuid_of (show_uuid op) = Some op"
    and s: "synchronize render uuid_of True (batch_json b) h = Inr (g, h')"
  shows "system_inv show_uuid render (h', st, Served b g h')"
proof -
  let ?c = "document st"
  have t: "in_touch h ?c" and f: "bt_cursor b = cc_cursor ?c" "batch_ok b"
    "\<And>w. w \<in> set (bt_upserts b) \<Longrightarrow> pl_id w \<in> set (cc_tombstones ?c) \<Longrightarrow> leaving ?c h (pl_id w)"
    "\<And>s. bt_clear b = Some s \<Longrightarrow> \<exists>op. s = show_uuid op"
    "\<And>op. cc_clear ?c = Some op \<Longrightarrow> bt_clear b \<noteq> Some (show_uuid op) \<Longrightarrow> op \<notin> set (clears h)"
    using inv by (simp_all add: system_inv_def flight_ok_def)
  obtain req where v: "validate render uuid_of (batch_json b) = Inr req" using s by (auto elim!: synchronize_cases)
  have "uuid_of s \<noteq> None" if "bt_clear b = Some s" for s using f(4) [OF that] uuid by auto
  note req = validate_batch [OF f(2) v this]
  have fields: "cr_upserts req = bt_upserts b" "cr_deletes req = bt_deletes b" "cr_cursor req = bt_cursor b"
    "cr_clear req = (case bt_clear b of Some s \<Rightarrow> uuid_of s | None \<Rightarrow> None)"
    using arg_cong [OF req, of cr_upserts] arg_cong [OF req, of cr_deletes] arg_cong [OF req, of cr_cursor] arg_cong [OF req, of cr_clear]
    by (simp_all only: change_request.simps)
  note ch = changes_of_synchronize [OF s v]
  note d = in_touchD [OF t]
  note cs = changes_spec [OF d(1) validate_ok [OF v] ch(1)]
  have clears': "set (clears h') = set (clears h) \<union> set_option (cr_clear req)" by (rule changes_clears [OF ch(1)])
  have t': "in_touch h' ?c"
  proof (cases "\<exists>op. cr_clear req = Some op \<and> op \<notin> set (clears h)")
    case True
    then obtain op where op: "cr_clear req = Some op" "op \<notin> set (clears h)" by blast
    show ?thesis by (rule own_clear_in_touch [OF t validate_ok [OF v] live_ok_step [OF d(2) v d(1) ch(1)] ch(1) op])
  next
    case False
    show ?thesis
    proof (cases "cr_clear req")
      case None
      show ?thesis by (rule changes_in_touch [OF t v ch(1)]) (use f(3) fields None in auto)
    next
      case (Some op)
      then have "h' = h" using ch(1) False by (simp add: apply_clear_def)
      then show ?thesis using t by simp
    qed
  qed
  have ups: "lookup h' (pl_id w) = Some (Some w) \<or> lookup h' (pl_id w) = Some None" if w: "w \<in> set (bt_upserts b)" for w
  proof -
    have none: "bt_clear b = None" "cr_clear req = None" using f(2) w fields by (auto simp: batch_ok_def)
    have "apply_changes render req h = Inr h'" using ch(1) none(2) by simp
    then have "\<not> conflicts (rows h) (cr_upserts req)" by (auto simp: apply_changes_def Let_def split: if_splits)
    then have nc: "\<not> conflicts (rows h) (bt_upserts b)" by (simp add: fields)
    have dist: "distinct (map pl_id (bt_upserts b))" using f(2) by (simp add: batch_ok_def)
    have fnd: "find (\<lambda>p. pl_id p = pl_id w) (bt_upserts b) = Some w"
      using get_row_keyed [OF dist w] by (simp add: get_row_def)
    have ww: "wanted req h (pl_id w) = (case lookup h (pl_id w) of Some x \<Rightarrow> Some x | None \<Rightarrow> Some (Some w))"
      using f(2) w none by (auto simp: wanted_def batch_ok_def fnd fields split: option.splits)
    show ?thesis
      using nc w unfolding cs(3) ww by (auto simp: conflicts_def lookup_def split: option.splits)
  qed
  have dels: "lookup h' i = Some None" if "i \<in> set (bt_deletes b)" for i
    using cs(3) [of i] that f(2) by (auto simp: wanted_def fields batch_ok_def split: option.splits)
  have clr: "op \<in> set (clears h')" if "bt_clear b = Some (show_uuid op)" for op
    using clears' that uuid by (simp add: fields)
  have pend: "op \<notin> set (clears h')" if o: "cc_clear ?c = Some op" "bt_clear b \<noteq> Some (show_uuid op)" for op
    using clears' f(4) f(5) [OF o] uuid o(2) by (auto simp: fields split: option.splits)
  have "acked show_uuid b ?c h'" using ups dels clr by (simp add: acked_def)
  then show ?thesis using t' f(1) ch(2) pend by (simp add: system_inv_def flight_ok_def fields)
qed


lemma merged_inv:
  assumes inv: "system_inv show_uuid render (h, st, Served b g h1)"
    and p: "page_json g = PDict d" "page_of d (bt_cursor b) = Inr g'" and r: "read_cache st = Inr c" and m: "merge_page show_uuid b g' c = Inr c'"
  shows "c = document st" "g' = g" "in_touch h1 c'" "in_touch h c'"
    "system_inv show_uuid render (h, if changed_by b g' c then Some c' else st, Idle)"
proof -
  have t: "in_touch h (document st)" and f: "bt_cursor b = cc_cursor (document st)" "in_touch h1 (document st)" "grows h1 h"
    "g = read_page render (cc_cursor (document st)) h1" "acked show_uuid b (document st) h1"
    "\<And>op. cc_clear (document st) = Some op \<Longrightarrow> bt_clear b \<noteq> Some (show_uuid op) \<Longrightarrow> op \<notin> set (clears h)"
    using inv by (auto simp: system_inv_def flight_ok_def)
  show c: "c = document st" using read_document [OF t] r by simp
  note d1 = in_touchD [OF f(2)]
  note pr = page_rows [OF d1(1) f(4) d1(4)]
  have "wire_ok w" if w: "w \<in> set (pg_entries g)" for w
  proof -
    obtain r where "r \<in> set (rows h1)" "hr_payload r = Some w" using w pr(1) by auto
    then have "lookup h1 (hr_id r) = Some (Some w)" using lookup_row [OF d1(1)] by simp
    then show ?thesis using d1(2) by (auto simp: live_ok_def)
  qed
  moreover have "wire_id i" if i: "i \<in> set (pg_deleted g)" for i
  proof -
    obtain r where "r \<in> set (rows h1)" "hr_payload r = None" "hr_id r = i" using i pr(2) by auto
    then have "lookup h1 i = Some None" using lookup_row [OF d1(1)] by auto
    then show ?thesis using d1(2) by (auto simp: live_ok_def)
  qed
  ultimately show g: "g' = g" using page_of_json [OF p(1) _ _ p(2)] by (simp add: list_all_iff)
  have pend1: "op \<notin> set (clears h1)" if "cc_clear c = Some op" "bt_clear b \<noteq> Some (show_uuid op)" for op
    using f(3) f(6) that by (auto simp: c grows_def)
  show "in_touch h1 c'"
    by (rule merge_in_touch [OF f(2) d1(1) grows_refl d1(4) f(4) d1(2) f(5) _ m [unfolded c g]]) (use pend1 c in auto)
  show t': "in_touch h c'"
    by (rule merge_in_touch [OF t d1(1) f(3) d1(4) f(4) d1(2) f(5,6) m [unfolded c g]])
  show "system_inv show_uuid render (h, if changed_by b g' c then Some c' else st, Idle)"
    using t' t unchanged [OF _ m] by (auto simp: system_inv_def flight_ok_def c document_def)
qed

lemma account_step_inv:
  assumes s: "account_step frepr show_uuid render uuid_of s e s'" and inv: "system_inv show_uuid render s"
    and uuid: "\<And>op. uuid_of (show_uuid op) = Some op"
  shows "system_inv show_uuid render s'"
  using s
proof cases
  case (other_device v h g h' req st fl)
  then show ?thesis using inv other_device_inv by blast
next
  case (recorded r final_text st b c h fl)
  have t: "in_touch h (document st)" and f: "flight_ok show_uuid render h (document st) fl"
    using inv recorded(1) by (simp_all add: system_inv_def)
  note rd = read_document [OF t]
  obtain w where c: "c = (document st)\<lparr>cc_records := cc_records (document st) @ [(lr_id r, \<lparr>ch_record = r\<lparr>lr_device := Some (ulit ''desktop'')\<rparr>, ch_wire = w\<rparr>)],
      cc_pending := AList.update (lr_id r) w (cc_pending (document st))\<rparr>"
    by (rule append_new [OF recorded(4)]) (use rd in auto)
  have "flight_ok show_uuid render h c fl"
    by (rule local_step [OF f append_in_touch [OF t recorded(4) rd] append_in_touch [OF _ recorded(4) rd]])
      (simp_all add: c leaving_def unapplied_def)
  then show ?thesis using recorded(3) append_in_touch [OF t recorded(4) rd] by (simp add: system_inv_def document_def)
next
  case (deleted i st c h fl)
  have t: "in_touch h (document st)" and f: "flight_ok show_uuid render h (document st) fl"
    using inv deleted(1) by (simp_all add: system_inv_def)
  note rd = read_document [OF t]
  have c: "c = (drop_record i (document st))\<lparr>cc_deleted := add_once (cc_deleted (document st)) i\<rparr>"
    using deleted(4) rd by (auto simp: delete_record_def drop_record_def split: if_splits)
  have "flight_ok show_uuid render h c fl"
    by (rule local_step [OF f delete_in_touch [OF t deleted(4) rd] delete_in_touch [OF _ deleted(4) rd]])
      (auto simp: c drop_record_def leaving_def unapplied_def)
  then show ?thesis using deleted(3) delete_in_touch [OF t deleted(4) rd] by (simp add: system_inv_def document_def)
next
  case (cleared op st c h fl)
  have t: "in_touch h (document st)" and f: "flight_ok show_uuid render h (document st) fl"
    using inv cleared(1) by (simp_all add: system_inv_def)
  note rd = read_document [OF t]
  have u: "unapplied c h" by (rule clear_in_touch(2) [OF t cleared(4) rd cleared(5)])
  have t1: "in_touch h1 c" if "in_touch h1 (document st)" "grows h1 h" for h1
    by (rule clear_in_touch(1) [OF that(1) cleared(4) rd]) (use that(2) cleared(5) in \<open>auto simp: grows_def\<close>)
  have c: "c = (document st)\<lparr>cc_tombstones := foldl add_once [] (cc_tombstones (document st) @ map fst (cc_records (document st))),
       cc_records := [], cc_pending := [], cc_deleted := [], cc_clear := Some op\<rparr>"
    using cleared(4) rd by (simp add: clear_cache_def)
  have "flight_ok show_uuid render h c fl"
    by (rule local_step [OF f clear_in_touch(1) [OF t cleared(4) rd cleared(5)] t1])
      (use u cleared(5,6) in \<open>auto simp: leaving_def c\<close>)
  then show ?thesis using cleared(3) t1 [OF t] by (simp add: system_inv_def document_def)
next
  case (sent st c h)
  have t: "in_touch h (document st)" using inv sent(1) by (simp add: system_inv_def)
  have c: "c = document st" using read_document [OF t] sent(4) by simp
  have pend: "pl_id w \<notin> set (cc_tombstones c)" if w: "w \<in> set (bt_upserts (make_batch frepr show_uuid c))" for w
  proof -
    obtain k where "(k, w) \<in> set (cc_pending c)" using batch_upsert_pending [OF w] by auto
    then show ?thesis using cache_pending_ok(2,3) [of c k w] in_touchD(3) [OF t] c by simp
  qed
  show ?thesis
    using t pend make_batch_ok [OF in_touchD(3) [OF t], of frepr show_uuid] unfolding sent(3) system_inv_def flight_ok_def
    by (auto simp: c batch_fields)
next
  case (served b h g h' st)
  show ?thesis using served_inv [OF _ uuid served(4), of st] inv served(1,3) by simp
next
  case (given_up h st fl)
  then show ?thesis using inv by (simp add: system_inv_def flight_ok_def)
next
  case (merged g d b g' st c c' h h1)
  show ?thesis using merged_inv(5) [OF _ merged(4-7), of render h h1] inv merged(1,3) by simp
qed

lemma account_start_inv: "account_start s \<Longrightarrow> system_inv show_uuid render s"
proof -
  have "in_touch empty_history empty_cache"
    by (rule in_touchI) (simp_all add: empty_cache_inv, simp_all add: empty_history_def history_inv_def live_ok_def lookup_def
      get_row_def holds_def empty_cache_def)
  then show "account_start s \<Longrightarrow> ?thesis"
    by (cases s) (auto simp: account_start_def system_inv_def flight_ok_def document_def)
qed

text \<open>\<open>uuid_of\<close> reads what \<open>show_uuid\<close> writes.\<close>

definition uuids_read_back :: "(nat \<Rightarrow> ustr) \<Rightarrow> (ustr \<Rightarrow> nat option) \<Rightarrow> bool" where
  "uuids_read_back show_uuid uuid_of \<longleftrightarrow> (\<forall>op. uuid_of (show_uuid op) = Some op)"

interpretation account: stateful_component account_start "account_step frepr show_uuid render uuid_of"
  "\<lambda>s. uuids_read_back show_uuid uuid_of \<longrightarrow> system_inv show_uuid render s"
  by unfold_locales (auto simp: uuids_read_back_def intro: account_start_inv account_step_inv)

lemma account_reachable:
  assumes "account_start s" "run_of (account_step frepr show_uuid render uuid_of) s es (h, st, fl)" "uuids_read_back show_uuid uuid_of"
  shows "in_touch h (document st)" "flight_ok show_uuid render h (document st) fl"
  using account.reachable_inv [OF assms(1,2)] assms(3) by (simp_all add: system_inv_def)

section \<open>A concrete device\<close>

definition demo_uuid :: "nat \<Rightarrow> ustr" where
  "demo_uuid n = replicate n 97"

definition demo_uuid_of :: "ustr \<Rightarrow> nat option" where
  "demo_uuid_of s = Some (length s)"

lemma demo_uuids: "uuids_read_back demo_uuid demo_uuid_of"
  by (simp add: uuids_read_back_def demo_uuid_def demo_uuid_of_def)

definition demo_record :: local_record where
  "demo_record = \<lparr>lr_id = [97], lr_time = 1000, lr_raw = Some [104, 105], lr_refined = None, lr_device = Some (ulit ''desktop'')\<rparr>"

definition demo_wire :: payload where
  "demo_wire = \<lparr>pl_id = [97], pl_created = 1000, pl_transcript = [104, 105], pl_text = [104, 105], pl_rewritten = False,
     pl_device = ulit ''desktop''\<rparr>"

definition demo_cache :: cache where
  "demo_cache = \<lparr>cc_cursor = 0, cc_records = [([97], \<lparr>ch_record = demo_record, ch_wire = demo_wire\<rparr>)], cc_pending = [([97], demo_wire)],
     cc_deleted = [], cc_tombstones = [], cc_clear = None\<rparr>"

definition demo_batch :: batch where
  "demo_batch = \<lparr>bt_cursor = 0, bt_upserts = [demo_wire], bt_deletes = [], bt_clear = None\<rparr>"

definition demo_account :: history where
  "demo_account = \<lparr>revision = 1, rows = [\<lparr>hr_id = [97], hr_revision = 1, hr_payload = Some demo_wire, hr_bytes = 7\<rparr>], clears = []\<rparr>"

definition demo_reply :: page where
  "demo_reply = \<lparr>pg_cursor = 1, pg_more = False, pg_entries = [demo_wire], pg_deleted = []\<rparr>"

definition demo_synced :: cache where
  "demo_synced = demo_cache\<lparr>cc_cursor := 1, cc_pending := []\<rparr>"

lemma demo_wire_ok: "wire_ok demo_wire"
  unfolding wire_ok_iff
  by (simp add: demo_wire_def wire_id_def id_char_def ascii_alnum_def wire_text_def utf8_width_def py_strip_def py_space_def)

lemma demo_append: "append_record demo_record None None = Inr (True, Some demo_cache)"
proof -
  have "entry_of demo_record None = wire_of (payload_json demo_wire)"
    by (simp add: entry_of_def demo_record_def demo_wire_def ulit_def Let_def)
  then have "entry_of demo_record None = Inr demo_wire" using demo_wire_ok by (simp add: wire_ok_def)
  moreover have "demo_record\<lparr>lr_device := Some (ulit ''desktop'')\<rparr> = demo_record" by (simp add: demo_record_def)
  ultimately show ?thesis
    by (simp add: append_record_def Let_def read_cache_def empty_cache_def demo_cache_def, simp add: demo_record_def)
qed

lemma demo_cache_inv: "cache_inv demo_cache"
  by (rule append_inv [OF demo_append]) simp

lemma demo_make_batch: "make_batch (\<lambda>_. []) demo_uuid demo_cache = demo_batch"
proof -
  have "bt_upserts (make_batch (\<lambda>_. []) demo_uuid demo_cache) \<noteq> []"
    by (rule make_batch_progress [OF demo_cache_inv]) (simp_all add: demo_cache_def)
  then show ?thesis by (simp add: make_batch_def demo_cache_def demo_batch_def Let_def split: if_splits)
qed

lemma demo_read: "read_cache (Some demo_cache) = Inr demo_cache"
  using demo_cache_inv by (simp add: read_cache_def cache_inv_def)

lemma demo_validates:
  "validate (\<lambda>_. 7) demo_uuid_of (batch_json demo_batch) = Inr \<lparr>cr_cursor = 0, cr_upserts = [demo_wire], cr_deletes = [], cr_clear = None\<rparr>"
proof -
  have "batch_ok demo_batch" using make_batch_ok [OF demo_cache_inv, of "\<lambda>_. []" demo_uuid] by (simp add: demo_make_batch)
  from batch_validates [OF this, of "\<lambda>_. 7" demo_uuid_of] show ?thesis by (simp add: demo_batch_def)
qed

lemma demo_serve: "synchronize (\<lambda>_. 7) demo_uuid_of True (batch_json demo_batch) empty_history = Inr (demo_reply, demo_account)"
proof -
  have "apply_changes (\<lambda>_. 7) \<lparr>cr_cursor = 0, cr_upserts = [demo_wire], cr_deletes = [], cr_clear = None\<rparr> empty_history = Inr demo_account"
    by (simp add: apply_changes_def conflicts_def empty_history_def get_row_def over_capacity_def demo_account_def)
      (simp add: demo_wire_def)
  moreover have "read_page (\<lambda>_. 7) 0 demo_account = demo_reply" by code_simp
  ultimately show ?thesis by (simp add: synchronize_def demo_validates, simp add: empty_history_def)
qed

lemma demo_sent:
  "run_of (account_step (\<lambda>_. []) demo_uuid (\<lambda>_. 7) demo_uuid_of) (empty_history, None, Idle) [(), (), ()]
     (demo_account, Some demo_cache, Served demo_batch demo_reply demo_account)"
proof (intro run_cons)
  let ?step = "account_step (\<lambda>_. []) demo_uuid (\<lambda>_. 7) demo_uuid_of"
  show "?step (empty_history, None, Idle) () (empty_history, Some demo_cache, Idle)" by (rule account_step.recorded [OF demo_append])
  show "?step (empty_history, Some demo_cache, Idle) () (empty_history, Some demo_cache, Sent demo_batch)"
    using account_step.sent [OF demo_read, of "\<lambda>_. []" demo_uuid] by (simp only: demo_make_batch)
  show "?step (empty_history, Some demo_cache, Sent demo_batch) () (demo_account, Some demo_cache, Served demo_batch demo_reply demo_account)"
    by (rule account_step.served [OF demo_serve])
qed (rule run_nil)

lemma demo_start: "account_start (empty_history, None, Idle)"
  by (simp add: account_start_def)

lemma demo_page_read:
  "\<exists>d. page_json demo_reply = PDict d \<and> page_of d (bt_cursor demo_batch) = Inr demo_reply"
proof (intro exI conjI)
  show "page_json demo_reply = PDict [(ulit ''cursor'', PInt 1), (ulit ''hasMore'', PBool False),
     (ulit ''entries'', PList [payload_json demo_wire]), (ulit ''deleted'', PList [])]"
    by (simp add: page_json_def demo_reply_def)
  have "wire_of (payload_json demo_wire) = Inr demo_wire" using demo_wire_ok by (simp add: wire_ok_def)
  then show "page_of [(ulit ''cursor'', PInt 1), (ulit ''hasMore'', PBool False),
     (ulit ''entries'', PList [payload_json demo_wire]), (ulit ''deleted'', PList [])] (bt_cursor demo_batch) = Inr demo_reply"
    by (simp add: page_of_def ulit_def demo_batch_def demo_reply_def)
qed

lemma demo_merge: "merge_page demo_uuid demo_batch demo_reply demo_cache = Inr demo_synced"
  by (simp add: merge_page_def acknowledge_def demo_batch_def demo_reply_def demo_cache_def demo_synced_def, simp add: demo_wire_def)

section \<open>Properties\<close>





text \<open>
  C37. The device and the service agree. When a synchronization has brought the last page and nothing is
  left to send, the device shows exactly the live records of the account as the service had them when
  it read that page, whatever other devices and the user did in between and whichever messages were lost.
\<close>

theorem device_converges:
  assumes "account_start s" "run_of (account_step frepr show_uuid render uuid_of) s es (h, st, Served b g h1)"
    and "uuids_read_back show_uuid uuid_of"
    and "page_json g = PDict d" "page_of d (bt_cursor b) = Inr g'" "read_cache st = Inr c" "merge_page show_uuid b g' c = Inr c'"
    and "sync_finished g' c'"
  shows "map_option ch_wire (map_of (cc_records c') i) = (case lookup h1 i of Some x \<Rightarrow> x | None \<Rightarrow> None)"
proof -
  have inv: "system_inv show_uuid render (h, st, Served b g h1)"
    using account_reachable [OF assms(1-3)] by (simp add: system_inv_def)
  note m = merged_inv [OF inv assms(4-7)]
  note d = in_touchD [OF m(3)]
  have fin: "\<not> pg_more g" "cc_pending c' = []" "cc_deleted c' = []" "cc_clear c' = None"
    using assms(8) by (simp_all add: sync_finished_def m(2))
  have no: "\<not> leaving c' h1 j" for j using fin by (simp add: leaving_def unapplied_def)
  have f: "g = read_page render (cc_cursor c) h1" "in_touch h1 c"
    using inv m(1) by (simp_all add: system_inv_def flight_ok_def)
  have cur: "cc_cursor c' = pg_cursor g" using assms(7) m(2) by (auto simp: merge_page_def split: sum.splits)
  have all: "hr_revision r \<le> cc_cursor c'" if "r \<in> set (rows h1)" for r
    using page_rows(3) [OF in_touchD(1) [OF f(2)] f(1) in_touchD(4) [OF f(2)] fin(1) that] by (simp add: cur)
  show ?thesis
  proof (cases "lookup h1 i")
    case None
    then have "\<not> holds c' i w" for w using d(7) [of i w] fin(2) by auto
    then show ?thesis using None by (cases "map_of (cc_records c') i") (auto simp: holds_def)
  next
    case (Some x)
    then obtain r where r: "r \<in> set (rows h1)" "hr_id r = i" "hr_payload r = x"
      unfolding lookup_def by (auto dest: get_row_Some)
    show ?thesis
    proof (cases x)
      case None
      then have "i \<in> set (cc_tombstones c')" using d(5) [OF r(1) all [OF r(1)]] r by simp
      then have "map_of (cc_records c') i = None" using d(3) by (simp add: cache_inv_iff)
      then show ?thesis using Some None by simp
    next
      case (Some p)
      then have "holds c' i p" using d(6) [OF r(1) all [OF r(1)]] r no by auto
      then show ?thesis using \<open>lookup h1 i = Some x\<close> Some by (simp add: holds_def)
    qed
  qed
qed

theorem device_converges_witness: "map_option ch_wire (map_of (cc_records demo_synced) [97]) = Some demo_wire"
proof -
  obtain d where d: "page_json demo_reply = PDict d" "page_of d (bt_cursor demo_batch) = Inr demo_reply" using demo_page_read by blast
  have "sync_finished demo_reply demo_synced" by (simp add: sync_finished_def demo_reply_def demo_synced_def demo_cache_def)
  from device_converges [OF demo_start demo_sent demo_uuids d demo_read demo_merge this, of "[97]"]
  show ?thesis by (simp add: lookup_def get_row_def demo_account_def)
qed




end
