(* ===== verification/Update_Security.thy ===== *)
theory Update_Security
  imports Codecs "HOL-Library.Product_Lexorder"
begin

text \<open>
  \<^verbatim>\<open>update_security.py\<close>: finding, checking and starting an update. The environment gathers what the code
  asks of the operating system and the network: the answer to a download, what PowerShell and SignTool
  report of a file, what \<^verbatim>\<open>expand.exe\<close> extracts, SHA-256, and the Unicode tables behind \<^verbatim>\<open>str\<close>, \<^verbatim>\<open>upper\<close>
  and \<^verbatim>\<open>\d\<close>. Files are a map from paths to bytes. A JSON document with \<^verbatim>\<open>NaN\<close> or an infinity is refused
  by the reader here; the code refuses such a manifest at the field that holds it.
\<close>

section \<open>Data\<close>

datatype update_error = Transport_error | Policy_error | Manifest_error | Signature_error | Integrity_error
  | Downgrade_error | Security_error | Value_error

type_synonym path = "ustr list"
type_synonym files = "path \<rightharpoonup> bytes"

record update_policy =
  up_repository :: ustr
  up_channel :: ustr
  up_manifest_asset :: ustr
  up_installer_asset :: ustr
  up_publisher :: ustr
  up_require_timestamp :: bool
  up_maximum :: int

record release_asset =
  ra_name :: ustr
  ra_url :: ustr
  ra_sha256 :: ustr
  ra_size :: int
  ra_publisher :: ustr

record release_manifest =
  rm_version :: ustr
  rm_tag :: ustr
  rm_channel :: ustr
  rm_asset :: release_asset

record signature_identity =
  si_common_name :: ustr
  si_thumbprint :: ustr
  si_timestamp_name :: ustr
  si_timestamp_thumbprint :: ustr

record prepared_update =
  pu_manifest :: release_manifest
  pu_path :: path
  pu_signer :: signature_identity
  pu_require_timestamp :: bool

text \<open>A response: the final address, the announced length, and the chunks; \<open>None\<close> is a broken connection.\<close>

record response =
  rs_url :: ustr
  rs_length :: ustr
  rs_chunks :: "bytes option list"

record update_env =
  net :: "ustr \<Rightarrow> response option"
  origin :: "ustr \<Rightarrow> ustr \<times> ustr option"
  int_text :: "ustr \<Rightarrow> int option"
  sha256 :: "bytes \<Rightarrow> ustr"
  inspect :: "bytes \<Rightarrow> (ustr \<times> pyval) list option"
  chain_valid :: "bytes \<Rightarrow> bool"
  expand :: "bytes \<Rightarrow> bytes option"
  py_text :: "pyval \<Rightarrow> ustr"
  upper :: "ustr \<Rightarrow> ustr"
  lower :: "ustr \<Rightarrow> ustr"
  decimal :: "nat \<Rightarrow> nat option"

section \<open>The policy and the manifest\<close>

definition read_json :: "int \<Rightarrow> bytes \<Rightarrow> update_error + (ustr \<times> pyval) list" where
  "read_json maximum data =
     (if data = [] \<or> maximum < int (length data) then Inl Manifest_error
      else (case utf8_decode data of None \<Rightarrow> Inl Manifest_error
        | Some s \<Rightarrow> (case json_loads s of Some (PDict d) \<Rightarrow> Inr d | _ \<Rightarrow> Inl Manifest_error)))"

definition exact_keys :: "string list \<Rightarrow> (ustr \<times> pyval) list \<Rightarrow> bool" where
  "exact_keys names d \<longleftrightarrow> same_set (dict_keys d) (map ulit names)"

text \<open>\<^verbatim>\<open>payload[key]\<close> of a member that is present.\<close>

definition member :: "(ustr \<times> pyval) list \<Rightarrow> string \<Rightarrow> pyval" where
  "member d k = (case map_of d (ulit k) of Some v \<Rightarrow> v | None \<Rightarrow> PNone)"

text \<open>\<^verbatim>\<open>value == 1\<close> holds of \<^verbatim>\<open>True\<close> and \<^verbatim>\<open>1.0\<close> too; \<^verbatim>\<open>isinstance(value, int)\<close> holds of booleans.\<close>

definition equals_one :: "pyval \<Rightarrow> bool" where
  "equals_one v = (case v of PInt i \<Rightarrow> i = 1 | PBool b \<Rightarrow> b | PFloat q \<Rightarrow> q = 1 | _ \<Rightarrow> False)"

definition int_value :: "pyval \<Rightarrow> int option" where
  "int_value v = (case v of PInt i \<Rightarrow> Some i | PBool b \<Rightarrow> Some (if b then 1 else 0) | _ \<Rightarrow> None)"

definition repository_ok :: "ustr \<Rightarrow> bool" where
  "repository_ok s \<longleftrightarrow> length (split_on 47 s) = 2
     \<and> list_all (\<lambda>p. p \<noteq> [] \<and> list_all (\<lambda>c. ascii_alnum c \<or> c = 95 \<or> c = 46 \<or> c = 45) p) (split_on 47 s)"

definition load_update_policy :: "update_env \<Rightarrow> bytes option \<Rightarrow> update_error + update_policy" where
  "load_update_policy env file = (case file of None \<Rightarrow> Inl Policy_error | Some data \<Rightarrow>
     (case read_json 16384 data of Inl e \<Rightarrow> Inl e | Inr d \<Rightarrow>
       let field = (\<lambda>k. py_text env (member d k)) in
       if \<not> exact_keys [''schema_version'', ''repository'', ''channel'', ''manifest_asset'', ''installer_asset'',
            ''publisher_common_name'', ''require_rfc3161_timestamp'', ''maximum_download_bytes''] d then Inl Manifest_error
       else if \<not> equals_one (member d ''schema_version'') then Inl Policy_error
       else if \<not> repository_ok (field ''repository'') then Inl Policy_error
       else if field ''channel'' \<noteq> ulit ''stable'' then Inl Policy_error
       else if field ''manifest_asset'' \<noteq> ulit ''Clarify-release-manifest.cab'' then Inl Policy_error
       else if field ''installer_asset'' \<noteq> ulit ''Clarify-windows-x64.msi'' then Inl Policy_error
       else let publisher = py_strip (field ''publisher_common_name'') in
         if publisher = [] \<or> 256 < length publisher then Inl Policy_error
         else if member d ''require_rfc3161_timestamp'' \<noteq> PBool True then Inl Policy_error
         else (case int_value (member d ''maximum_download_bytes'') of
             None \<Rightarrow> Inl Policy_error
           | Some maximum \<Rightarrow>
               if \<not> (1048576 \<le> maximum \<and> maximum \<le> 1073741824) then Inl Policy_error
               else Inr \<lparr>up_repository = field ''repository'', up_channel = field ''channel'',
                 up_manifest_asset = field ''manifest_asset'', up_installer_asset = field ''installer_asset'',
                 up_publisher = publisher, up_require_timestamp = True, up_maximum = maximum\<rparr>)))"

definition manifest_url :: "update_policy \<Rightarrow> ustr" where
  "manifest_url p = ulit ''https://github.com/'' @ up_repository p @ ulit ''/releases/latest/download/'' @ up_manifest_asset p"

text \<open>
  \<^verbatim>\<open>(0|[1-9]\d*)\<close>, where \<^verbatim>\<open>\d\<close> is every decimal digit of Unicode. \<^verbatim>\<open>int\<close> of more than 4300 digits raises.
\<close>

definition version_part :: "update_env \<Rightarrow> ustr \<Rightarrow> update_error + nat" where
  "version_part env s = (case s of [] \<Rightarrow> Inl Manifest_error | c # r \<Rightarrow>
     if s = [48] then Inr 0
     else if 49 \<le> c \<and> c \<le> 57 \<and> list_all (\<lambda>x. decimal env x \<noteq> None) r
       then if 4300 < length s then Inl Value_error
            else Inr (foldl (\<lambda>n x. 10 * n + the (decimal env x)) (c - 48) r)
     else Inl Manifest_error)"

definition parse_version :: "update_env \<Rightarrow> ustr \<Rightarrow> update_error + nat \<times> nat \<times> nat" where
  "parse_version env s = (case map_err (version_part env) (split_on 46 s) of
     Inr [a, b, c] \<Rightarrow> Inr (a, b, c)
   | Inr _ \<Rightarrow> Inl Manifest_error
   | Inl e \<Rightarrow> if length (split_on 46 s) = 3 \<and> list_all (\<lambda>p. version_part env p \<noteq> Inl Manifest_error) (split_on 46 s)
       then Inl e else Inl Manifest_error)"

definition hex_lower :: "nat \<Rightarrow> bool" where
  "hex_lower c \<longleftrightarrow> (48 \<le> c \<and> c \<le> 57) \<or> (97 \<le> c \<and> c \<le> 102)"

definition hex_upper :: "nat \<Rightarrow> bool" where
  "hex_upper c \<longleftrightarrow> (48 \<le> c \<and> c \<le> 57) \<or> (65 \<le> c \<and> c \<le> 70)"

definition asset_url :: "update_policy \<Rightarrow> ustr \<Rightarrow> ustr \<Rightarrow> ustr" where
  "asset_url p tag name = ulit ''https://github.com/'' @ up_repository p @ ulit ''/releases/download/'' @ tag @ ulit ''/'' @ name"

definition github :: "update_env \<Rightarrow> ustr \<Rightarrow> bool" where
  "github env url \<longleftrightarrow> origin env url = (ulit ''https'', Some (ulit ''github.com''))"

definition parse_release_asset :: "update_env \<Rightarrow> update_policy \<Rightarrow> ustr \<Rightarrow> (ustr \<times> pyval) list \<Rightarrow> update_error + release_asset" where
  "parse_release_asset env p tag a = (let field = (\<lambda>k. py_text env (member a k)) in
     if \<not> exact_keys [''name'', ''url'', ''sha256'', ''size'', ''publisher_common_name''] a then Inl Manifest_error
     else if field ''name'' \<noteq> up_installer_asset p then Inl Manifest_error
     else if field ''url'' \<noteq> asset_url p tag (field ''name'') then Inl Manifest_error
     else if \<not> github env (field ''url'') then Inl Manifest_error
     else if \<not> (length (field ''sha256'') = 64 \<and> list_all hex_lower (field ''sha256'')) then Inl Manifest_error
     else (case int_value (member a ''size'') of None \<Rightarrow> Inl Manifest_error | Some size' \<Rightarrow>
       if \<not> (1 \<le> size' \<and> size' \<le> up_maximum p) then Inl Manifest_error
       else if field ''publisher_common_name'' \<noteq> up_publisher p then Inl Manifest_error
       else Inr \<lparr>ra_name = field ''name'', ra_url = field ''url'', ra_sha256 = field ''sha256'', ra_size = size',
         ra_publisher = field ''publisher_common_name''\<rparr>))"

definition parse_release_manifest :: "update_env \<Rightarrow> update_policy \<Rightarrow> bytes \<Rightarrow> update_error + release_manifest" where
  "parse_release_manifest env p data = (case read_json 65536 data of Inl e \<Rightarrow> Inl e | Inr d \<Rightarrow>
     let field = (\<lambda>k. py_text env (member d k)) in
     if \<not> exact_keys [''schema_version'', ''version'', ''release_tag'', ''channel'', ''asset''] d then Inl Manifest_error
     else if \<not> equals_one (member d ''schema_version'') then Inl Manifest_error
     else (case parse_version env (field ''version'') of Inl e \<Rightarrow> Inl e | Inr _ \<Rightarrow>
       if field ''release_tag'' \<noteq> ulit ''v'' @ field ''version'' then Inl Manifest_error
       else if field ''channel'' \<noteq> up_channel p then Inl Manifest_error
       else (case member d ''asset'' of
           PDict a \<Rightarrow> (case parse_release_asset env p (field ''release_tag'') a of Inl e \<Rightarrow> Inl e
             | Inr asset \<Rightarrow> Inr \<lparr>rm_version = field ''version'', rm_tag = field ''release_tag'', rm_channel = field ''channel'',
                 rm_asset = asset\<rparr>)
         | _ \<Rightarrow> Inl Manifest_error)))"

definition require_newer_version :: "update_env \<Rightarrow> ustr \<Rightarrow> release_manifest \<Rightarrow> update_error + bool" where
  "require_newer_version env current m = (case parse_version env current of Inl e \<Rightarrow> Inl e | Inr cur \<Rightarrow>
     (case parse_version env (rm_version m) of Inl e \<Rightarrow> Inl e | Inr offered \<Rightarrow>
       if offered < cur then Inl Downgrade_error else Inr (cur < offered)))"

section \<open>Downloads\<close>

definition part_path :: "path \<Rightarrow> path" where
  "part_path p = butlast p @ [last p @ ulit ''.part'']"

text \<open>The loop over the chunks writes to the open part file.\<close>

fun receive :: "int \<Rightarrow> bytes option list \<Rightarrow> bytes \<Rightarrow> update_error + bytes" where
  "receive maximum [] got = Inr got"
| "receive maximum (None # cs) got = Inl Transport_error"
| "receive maximum (Some c # cs) got =
     (if c = [] then receive maximum cs got
      else if maximum < int (length (got @ c)) then Inl Integrity_error
      else receive maximum cs (got @ c))"

definition fetch :: "update_env \<Rightarrow> ustr \<Rightarrow> int \<Rightarrow> int option \<Rightarrow> ustr option \<Rightarrow> update_error + bytes" where
  "fetch env url maximum expected_size expected_sha = (case net env url of None \<Rightarrow> Inl Transport_error | Some r \<Rightarrow>
     if fst (origin env (rs_url r)) \<noteq> ulit ''https'' then Inl Integrity_error
     else (case (if rs_length r = [] then Inr None else case int_text env (rs_length r) of
             None \<Rightarrow> Inl Integrity_error
           | Some n \<Rightarrow> if maximum < n then Inl Integrity_error
               else if expected_size \<noteq> None \<and> expected_size \<noteq> Some n then Inl Integrity_error else Inr (Some n)) of
         Inl e \<Rightarrow> Inl e
       | Inr _ \<Rightarrow> (case receive maximum (rs_chunks r) [] of Inl e \<Rightarrow> Inl e | Inr data \<Rightarrow>
           if expected_size \<noteq> None \<and> expected_size \<noteq> Some (int (length data)) then Inl Integrity_error
           else if expected_sha \<noteq> None \<and> expected_sha \<noteq> Some (sha256 env data) then Inl Integrity_error
           else Inr data)))"

definition download_atomic ::
  "update_env \<Rightarrow> ustr \<Rightarrow> path \<Rightarrow> int \<Rightarrow> int option \<Rightarrow> ustr option \<Rightarrow> files \<Rightarrow> (update_error + unit) \<times> files" where
  "download_atomic env url dest maximum expected_size expected_sha fs =
     (if \<not> github env url then (Inl Integrity_error, fs)
      else (case fetch env url maximum expected_size expected_sha of
          Inl e \<Rightarrow> (Inl e, fs(part_path dest := None))
        | Inr data \<Rightarrow> (Inr (), (fs(part_path dest := Some data))(part_path dest := None, dest := Some data))))"

section \<open>Signatures\<close>

definition report_text :: "update_env \<Rightarrow> (ustr \<times> pyval) list \<Rightarrow> string \<Rightarrow> string \<Rightarrow> ustr" where
  "report_text env d k dflt = (case map_of d (ulit k) of Some v \<Rightarrow> py_text env v | None \<Rightarrow> ulit dflt)"

definition thumbprint :: "update_env \<Rightarrow> ustr \<Rightarrow> ustr" where
  "thumbprint env s = upper env (filter (\<lambda>c. c \<noteq> 32) s)"

definition thumbprint_ok :: "ustr \<Rightarrow> bool" where
  "thumbprint_ok s \<longleftrightarrow> 40 \<le> length s \<and> length s \<le> 128 \<and> list_all hex_upper s"

definition verify_authenticode :: "update_env \<Rightarrow> bytes option \<Rightarrow> ustr \<Rightarrow> bool \<Rightarrow> update_error + signature_identity" where
  "verify_authenticode env file expected require_timestamp = (case file of None \<Rightarrow> Inl Signature_error | Some data \<Rightarrow>
     (case inspect env data of None \<Rightarrow> Inl Signature_error | Some d \<Rightarrow>
       let name = py_strip (report_text env d ''CommonName'' '''');
           thumb = thumbprint env (report_text env d ''Thumbprint'' '''');
           stamp_name = py_strip (report_text env d ''TimestampCommonName'' '''');
           stamp_thumb = thumbprint env (report_text env d ''TimestampThumbprint'' '''') in
       if map_of d (ulit ''Status'') \<noteq> Some (PStr (ulit ''Valid'')) then Inl Signature_error
       else if name \<noteq> expected then Inl Signature_error
       else if \<not> thumbprint_ok thumb then Inl Signature_error
       else if require_timestamp \<and> (report_text env d ''TimestampStatus'' ''Missing'' \<noteq> ulit ''Valid''
            \<or> report_text env d ''TimestampProtocol'' ''Missing'' \<noteq> ulit ''RFC3161''
            \<or> stamp_name = [] \<or> \<not> thumbprint_ok stamp_thumb \<or> \<not> chain_valid env data) then Inl Signature_error
       else Inr \<lparr>si_common_name = name, si_thumbprint = thumb, si_timestamp_name = stamp_name,
         si_timestamp_thumbprint = stamp_thumb\<rparr>))"

section \<open>Preparing and starting an update\<close>

definition extract_manifest :: "update_env \<Rightarrow> bytes \<Rightarrow> path \<Rightarrow> files \<Rightarrow> (update_error + bytes) \<times> files" where
  "extract_manifest env cab dest fs = (let target = dest @ [ulit ''release-manifest.json'']; fs1 = fs(target := expand env cab) in
     case expand env cab of None \<Rightarrow> (Inl Manifest_error, fs1)
     | Some data \<Rightarrow> (if 65536 < length data then Inl Manifest_error else Inr data, fs1))"

text \<open>The staging directory disappears however the block is left.\<close>

definition wipe :: "path \<Rightarrow> files \<Rightarrow> files" where
  "wipe dir fs p = (if take (length dir) p = dir then None else fs p)"

definition prepare_staged ::
  "update_env \<Rightarrow> update_policy \<Rightarrow> ustr \<Rightarrow> path \<Rightarrow> path \<Rightarrow> files \<Rightarrow> (update_error + prepared_update option) \<times> files" where
  "prepare_staged env p current cache staging fs =
     (let cab_path = staging @ [up_manifest_asset p] in
      case download_atomic env (manifest_url p) cab_path (4 * 1024 * 1024) None None fs of
        (Inl e, fs1) \<Rightarrow> (Inl e, fs1)
      | (Inr _, fs1) \<Rightarrow> (case verify_authenticode env (fs1 cab_path) (up_publisher p) (up_require_timestamp p) of
          Inl e \<Rightarrow> (Inl e, fs1)
        | Inr _ \<Rightarrow> (case extract_manifest env (the (fs1 cab_path)) (staging @ [ulit ''manifest'']) fs1 of
            (Inl e, fs2) \<Rightarrow> (Inl e, fs2)
          | (Inr data, fs2) \<Rightarrow> (case parse_release_manifest env p data of
              Inl e \<Rightarrow> (Inl e, fs2)
            | Inr m \<Rightarrow> (case require_newer_version env current m of
                Inl e \<Rightarrow> (Inl e, fs2)
              | Inr False \<Rightarrow> (Inr None, fs2)
              | Inr True \<Rightarrow>
                  let a = rm_asset m; staged = staging @ [ra_name a] in
                  (case download_atomic env (ra_url a) staged (up_maximum p) (Some (ra_size a)) (Some (ra_sha256 a)) fs2 of
                    (Inl e, fs3) \<Rightarrow> (Inl e, fs3)
                  | (Inr _, fs3) \<Rightarrow> (case verify_authenticode env (fs3 staged) (ra_publisher a) (up_require_timestamp p) of
                      Inl e \<Rightarrow> (Inl e, fs3)
                    | Inr signer \<Rightarrow>
                        let target = cache @ [rm_version m, ra_name a] in
                        (Inr (Some \<lparr>pu_manifest = m, pu_path = target, pu_signer = signer,
                           pu_require_timestamp = up_require_timestamp p\<rparr>),
                         fs3(staged := None, target := fs3 staged)))))))))"

definition prepare_update ::
  "update_env \<Rightarrow> update_policy \<Rightarrow> ustr \<Rightarrow> path \<Rightarrow> path \<Rightarrow> files \<Rightarrow> (update_error + prepared_update option) \<times> files" where
  "prepare_update env p current cache staging fs =
     (case prepare_staged env p current cache staging fs of (r, fs') \<Rightarrow> (r, wipe staging fs'))"

text \<open>\<^verbatim>\<open>PurePath.suffix\<close>: from the last dot, unless it is the first or the last character.\<close>

definition suffix_of :: "ustr \<Rightarrow> ustr" where
  "suffix_of s = (let r = takeWhile (\<lambda>c. c \<noteq> 46) (rev s) in
     if r \<noteq> [] \<and> length r + 1 < length s then 46 # rev r else [])"

text \<open>The bytes that the installer is started on.\<close>

definition launch_prepared_update :: "update_env \<Rightarrow> bool \<Rightarrow> prepared_update \<Rightarrow> files \<Rightarrow> update_error + bytes" where
  "launch_prepared_update env windows u fs = (let a = rm_asset (pu_manifest u) in
     if \<not> windows then Inl Security_error
     else (case fs (pu_path u) of None \<Rightarrow> Inl Security_error | Some data \<Rightarrow>
       if lower env (suffix_of (last (pu_path u))) \<noteq> ulit ''.msi'' then Inl Security_error
       else if int (length data) \<noteq> ra_size a then Inl Integrity_error
       else if sha256 env data \<noteq> ra_sha256 a then Inl Integrity_error
       else (case verify_authenticode env (Some data) (ra_publisher a) (pu_require_timestamp u) of
           Inl e \<Rightarrow> Inl e | Inr _ \<Rightarrow> Inr data)))"

section \<open>What a download leaves behind\<close>

lemma receive_length: "receive maximum cs got = Inr data \<Longrightarrow> int (length got) \<le> maximum \<Longrightarrow> int (length data) \<le> maximum"
  by (induction maximum cs got rule: receive.induct) (auto split: if_splits)

lemma fetch_exact:
  "fetch env url maximum (Some n) (Some h) = Inr data \<Longrightarrow> int (length data) = n \<and> sha256 env data = h"
  by (auto simp: fetch_def split: option.splits if_splits sum.splits)

lemma download_cases:
  assumes "download_atomic env url dest maximum n h fs = (r, fs')"
  obtains (refused) e where "r = Inl e" "fs' = fs"
    | (failed) e where "r = Inl e" "fs' = fs(part_path dest := None)"
    | (saved) data where "r = Inr ()" "fs' = fs(part_path dest := None, dest := Some data)"
        "fetch env url maximum n h = Inr data" "github env url"
  using assms by (auto simp: download_atomic_def split: if_splits sum.splits)

lemma part_path_in: "take (length dir) (part_path (dir @ [x])) = dir"
  by (simp add: part_path_def)

lemma wipe_upd [simp]: "take (length dir) q = dir \<Longrightarrow> wipe dir (fs(q := v)) = wipe dir fs"
  by (rule ext) (simp add: wipe_def)

lemma download_wipe:
  "download_atomic env url (staging @ [x]) maximum n h fs = (r, fs') \<Longrightarrow> wipe staging fs' = wipe staging fs"
  by (erule download_cases) (simp_all add: part_path_in)

lemma extract_wipe: "extract_manifest env cab (staging @ [x]) fs = (r, fs') \<Longrightarrow> wipe staging fs' = wipe staging fs"
  by (auto simp: extract_manifest_def Let_def split: option.splits)

lemma extract_ok: "extract_manifest env cab dest fs = (Inr data, fs') \<Longrightarrow> expand env cab = Some data"
  by (auto simp: extract_manifest_def Let_def split: option.splits if_splits)

section \<open>Only signed, newer, intact updates\<close>

text \<open>What the publisher's signature on a file means: Windows reports the signature as valid, the certificate's
  common name is the publisher's, and where the policy asks for it a valid RFC 3161 time stamp whose chain
  SignTool accepts.\<close>

definition signed_by :: "update_env \<Rightarrow> ustr \<Rightarrow> bool \<Rightarrow> bytes \<Rightarrow> bool" where
  "signed_by env publisher stamped data \<longleftrightarrow> (\<exists>d. inspect env data = Some d
     \<and> map_of d (ulit ''Status'') = Some (PStr (ulit ''Valid''))
     \<and> py_strip (report_text env d ''CommonName'' '''') = publisher
     \<and> (stamped \<longrightarrow> report_text env d ''TimestampStatus'' ''Missing'' = ulit ''Valid''
          \<and> report_text env d ''TimestampProtocol'' ''Missing'' = ulit ''RFC3161'' \<and> chain_valid env data))"

definition authentic :: "update_env \<Rightarrow> update_policy \<Rightarrow> ustr \<Rightarrow> prepared_update \<Rightarrow> bytes \<Rightarrow> bool" where
  "authentic env p current u data \<longleftrightarrow> (let m = pu_manifest u; asset = rm_asset m in \<exists>cab doc a b.
     signed_by env (up_publisher p) (up_require_timestamp p) cab \<and> expand env cab = Some doc
     \<and> parse_release_manifest env p doc = Inr m
     \<and> parse_version env current = Inr a \<and> parse_version env (rm_version m) = Inr b \<and> a < b
     \<and> ra_url asset = ulit ''https://github.com/'' @ up_repository p @ ulit ''/releases/download/v'' @ rm_version m
         @ ulit ''/'' @ up_installer_asset p
     \<and> signed_by env (up_publisher p) (up_require_timestamp p) data
     \<and> int (length data) = ra_size asset \<and> ra_size asset \<le> up_maximum p \<and> sha256 env data = ra_sha256 asset
     \<and> pu_require_timestamp u = up_require_timestamp p)"

lemma verified_signed: "verify_authenticode env (Some data) name stamped = Inr s \<Longrightarrow> signed_by env name stamped data"
  by (auto simp: verify_authenticode_def signed_by_def Let_def split: option.splits if_splits)

lemma newer_ok:
  "require_newer_version env current m = Inr True \<longleftrightarrow>
     (\<exists>a b. parse_version env current = Inr a \<and> parse_version env (rm_version m) = Inr b \<and> a < b)"
  by (auto simp: require_newer_version_def split: sum.splits)

lemma asset_fields:
  assumes "parse_release_asset env p tag a = Inr x"
  shows "ra_publisher x = up_publisher p" "ra_name x = up_installer_asset p" "ra_url x = asset_url p tag (up_installer_asset p)"
    "ra_size x \<le> up_maximum p"
  using assms by (auto simp: parse_release_asset_def Let_def split: if_splits option.splits)

lemma manifest_asset_fields:
  assumes "parse_release_manifest env p data = Inr m"
  shows "ra_publisher (rm_asset m) = up_publisher p" "ra_name (rm_asset m) = up_installer_asset p"
    "ra_url (rm_asset m) = asset_url p (rm_tag m) (up_installer_asset p)" "rm_tag m = ulit ''v'' @ rm_version m"
    "ra_size (rm_asset m) \<le> up_maximum p" "\<exists>v. parse_version env (rm_version m) = Inr v"
proof -
  obtain d a where d: "member d ''asset'' = PDict a" "parse_release_asset env p (rm_tag m) a = Inr (rm_asset m)"
    "rm_tag m = ulit ''v'' @ rm_version m" "\<exists>v. parse_version env (rm_version m) = Inr v"
    using assms by (auto simp: parse_release_manifest_def Let_def split: sum.splits if_splits pyval.splits)
  show "ra_publisher (rm_asset m) = up_publisher p" "ra_name (rm_asset m) = up_installer_asset p"
    "ra_url (rm_asset m) = asset_url p (rm_tag m) (up_installer_asset p)" "ra_size (rm_asset m) \<le> up_maximum p"
    by (rule asset_fields [OF d(2)])+
  show "rm_tag m = ulit ''v'' @ rm_version m" "\<exists>v. parse_version env (rm_version m) = Inr v" by (rule d(3,4))+
qed

lemma version_starts: "parse_version env s = Inr v \<Longrightarrow> s \<noteq> [] \<and> 48 \<le> hd s \<and> hd s \<le> 57"
proof -
  assume v: "parse_version env s = Inr v"
  obtain a b c where m: "map_err (version_part env) (split_on 46 s) = Inr [a, b, c]"
    using v by (auto simp: parse_version_def split: sum.splits list.splits if_splits)
  obtain x y where s: "s = x # y"
  proof (cases s)
    case Nil
    then show ?thesis using m by (simp add: version_part_def)
  qed simp
  have "version_part env (hd (split_on 46 s)) = Inr a"
    using m by (cases "split_on 46 s") (auto split: sum.splits)
  then show ?thesis
    unfolding s by (cases "x = 46") (auto simp: version_part_def split: if_splits)
qed

lemma prepare_staged_ok:
  assumes "prepare_staged env p current cache staging fs = (r, fs')"
  shows "case r of
      Inr (Some u) \<Rightarrow> (\<exists>data. authentic env p current u data \<and> pu_path u = cache @ [rm_version (pu_manifest u), up_installer_asset p]
        \<and> (\<exists>fs1. fs' = fs1(pu_path u := Some data) \<and> wipe staging fs1 = wipe staging fs))
    | _ \<Rightarrow> wipe staging fs' = wipe staging fs"
proof -
  let ?cab = "staging @ [up_manifest_asset p]"
  obtain r1 fs1 where d1: "download_atomic env (manifest_url p) ?cab (4 * 1024 * 1024) None None fs = (r1, fs1)" by fastforce
  note w1 = download_wipe [OF d1]
  note run = assms [unfolded prepare_staged_def Let_def d1 prod.case]
  show ?thesis
  proof (cases r1)
    case (Inl e)
    then show ?thesis using run w1 by auto
  next
    case ok1: (Inr _)
    obtain cab where cab: "fs1 ?cab = Some cab" using d1 ok1 by (cases rule: download_cases) auto
    show ?thesis
    proof (cases "verify_authenticode env (Some cab) (up_publisher p) (up_require_timestamp p)")
      case (Inl e)
      then show ?thesis using run w1 by (auto simp: ok1 cab)
    next
      case v1: (Inr signer)
      obtain r2 fs2 where x: "extract_manifest env cab (staging @ [ulit ''manifest'']) fs1 = (r2, fs2)" by fastforce
      have w2: "wipe staging fs2 = wipe staging fs" using extract_wipe [OF x] w1 by simp
      note run2 = run [unfolded ok1 sum.case cab v1 option.sel x prod.case]
      show ?thesis
      proof (cases "\<exists>doc m. r2 = Inr doc \<and> parse_release_manifest env p doc = Inr m \<and> require_newer_version env current m = Inr True")
        case False
        then show ?thesis using run2 w2 by (auto split: sum.splits bool.splits)
      next
        case True
        then obtain doc m where m: "r2 = Inr doc" "parse_release_manifest env p doc = Inr m" "require_newer_version env current m = Inr True"
          by blast
        let ?a = "rm_asset m"
        let ?staged = "staging @ [ra_name ?a]"
        note f = manifest_asset_fields [OF m(2)]
        obtain r3 fs3 where d3: "download_atomic env (ra_url ?a) ?staged (up_maximum p) (Some (ra_size ?a)) (Some (ra_sha256 ?a)) fs2 = (r3, fs3)"
          by fastforce
        have w3: "wipe staging fs3 = wipe staging fs" using download_wipe [OF d3] w2 by simp
        note run3 = run2 [unfolded m(1) sum.case m(2,3) bool.case Let_def d3 prod.case]
        show ?thesis
        proof (cases "\<exists>signer'. r3 = Inr () \<and> verify_authenticode env (fs3 ?staged) (ra_publisher ?a) (up_require_timestamp p) = Inr signer'")
          case False
          then show ?thesis using run3 w3 by (auto split: sum.splits)
        next
          case True
          then obtain signer' where s': "r3 = Inr ()" "verify_authenticode env (fs3 ?staged) (ra_publisher ?a) (up_require_timestamp p) = Inr signer'"
            by blast
          obtain data where data: "fs3 ?staged = Some data" "int (length data) = ra_size ?a" "sha256 env data = ra_sha256 ?a"
            using d3 s'(1) by (cases rule: download_cases) (auto dest!: fetch_exact)
          define u where "u = \<lparr>pu_manifest = m, pu_path = cache @ [rm_version m, ra_name ?a], pu_signer = signer',
            pu_require_timestamp = up_require_timestamp p\<rparr>"
          have res: "r = Inr (Some u)" "fs' = fs3(?staged := None, pu_path u := Some data)"
            using run3 s'(2) by (simp_all add: s'(1) data(1) u_def)
          obtain a b where ab: "parse_version env current = Inr a" "parse_version env (rm_version m) = Inr b" "a < b"
            using m(3) unfolding newer_ok by blast
          have "authentic env p current u data"
            unfolding authentic_def Let_def
            by (intro exI [of _ cab] exI [of _ doc] exI [of _ a] exI [of _ b])
              (use verified_signed [OF v1] extract_ok [OF x [unfolded m(1)]] m(2) ab
                verified_signed [of env data] s'(2) data f in \<open>simp add: u_def asset_url_def ulit_def\<close>)
          moreover have "wipe staging (fs3(?staged := None)) = wipe staging fs" using w3 by simp
          moreover have "pu_path u = cache @ [rm_version (pu_manifest u), up_installer_asset p]" using f(2) by (simp add: u_def)
          ultimately show ?thesis unfolding res sum.case option.case by blast
        qed
      qed
    qed
  qed
qed

lemma prepare_update_files:
  assumes "prepare_update env p current cache staging fs = (r, fs')" "staging = cache @ [46 # t]"
  shows "case r of
      Inr (Some u) \<Rightarrow> (\<exists>data. authentic env p current u data \<and> fs' = (wipe staging fs)(pu_path u := Some data))
    | _ \<Rightarrow> fs' = wipe staging fs"
proof -
  obtain fs1 where st: "prepare_staged env p current cache staging fs = (r, fs1)" and w: "fs' = wipe staging fs1"
    using assms(1) by (auto simp: prepare_update_def split: prod.splits)
  note ok = prepare_staged_ok [OF st]
  show ?thesis
  proof (cases "\<exists>u. r = Inr (Some u)")
    case False
    then show ?thesis using ok w by (auto split: sum.splits option.splits)
  next
    case True
    then obtain u where r: "r = Inr (Some u)" by blast
    obtain data fs2 where d: "authentic env p current u data" "pu_path u = cache @ [rm_version (pu_manifest u), up_installer_asset p]"
      "fs1 = fs2(pu_path u := Some data)" "wipe staging fs2 = wipe staging fs"
      using ok r by auto
    have "rm_version (pu_manifest u) \<noteq> 46 # t"
      using d(1) version_starts [of env "rm_version (pu_manifest u)"] by (auto simp: authentic_def Let_def)
    then have "wipe staging fs1 = (wipe staging fs2)(pu_path u := Some data)"
      by (intro ext) (auto simp: d(2,3) assms(2) wipe_def)
    then show ?thesis using r w d(1,4) by auto
  qed
qed

section \<open>Properties\<close>

text \<open>
  C39. Only authentic updates are installed. Preparing an update either changes no file outside its
  staging directory, or adds exactly one installer: it came with a manifest from a container signed by the
  publisher of the policy, it is strictly newer than the running version, has the announced size and
  SHA-256, and is signed by the same publisher. Whatever happens to the files afterwards, the installer is
  only ever started on bytes with that size and digest and a valid signature.
\<close>

theorem installed_update_authentic:
  assumes "prepare_update env p current cache staging fs = (r, fs')" "staging = cache @ [46 # t]"
    and "\<forall>q. take (length staging) q = staging \<longrightarrow> fs q = None"
  shows "case r of
      Inr (Some u) \<Rightarrow> (\<exists>data. authentic env p current u data \<and> fs' = fs(pu_path u := Some data)
        \<and> (\<forall>windows fs2 run. launch_prepared_update env windows u fs2 = Inr run \<longrightarrow>
             fs2 (pu_path u) = Some run \<and> sha256 env run = sha256 env data \<and> length run = length data
             \<and> signed_by env (up_publisher p) (up_require_timestamp p) run))
    | _ \<Rightarrow> fs' = fs"
proof -
  have fresh: "wipe staging fs = fs" using assms(3) by (auto simp: wipe_def fun_eq_iff)
  show ?thesis
  proof (cases "\<exists>u. r = Inr (Some u)")
    case False
    then show ?thesis using prepare_update_files [OF assms(1,2)] fresh by (auto split: sum.splits option.splits)
  next
    case True
    then obtain u where r: "r = Inr (Some u)" by blast
    then obtain data where d: "authentic env p current u data" "fs' = fs(pu_path u := Some data)"
      using prepare_update_files [OF assms(1,2)] fresh by auto
    have pub: "ra_publisher (rm_asset (pu_manifest u)) = up_publisher p" and rt: "pu_require_timestamp u = up_require_timestamp p"
      and data: "int (length data) = ra_size (rm_asset (pu_manifest u))" "sha256 env data = ra_sha256 (rm_asset (pu_manifest u))"
      using d(1) manifest_asset_fields(1) unfolding authentic_def Let_def by blast+
    have "fs2 (pu_path u) = Some run \<and> sha256 env run = sha256 env data \<and> length run = length data
        \<and> signed_by env (up_publisher p) (up_require_timestamp p) run"
      if "launch_prepared_update env windows u fs2 = Inr run" for windows fs2 run
      using that data by (auto simp: launch_prepared_update_def Let_def pub rt dest: verified_signed split: if_splits option.splits sum.splits)
    then have "\<exists>data. authentic env p current u data \<and> fs' = fs(pu_path u := Some data)
        \<and> (\<forall>windows fs2 run. launch_prepared_update env windows u fs2 = Inr run \<longrightarrow>
             fs2 (pu_path u) = Some run \<and> sha256 env run = sha256 env data \<and> length run = length data
             \<and> signed_by env (up_publisher p) (up_require_timestamp p) run)"
      by (intro exI [of _ data] conjI d allI impI) blast+
    then show ?thesis by (simp add: r)
  qed
qed

definition demo_policy :: update_policy where
  "demo_policy = \<lparr>up_repository = ulit ''a/b'', up_channel = ulit ''stable'', up_manifest_asset = ulit ''m.cab'',
     up_installer_asset = ulit ''c.msi'', up_publisher = ulit ''P'', up_require_timestamp = False, up_maximum = 9\<rparr>"

definition demo_manifest :: pyval where
  "demo_manifest = PDict [(ulit ''schema_version'', PInt 1), (ulit ''version'', PStr (ulit ''1.2.4'')), (ulit ''release_tag'', PStr (ulit ''v1.2.4'')),
     (ulit ''channel'', PStr (ulit ''stable'')),
     (ulit ''asset'', PDict [(ulit ''name'', PStr (ulit ''c.msi'')),
        (ulit ''url'', PStr (ulit ''https://github.com/a/b/releases/download/v1.2.4/c.msi'')), (ulit ''sha256'', PStr (ulit ''aaaaaaaaaaaaaaaaaaaaaaaaaaaaaaaaaaaaaaaaaaaaaaaaaaaaaaaaaaaaaaaa'')),
        (ulit ''size'', PInt 2), (ulit ''publisher_common_name'', PStr (ulit ''P''))])]"

definition demo_document :: bytes where
  "demo_document = json_dumps (\<lambda>_. []) demo_manifest"

definition demo_env :: update_env where
  "demo_env = \<lparr>net = (\<lambda>url. Some \<lparr>rs_url = url, rs_length = [], rs_chunks = [Some [7], Some [8]]\<rparr>),
     origin = (\<lambda>_. (ulit ''https'', Some (ulit ''github.com''))), int_text = (\<lambda>_. None), sha256 = (\<lambda>_. ulit ''aaaaaaaaaaaaaaaaaaaaaaaaaaaaaaaaaaaaaaaaaaaaaaaaaaaaaaaaaaaaaaaa''),
     inspect = (\<lambda>_. Some [(ulit ''Status'', PStr (ulit ''Valid'')), (ulit ''CommonName'', PStr (ulit ''P'')), (ulit ''Thumbprint'', PStr (ulit ''AAAAAAAAAAAAAAAAAAAAAAAAAAAAAAAAAAAAAAAA''))]),
     chain_valid = (\<lambda>_. True), expand = (\<lambda>_. Some demo_document), py_text = (\<lambda>v. case v of PStr s \<Rightarrow> s | _ \<Rightarrow> []),
     upper = id, lower = id, decimal = (\<lambda>c. if 48 \<le> c \<and> c \<le> 57 then Some (c - 48) else None)\<rparr>"

lemma demo_signed: "\<exists>s. verify_authenticode demo_env (Some data) (ulit ''P'') False = Inr s"
  by (simp add: verify_authenticode_def demo_env_def Let_def report_text_def ulit_def py_strip_def py_space_def thumbprint_def thumbprint_ok_def
      hex_upper_def list_all_iff)

lemma demo_versions: "parse_version demo_env (ulit ''1.2.4'') = Inr (1, 2, 4)" "parse_version demo_env (ulit ''1.2.3'') = Inr (1, 2, 3)"
  by (simp_all add: parse_version_def version_part_def demo_env_def ulit_def)

lemma demo_document_read: "read_json 65536 demo_document = Inr (case demo_manifest of PDict d \<Rightarrow> d | _ \<Rightarrow> [])"
proof -
  have "list_all (\<lambda>b. b < 128) demo_document \<and> length demo_document \<le> 65536 \<and> demo_document \<noteq> []"
    by (simp add: demo_document_def demo_manifest_def json_string_def escape_char_def ulit_def json_int_def dec_digits.simps)
  then have "utf8_decode demo_document = Some demo_document" "int (length demo_document) \<le> 65536" "demo_document \<noteq> []"
    by (simp_all add: utf8_decode_ascii)
  moreover have "plain demo_manifest"
    by (simp add: demo_manifest_def surrogate_def ulit_def list_all_iff)
  from json_roundtrip [OF this, of "\<lambda>_. []"] have "json_loads demo_document = Some demo_manifest" by (simp add: demo_document_def)
  ultimately show ?thesis by (simp add: read_json_def demo_manifest_def)
qed

definition demo_release :: release_manifest where
  "demo_release = \<lparr>rm_version = ulit ''1.2.4'', rm_tag = ulit ''v1.2.4'', rm_channel = ulit ''stable'',
     rm_asset = \<lparr>ra_name = ulit ''c.msi'', ra_url = ulit ''https://github.com/a/b/releases/download/v1.2.4/c.msi'', ra_sha256 = ulit ''aaaaaaaaaaaaaaaaaaaaaaaaaaaaaaaaaaaaaaaaaaaaaaaaaaaaaaaaaaaaaaaa'',
       ra_size = 2, ra_publisher = ulit ''P''\<rparr>\<rparr>"

lemma demo_parse: "parse_release_manifest demo_env demo_policy demo_document = Inr demo_release"
proof -
  have str: "py_text demo_env (PStr s) = s" and gh: "github demo_env url" for s url
    by (simp_all add: demo_env_def github_def)
  show ?thesis
    unfolding parse_release_manifest_def demo_document_read
    using demo_versions(1)
    by (simp add: demo_manifest_def Let_def exact_keys_def same_set_def dict_keys_def member_def ulit_def str gh equals_one_def
        parse_release_asset_def demo_policy_def asset_url_def hex_lower_def int_value_def demo_release_def list_all_iff)
qed

lemma demo_fields:
  "up_publisher demo_policy = ulit ''P''" "up_require_timestamp demo_policy = False" "up_maximum demo_policy = 9"
  "rm_version demo_release = ulit ''1.2.4''" "ra_name (rm_asset demo_release) = ulit ''c.msi''" "ra_publisher (rm_asset demo_release) = ulit ''P''"
  "ra_size (rm_asset demo_release) = 2" "ra_sha256 (rm_asset demo_release) = ulit ''aaaaaaaaaaaaaaaaaaaaaaaaaaaaaaaaaaaaaaaaaaaaaaaaaaaaaaaaaaaaaaaa''"
  by (simp_all add: demo_policy_def demo_release_def)

lemma demo_fetch: "n \<in> {None, Some 2} \<Longrightarrow> h \<in> {None, Some (ulit ''aaaaaaaaaaaaaaaaaaaaaaaaaaaaaaaaaaaaaaaaaaaaaaaaaaaaaaaaaaaaaaaa'')} \<Longrightarrow> 2 \<le> maximum \<Longrightarrow> fetch demo_env url maximum n h = Inr [7, 8]"
  by (auto simp: fetch_def demo_env_def)

lemma demo_prepared:
  "\<exists>u. prepare_update demo_env demo_policy (ulit ''1.2.3'') [] [[46]] (\<lambda>_. None) = (Inr (Some u), (\<lambda>_. None)(pu_path u := Some [7, 8]))
     \<and> pu_path u = [ulit ''1.2.4'', ulit ''c.msi'']"
proof -
  have gh: "github demo_env url" for url by (simp add: demo_env_def github_def)
  obtain s where s: "verify_authenticode demo_env (Some [7, 8]) (ulit ''P'') False = Inr s" using demo_signed by blast
  have ex: "extract_manifest demo_env cab dest fs = (Inr demo_document, fs(dest @ [ulit ''release-manifest.json''] := Some demo_document))" for cab dest fs
  proof -
    have "length demo_document \<le> 65536"
      using demo_document_read by (simp add: read_json_def split: if_splits)
    then show ?thesis by (simp add: extract_manifest_def demo_env_def)
  qed
  have newer: "require_newer_version demo_env (ulit ''1.2.3'') demo_release = Inr True"
    by (simp add: require_newer_version_def demo_versions demo_release_def)
  have dl: "download_atomic demo_env url dest maximum n h fs = (Inr (), fs(part_path dest := None, dest := Some [7, 8]))"
    if "n \<in> {None, Some 2}" "h \<in> {None, Some (ulit ''aaaaaaaaaaaaaaaaaaaaaaaaaaaaaaaaaaaaaaaaaaaaaaaaaaaaaaaaaaaaaaaa'')}" "2 \<le> maximum" for url dest maximum n h fs
    by (simp add: download_atomic_def gh demo_fetch [OF that])
  show ?thesis
    by (simp add: prepare_update_def prepare_staged_def Let_def dl ex demo_parse newer s demo_fields)
      (auto simp: wipe_def fun_eq_iff ulit_def)
qed

theorem installed_update_authentic_witness:
  "\<exists>u fs' data. prepare_update demo_env demo_policy (ulit ''1.2.3'') [] [[46]] (\<lambda>_. None) = (Inr (Some u), fs')
     \<and> authentic demo_env demo_policy (ulit ''1.2.3'') u data \<and> fs' = (\<lambda>_. None)(pu_path u := Some data)"
proof -
  obtain u where u: "prepare_update demo_env demo_policy (ulit ''1.2.3'') [] [[46]] (\<lambda>_. None)
      = (Inr (Some u), (\<lambda>_. None)(pu_path u := Some [7, 8]))"
    using demo_prepared by blast
  from installed_update_authentic [OF u, of "[]"] obtain data where
    "authentic demo_env demo_policy (ulit ''1.2.3'') u data" "(\<lambda>_. None)(pu_path u := Some [7, 8]) = (\<lambda>_. None)(pu_path u := Some data)"
    by auto
  then show ?thesis using u by auto
qed

end
