(* ===== verification/Recording_Activation.thy ===== *)
theory Recording_Activation
  imports Prelude
begin

text \<open>
  \<^verbatim>\<open>RecordingActivationController\<close> of \<^verbatim>\<open>hotkey_config.py\<close>: key edges and cancellation around a recording that
  starts asynchronously. Each critical section is one step; the callbacks run between the steps, in the
  threads that called them, so any number of threads can be on their way at once. A callback that
  raises or returns \<^verbatim>\<open>False\<close> did not succeed. The three callbacks are different objects, so that the
  comparison with \<^verbatim>\<open>self._on_stop\<close> tells them apart.
\<close>

section \<open>The controller\<close>

datatype activation = Toggle | Push_to_talk
datatype race_state = Race_idle | Race_starting | Race_active | Race_stopping | Race_closed
datatype callback = Call_start | Call_stop | Call_cancel

record controller =
  act_mode :: activation
  act_state :: race_state
  act_generation :: nat
  act_pending :: bool
  act_closed :: bool
  act_notified :: bool

definition new_controller :: "activation \<Rightarrow> controller" where
  "new_controller m = \<lparr>act_mode = m, act_state = Race_idle, act_generation = 0, act_pending = False, act_closed = False, act_notified = False\<rparr>"

text \<open>Whether the edge is consumed, the callback to call with the generation, and the new state.\<close>

definition press :: "controller \<Rightarrow> bool \<times> (callback \<times> nat) option \<times> controller" where
  "press c =
     (if act_closed c then (False, None, c)
      else if act_mode c = Toggle \<and> act_state c = Race_active
        then (True, Some (Call_stop, act_generation c), c\<lparr>act_state := Race_stopping\<rparr>)
      else if act_state c = Race_idle
        then (True, Some (Call_start, act_generation c + 1),
          c\<lparr>act_state := Race_starting, act_pending := False, act_generation := act_generation c + 1\<rparr>)
      else if act_state c = Race_starting then (True, None, c\<lparr>act_pending := True\<rparr>)
      else (True, None, c))"

definition release :: "controller \<Rightarrow> bool \<times> (callback \<times> nat) option \<times> controller" where
  "release c =
     (if act_closed c \<or> act_mode c \<noteq> Push_to_talk then (False, None, c)
      else if act_state c = Race_starting then (True, None, c\<lparr>act_pending := True\<rparr>)
      else if act_state c \<noteq> Race_active then (False, None, c)
      else (True, Some (Call_stop, act_generation c), c\<lparr>act_state := Race_stopping\<rparr>))"

definition cancel :: "controller \<Rightarrow> callback option \<times> controller" where
  "cancel c =
     (if act_closed c then (None, c)
      else (if act_notified c then None else Some Call_cancel,
        c\<lparr>act_closed := True, act_state := Race_closed, act_generation := act_generation c + 1, act_pending := False,
          act_notified := True\<rparr>))"

text \<open>\<^verbatim>\<open>_invoke_edge\<close>: the section after the callback, and the section after the follow-up.\<close>

definition callback_returned :: "callback \<Rightarrow> nat \<Rightarrow> bool \<Rightarrow> controller \<Rightarrow> callback option \<times> controller" where
  "callback_returned cb g succeeded c =
     (let stale = act_closed c \<or> g \<noteq> act_generation c in
      if cb = Call_start then
        (if stale \<or> \<not> succeeded then
           let c' = c\<lparr>act_state := (if act_closed c then Race_closed else Race_idle)\<rparr> in
           (if succeeded \<and> stale \<and> \<not> act_notified c then (Some Call_cancel, c'\<lparr>act_notified := True\<rparr>) else (None, c'))
         else if act_pending c then (Some Call_stop, c\<lparr>act_pending := False, act_state := Race_stopping\<rparr>)
         else (None, c\<lparr>act_state := Race_active\<rparr>))
      else (None, if stale then c else c\<lparr>act_state := (if succeeded then Race_idle else Race_active)\<rparr>))"

definition edge_finished :: "callback \<Rightarrow> bool \<Rightarrow> callback option \<Rightarrow> controller \<Rightarrow> controller" where
  "edge_finished cb succeeded follow_up c =
     (if cb = Call_start \<and> follow_up = Some Call_stop \<and> \<not> act_closed c then c\<lparr>act_state := Race_idle\<rparr>
      else if cb \<noteq> Call_start \<and> \<not> act_closed c \<and> act_state c = Race_stopping
        then c\<lparr>act_state := (if succeeded then Race_idle else Race_active)\<rparr>
      else c)"

section \<open>Threads\<close>

datatype thread = Calling callback nat | Following callback bool "callback option" | Notifying

inductive activation_step :: "controller \<times> thread list \<Rightarrow> callback list \<Rightarrow> controller \<times> thread list \<Rightarrow> bool" where
  pressed: "press c = (b, Some (cb, g), c') \<Longrightarrow> activation_step (c, ts) [cb] (c', Calling cb g # ts)"
| pressed_only: "press c = (b, None, c') \<Longrightarrow> activation_step (c, ts) [] (c', ts)"
| released: "release c = (b, Some (cb, g), c') \<Longrightarrow> activation_step (c, ts) [cb] (c', Calling cb g # ts)"
| released_only: "release c = (b, None, c') \<Longrightarrow> activation_step (c, ts) [] (c', ts)"
| cancelled: "cancel c = (Some cb, c') \<Longrightarrow> activation_step (c, ts) [cb] (c', Notifying # ts)"
| cancelled_again: "cancel c = (None, c') \<Longrightarrow> activation_step (c, ts) [] (c', ts)"
| returned: "callback_returned cb g ok c = (follow_up, c') \<Longrightarrow>
    activation_step (c, ts @ Calling cb g # us) (case follow_up of Some f \<Rightarrow> [f] | None \<Rightarrow> []) (c', ts @ Following cb ok follow_up # us)"
| finished: "activation_step (c, ts @ Following cb ok follow_up # us) [] (edge_finished cb ok follow_up c, ts @ us)"
| notified: "activation_step (c, ts @ Notifying # us) [] (c, ts @ us)"

definition activation_start :: "controller \<times> thread list \<Rightarrow> bool" where
  "activation_start s \<longleftrightarrow> (\<exists>m. s = (new_controller m, []))"

fun is_start :: "thread \<Rightarrow> bool" where
  "is_start (Calling cb g) = (cb = Call_start)"
| "is_start _ = False"

fun is_stop :: "thread \<Rightarrow> bool" where
  "is_stop (Calling cb g) = (cb = Call_stop)"
| "is_stop (Following cb ok f) = (cb = Call_start \<and> f = Some Call_stop)"
| "is_stop Notifying = False"

definition starts_running :: "thread list \<Rightarrow> nat" where
  "starts_running ts = length (filter is_start ts)"

definition stops_running :: "thread list \<Rightarrow> nat" where
  "stops_running ts = length (filter is_stop ts)"

lemma running_simps [simp]:
  "starts_running [] = 0" "stops_running [] = 0"
  "starts_running (t # ts) = (if is_start t then 1 else 0) + starts_running ts"
  "stops_running (t # ts) = (if is_stop t then 1 else 0) + stops_running ts"
  "starts_running (ts @ us) = starts_running ts + starts_running us"
  "stops_running (ts @ us) = stops_running ts + stops_running us"
  by (simp_all add: starts_running_def stops_running_def)

text \<open>
  No key edge falls between the two critical sections of a stop that has returned: the section that follows
  is not delayed.
\<close>

fun is_settling :: "thread \<Rightarrow> bool" where
  "is_settling (Following cb ok f) = (cb = Call_stop)"
| "is_settling _ = False"

definition stop_settling :: "thread list \<Rightarrow> bool" where
  "stop_settling ts \<longleftrightarrow> list_ex is_settling ts"

definition prompt_step :: "controller \<times> thread list \<Rightarrow> callback list \<Rightarrow> controller \<times> thread list \<Rightarrow> bool" where
  "prompt_step s e s' \<longleftrightarrow> activation_step s e s' \<and> (stop_settling (snd s) \<longrightarrow> (\<exists>ts us ok f. snd s = ts @ Following Call_stop ok f # us
     \<and> snd s' = ts @ us \<and> fst s' = edge_finished Call_stop ok f (fst s)))"

section \<open>At most one start\<close>

fun thread_ok :: "nat \<Rightarrow> thread \<Rightarrow> bool" where
  "thread_ok n (Calling cb g) = ((cb = Call_start \<or> cb = Call_stop) \<and> g = n)"
| "thread_ok n (Following cb ok f) = (cb = Call_start \<or> cb = Call_stop)"
| "thread_ok n Notifying = True"

definition controller_inv :: "controller \<times> thread list \<Rightarrow> bool" where
  "controller_inv s \<longleftrightarrow> (case s of (c, ts) \<Rightarrow>
     if act_closed c then act_state c = Race_closed \<and> act_notified c \<and> starts_running ts \<le> 1
     else \<not> act_notified c \<and> act_state c \<noteq> Race_closed
       \<and> starts_running ts = (if act_state c = Race_starting then 1 else 0)
       \<and> stops_running ts = (if act_state c = Race_stopping then 1 else 0)
       \<and> list_all (thread_ok (act_generation c)) ts
       \<and> (stop_settling ts \<longrightarrow> act_state c \<noteq> Race_stopping))"

text \<open>With nothing running, the generation may change.\<close>

lemma thread_ok_idle:
  "starts_running ts = 0 \<Longrightarrow> stops_running ts = 0 \<Longrightarrow> list_all (thread_ok n) ts \<Longrightarrow> list_all (thread_ok m) ts"
proof (induction ts)
  case (Cons t ts)
  then show ?case by (cases t) (auto split: if_splits)
qed simp

lemma press_inv:
  assumes "controller_inv (c, ts)" "\<not> stop_settling ts" "press c = (b, call, c')"
  shows "controller_inv (c', case call of Some (cb, g) \<Rightarrow> Calling cb g # ts | None \<Rightarrow> ts)"
  using assms by (cases "act_state c") (auto simp: controller_inv_def press_def stop_settling_def dest: thread_ok_idle split: if_splits)

lemma release_inv:
  assumes "controller_inv (c, ts)" "\<not> stop_settling ts" "release c = (b, call, c')"
  shows "controller_inv (c', case call of Some (cb, g) \<Rightarrow> Calling cb g # ts | None \<Rightarrow> ts)"
  using assms by (cases "act_state c") (auto simp: controller_inv_def release_def stop_settling_def split: if_splits)

lemma cancel_inv:
  assumes "controller_inv (c, ts)" "cancel c = (call, c')"
  shows "controller_inv (c', case call of Some cb \<Rightarrow> Notifying # ts | None \<Rightarrow> ts)"
  using assms by (auto simp: controller_inv_def cancel_def split: if_splits)

lemma returned_inv:
  assumes "controller_inv (c, ts @ Calling cb g # us)" "\<not> stop_settling (ts @ Calling cb g # us)" "callback_returned cb g ok c = (f, c')"
  shows "controller_inv (c', ts @ Following cb ok f # us)"
proof (cases "act_closed c")
  case True
  then show ?thesis using assms by (auto simp: controller_inv_def callback_returned_def Let_def split: if_splits)
next
  case False
  have cb: "cb = Call_start \<or> cb = Call_stop" "g = act_generation c"
    using assms(1) False by (auto simp: controller_inv_def)
  show ?thesis
    using assms False cb
    by (auto simp: controller_inv_def callback_returned_def Let_def stop_settling_def split: if_splits)
qed

lemma edge_finished_inv:
  assumes "controller_inv (c, ts @ Following cb ok f # us)"
  shows "controller_inv (edge_finished cb ok f c, ts @ us)"
proof (cases "act_closed c")
  case True
  then show ?thesis using assms by (auto simp: controller_inv_def edge_finished_def)
next
  case False
  have st: "cb = Call_start \<or> cb = Call_stop \<and> act_state c \<noteq> Race_stopping"
    using assms False by (auto simp: controller_inv_def stop_settling_def)
  show ?thesis
    using assms False st by (auto simp: controller_inv_def edge_finished_def stop_settling_def split: if_splits)
qed

lemma prompt_step_inv:
  assumes "controller_inv s" "prompt_step s e s'"
  shows "controller_inv s'"
proof (cases "stop_settling (snd s)")
  case True
  then obtain ts us ok f where "s = (fst s, ts @ Following Call_stop ok f # us)" "s' = (edge_finished Call_stop ok f (fst s), ts @ us)"
    using assms(2) by (cases s; cases s') (auto simp: prompt_step_def)
  then show ?thesis using edge_finished_inv assms(1) by metis
next
  case False
  have "activation_step s e s'" using assms(2) by (simp add: prompt_step_def)
  then show ?thesis
  proof cases
    case (pressed c b cb g c' ts)
    then show ?thesis using press_inv [of c ts b "Some (cb, g)" c'] assms(1) False by simp
  next
    case (pressed_only c b c' ts)
    then show ?thesis using press_inv [of c ts b None c'] assms(1) False by simp
  next
    case (released c b cb g c' ts)
    then show ?thesis using release_inv [of c ts b "Some (cb, g)" c'] assms(1) False by simp
  next
    case (released_only c b c' ts)
    then show ?thesis using release_inv [of c ts b None c'] assms(1) False by simp
  next
    case (cancelled c cb c' ts)
    then show ?thesis using cancel_inv [of c ts "Some cb" c'] assms(1) by simp
  next
    case (cancelled_again c c' ts)
    then show ?thesis using cancel_inv [of c ts None c'] assms(1) by simp
  next
    case (returned cb g ok c f c' ts us)
    then show ?thesis using returned_inv [of c ts cb g us ok f c'] assms(1) False by simp
  next
    case (finished c ts cb ok f us)
    then show ?thesis using edge_finished_inv assms(1) by simp
  next
    case (notified c ts us)
    then show ?thesis using assms(1) by (auto simp: controller_inv_def stop_settling_def)
  qed
qed

interpretation activation: stateful_component activation_start prompt_step controller_inv
proof unfold_locales
  fix s assume "activation_start s"
  then show "controller_inv s" by (auto simp: activation_start_def controller_inv_def new_controller_def stop_settling_def)
qed (rule prompt_step_inv)

section \<open>Cancellation and the race\<close>

text \<open>Once cancelled the controller stays closed, consumes no edge and starts nothing, in every interleaving.\<close>

lemma closed_stays:
  assumes "activation_step s e s'" "act_closed (fst s)"
  shows "act_closed (fst s') \<and> Call_start \<notin> set e \<and> Call_stop \<notin> set e"
  using assms
  by (cases rule: activation_step.cases)
    (auto simp: press_def release_def cancel_def callback_returned_def edge_finished_def Let_def split: if_splits option.splits)

text \<open>The cancel callback is called at most once.\<close>

lemma notified_once:
  assumes "activation_step s e s'"
  shows "act_notified (fst s) \<Longrightarrow> act_notified (fst s') \<and> Call_cancel \<notin> set e"
    "Call_cancel \<in> set e \<Longrightarrow> act_notified (fst s')"
  using assms
  by (cases rule: activation_step.cases;
      auto simp: press_def release_def cancel_def callback_returned_def edge_finished_def Let_def split: if_splits option.splits)+

text \<open>
  A recording whose start returns after the cancellation gets no further callback: the only one was called
  while the start was still running.
\<close>

lemma cancelled_start_not_followed:
  "press (new_controller m) = (True, Some (Call_start, 1), c) \<Longrightarrow> cancel c = (Some Call_cancel, c') \<Longrightarrow>
     callback_returned Call_start 1 True c' = (None, c') \<and> edge_finished Call_start True None c' = c'"
  by (auto simp: press_def new_controller_def cancel_def callback_returned_def edge_finished_def)

text \<open>
  Without promptness a late section overwrites the state of a later edge: here the section that ends the
  first stop makes the controller idle while the second recording is being stopped, and then two starts
  run at the same time.
\<close>

lemma returned_first:
  "callback_returned cb g ok c = (f, c') \<Longrightarrow>
     activation_step (c, Calling cb g # us) (case f of Some f \<Rightarrow> [f] | None \<Rightarrow> []) (c', Following cb ok f # us)"
  using activation_step.returned [of cb g ok c f c' "[]" us] by simp

lemma finished_first: "activation_step (c, Following cb ok f # us) [] (edge_finished cb ok f c, us)"
  using activation_step.finished [of c "[]" cb ok f us] by simp

lemma finished_second: "activation_step (c, t # Following cb ok f # us) [] (edge_finished cb ok f c, t # us)"
  using activation_step.finished [of c "[t]" cb ok f us] by simp

definition toggle_at :: "race_state \<Rightarrow> nat \<Rightarrow> bool \<Rightarrow> controller" where
  "toggle_at st g p = \<lparr>act_mode = Toggle, act_state = st, act_generation = g, act_pending = p, act_closed = False, act_notified = False\<rparr>"

lemma at_steps:
  "press (toggle_at Race_idle g p) = (True, Some (Call_start, Suc g), toggle_at Race_starting (Suc g) False)"
  "press (toggle_at Race_active g p) = (True, Some (Call_stop, g), toggle_at Race_stopping g p)"
  "press (toggle_at Race_starting g p) = (True, None, toggle_at Race_starting g True)"
  "callback_returned Call_start g True (toggle_at Race_starting g False) = (None, toggle_at Race_active g False)"
  "callback_returned Call_start g True (toggle_at Race_starting g True) = (Some Call_stop, toggle_at Race_stopping g False)"
  "callback_returned Call_stop g True (toggle_at Race_stopping g p) = (None, toggle_at Race_idle g p)"
  "edge_finished Call_start True None (toggle_at st g p) = toggle_at st g p"
  "edge_finished Call_start True (Some Call_stop) (toggle_at st g p) = toggle_at Race_idle g p"
  "edge_finished Call_stop True f (toggle_at Race_stopping g p) = toggle_at Race_idle g p"
  by (simp_all add: toggle_at_def press_def callback_returned_def edge_finished_def)

theorem double_start_possible:
  "\<exists>es c ts. run_of activation_step (new_controller Toggle, []) es (c, ts) \<and> starts_running ts = 2"
proof -
  let ?stop = "Following Call_stop True None" and ?late = "Following Call_start True (Some Call_stop)"
  have start: "new_controller Toggle = toggle_at Race_idle 0 False" by (simp add: new_controller_def toggle_at_def)
  have "run_of activation_step (toggle_at Race_idle 0 False, [])
      [[Call_start], [], [], [Call_stop], [], [Call_start], [], [Call_stop], [], [Call_start], [], [Call_start]]
      (toggle_at Race_starting 4 False, [Calling Call_start 4, Calling Call_start 3])"
  proof (intro run_cons)
    show "activation_step (toggle_at Race_idle 0 False, []) [Call_start] (toggle_at Race_starting 1 False, [Calling Call_start 1])"
      using activation_step.pressed [OF at_steps(1)] by simp
    show "activation_step (toggle_at Race_starting 1 False, [Calling Call_start 1]) [] (toggle_at Race_active 1 False, [Following Call_start True None])"
      using returned_first [OF at_steps(4)] by simp
    show "activation_step (toggle_at Race_active 1 False, [Following Call_start True None]) [] (toggle_at Race_active 1 False, [])"
      using finished_first [of "toggle_at Race_active 1 False" Call_start True None "[]"] by (simp add: at_steps)
    show "activation_step (toggle_at Race_active 1 False, []) [Call_stop] (toggle_at Race_stopping 1 False, [Calling Call_stop 1])"
      by (rule activation_step.pressed [OF at_steps(2)])
    show "activation_step (toggle_at Race_stopping 1 False, [Calling Call_stop 1]) [] (toggle_at Race_idle 1 False, [?stop])"
      using returned_first [OF at_steps(6)] by simp
    show "activation_step (toggle_at Race_idle 1 False, [?stop]) [Call_start] (toggle_at Race_starting 2 False, [Calling Call_start 2, ?stop])"
      using activation_step.pressed [OF at_steps(1), of 1 False "[?stop]"] by (simp add: numeral_2_eq_2)
    show "activation_step (toggle_at Race_starting 2 False, [Calling Call_start 2, ?stop]) [] (toggle_at Race_starting 2 True, [Calling Call_start 2, ?stop])"
      by (rule activation_step.pressed_only [OF at_steps(3)])
    show "activation_step (toggle_at Race_starting 2 True, [Calling Call_start 2, ?stop]) [Call_stop] (toggle_at Race_stopping 2 False, [?late, ?stop])"
      using returned_first [OF at_steps(5)] by simp
    show "activation_step (toggle_at Race_stopping 2 False, [?late, ?stop]) [] (toggle_at Race_idle 2 False, [?late])"
      using finished_second [of "toggle_at Race_stopping 2 False" ?late Call_stop True None "[]"] by (simp add: at_steps)
    show "activation_step (toggle_at Race_idle 2 False, [?late]) [Call_start] (toggle_at Race_starting 3 False, [Calling Call_start 3, ?late])"
      using activation_step.pressed [OF at_steps(1), of 2 False "[?late]"] by (simp add: eval_nat_numeral)
    show "activation_step (toggle_at Race_starting 3 False, [Calling Call_start 3, ?late]) [] (toggle_at Race_idle 3 False, [Calling Call_start 3])"
      using finished_second [of "toggle_at Race_starting 3 False" "Calling Call_start 3" Call_start True "Some Call_stop" "[]"] by (simp add: at_steps)
    show "activation_step (toggle_at Race_idle 3 False, [Calling Call_start 3]) [Call_start] (toggle_at Race_starting 4 False, [Calling Call_start 4, Calling Call_start 3])"
      using activation_step.pressed [OF at_steps(1), of 3 False "[Calling Call_start 3]"] by (simp add: eval_nat_numeral)
  qed (rule run_nil)
  then show ?thesis unfolding start by (intro exI conjI) (assumption, simp)
qed

section \<open>Properties\<close>



end
