(* ===== verification/Hosted_Costs.thy ===== *)
theory Hosted_Costs
  imports Hosted_Processing Service
begin

text \<open>
  Hosted processing never spends more than was authorized, and never asks for more than was reserved. The locale
  \<open>hosted_account\<close> is what the processing needs of the account behind it; it is interpreted on the recorded
  trace of calls, and on the ledger with everything else that the service does between two calls.
\<close>

section \<open>Plans in nanodollars\<close>

lemma dec28_scaled: "\<bar>n\<bar> < 10 ^ 28 \<Longrightarrow> dec28 (of_int n / 1000000000) = of_int n / 1000000000"
  using dec28_usd [of n] by (simp add: usd_def)

lemma chat_cost_exact:
  assumes "0 \<le> a" "a \<le> 10 ^ 9" "0 \<le> b" "b \<le> 10 ^ 9"
  shows "chat_cost a b = 75 * a + 300 * b"
proof -
  have "dec_mul (of_int a) input_rate = usd (75 * a)"
    using dec28_usd [of "75 * a"] assms by (simp add: dec_mul_def input_rate_def usd_def mult.commute)
  moreover have "dec_mul (of_int b) output_rate = usd (300 * b)"
    using dec28_usd [of "300 * b"] assms by (simp add: dec_mul_def output_rate_def usd_def mult.commute)
  moreover have "dec_add (usd (75 * a)) (usd (300 * b)) = usd (75 * a + 300 * b)"
    using dec28_usd [of "75 * a + 300 * b"] assms by (simp add: dec_add_def flip: usd_add)
  ultimately show ?thesis by (simp add: chat_cost_def money_up_def)
qed

lemma dec_int_share:
  assumes "A < 10 ^ 27"
  shows "dec_int (dec28 (of_int A / 300)) * 300 \<le> max A 0"
proof (cases "0 \<le> A")
  case True
  then have "0 \<le> dec28 (of_int A / 300)" by (intro dec28_nonneg) simp
  then show ?thesis using share_times_population [of A 300] True assms by (simp add: dec_int_def)
next
  case False
  have "0 \<le> dec28 (of_int (- A) / 300)" by (rule dec28_nonneg) (use False in simp)
  then have "dec28 (of_int A / 300) \<le> 0" using dec28_minus [of "of_int (- A) / 300"] by simp
  then have "dec_int (dec28 (of_int A / 300)) \<le> 0" by (auto simp: dec_int_def ceiling_le_iff)
  then show ?thesis by simp
qed

text \<open>A plan stays within the budget, which makes the second look at the ceiling unnecessary.\<close>

lemma chat_plan_within:
  assumes "chat_plan system source (usd B) = Inr (Some (incoming, outgoing, bound))" "0 \<le> B" "B < 10 ^ 27"
  shows "256 \<le> incoming" "incoming \<le> 128000" "1 \<le> outgoing" "outgoing \<le> 8192"
    "bound = 75 * incoming + 300 * outgoing" "bound \<le> B"
proof -
  obtain a b where ab: "utf8_len system = Some a" "utf8_len source = Some b"
    using assms(1) by (auto simp: chat_plan_def split: option.splits)
  define i where "i = int a + int b + 256"
  define A where "A = B - 75 * i"
  define o1 where "o1 = min 8192 (dec_int (dec_div (dec_sub (usd B) (dec_mul (of_int i) input_rate)) output_rate))"
  define o2 where "o2 = (if usd B < usd (chat_cost i o1) then o1 - 1 else o1)"
  have run: "i \<le> 128000" "1 \<le> o1" "1 \<le> o2" "incoming = i" "outgoing = o2" "bound = chat_cost i o2"
    using assms(1) unfolding chat_plan_def ab Let_def option.case prod.case i_def [symmetric] o1_def [symmetric] o2_def [symmetric]
    by (auto split: if_splits)
  have i: "256 \<le> i" by (simp add: i_def)
  have "dec_mul (of_int i) input_rate = usd (75 * i)"
    using dec28_usd [of "75 * i"] i run(1) by (simp add: dec_mul_def input_rate_def usd_def mult.commute)
  moreover have "dec_sub (usd B) (usd (75 * i)) = usd A"
    using dec_sub_usd [of B "75 * i"] assms(2,3) i run(1) by (simp add: A_def)
  moreover have "dec_div (usd A) output_rate = dec28 (of_int A / 300)"
    by (simp add: dec_div_def usd_def output_rate_def)
  ultimately have o1: "o1 \<le> 8192" "o1 \<le> dec_int (dec28 (of_int A / 300))" by (simp_all add: o1_def)
  have "A < 10 ^ 27" using assms(3) i by (simp add: A_def)
  then have "o1 * 300 \<le> max A 0" using dec_int_share [of A] o1(2) by linarith
  then have le: "75 * i + 300 * o1 \<le> B" using run(2) by (auto simp: A_def)
  have "chat_cost i o1 = 75 * i + 300 * o1" by (rule chat_cost_exact) (use i run(1,2) o1(1) in auto)
  then have "o2 = o1" using le by (simp add: o2_def)
  then show "256 \<le> incoming" "incoming \<le> 128000" "1 \<le> outgoing" "outgoing \<le> 8192"
    "bound = 75 * incoming + 300 * outgoing" "bound \<le> B"
    using run i o1(1) le \<open>chat_cost i o1 = 75 * i + 300 * o1\<close> by simp_all
qed

lemma token_usage_bounds: "token_usage d i b = Some (x, y) \<Longrightarrow> 0 \<le> x \<and> x \<le> i \<and> 0 \<le> y \<and> y \<le> b"
  by (auto simp: token_usage_def split: option.splits pyval.splits if_splits)

text \<open>What the provider says it used costs no more than the ceiling of the plan.\<close>

lemma used_cost:
  assumes plan: "chat_plan system source (usd B) = Inr (Some (incoming, outgoing, bound))" "0 \<le> B" "B < 10 ^ 27"
    and used: "token_usage d incoming outgoing = Some (x, y)"
  shows "0 \<le> chat_cost x y" "chat_cost x y \<le> bound"
proof -
  note p = chat_plan_within [OF plan] and t = token_usage_bounds [OF used]
  have "chat_cost x y = 75 * x + 300 * y" by (rule chat_cost_exact) (use p t in auto)
  moreover have "75 * x \<le> 75 * incoming" "300 * y \<le> 300 * outgoing" using t by auto
  ultimately show "0 \<le> chat_cost x y" "chat_cost x y \<le> bound" using p(5) t by auto
qed

section \<open>The account behind the processing\<close>

definition charge_covered :: "int \<Rightarrow> hosted_error + outcome \<Rightarrow> bool" where
  "charge_covered a res \<longleftrightarrow> (let fits' = (\<lambda>q. 0 \<le> q \<and> q \<le> usd a) in case res of
     Inr oc \<Rightarrow> 0 < a \<and> fits' (oc_cost oc)
   | Inl (Provider_failure (Some q) _ _) \<Rightarrow> fits' q
   | Inl (No_speech q) \<Rightarrow> fits' q
   | Inl _ \<Rightarrow> True)"

locale hosted_account =
  fixes env :: "'s hosted_env" and holds :: "int \<Rightarrow> 's \<Rightarrow> bool" and budget :: int
  assumes granted: "\<lbrakk>holds a s; 0 \<le> a; a \<le> t; t \<le> budget; he_grant env (usd t) s = (Granted, s')\<rbrakk> \<Longrightarrow> holds t s'"
    and refused: "\<lbrakk>holds a s; he_grant env q s = (g, s'); g \<noteq> Granted\<rbrakk> \<Longrightarrow> holds a s'"
    and posted: "\<lbrakk>holds a s; 0 < a; he_post env r s = (reply, s')\<rbrakk> \<Longrightarrow> holds a s'"
begin

lemma perform_holds: "holds a s \<Longrightarrow> 0 < a \<Longrightarrow> perform env r s = (res, s') \<Longrightarrow> holds a s'"
  by (auto simp: perform_def split: prod.splits dest: posted)

lemma perform_error: "perform env r s = (Inl e, s') \<Longrightarrow> e = Provider_failure None 0 0 \<or> e = Unexpected"
  by (auto simp: perform_def split: prod.splits option.splits if_splits loaded.splits pyval.splits)

text \<open>After an authorization of \<open>t\<close> the rest runs with \<open>t\<close>; without it nothing is charged beyond what was held.\<close>

lemma authorized_rule:
  assumes run: "authorized_then env (usd t) s rest = (res, s')" and h: "holds a s" "0 \<le> a" "a \<le> t" "t \<le> budget"
    and rest: "\<And>s1. holds t s1 \<Longrightarrow> rest s1 = (res, s') \<Longrightarrow> \<exists>b. holds b s' \<and> 0 \<le> b \<and> b \<le> budget \<and> charge_covered b res"
  shows "\<exists>b. holds b s' \<and> 0 \<le> b \<and> b \<le> budget \<and> charge_covered b res"
proof -
  obtain g s1 where g: "he_grant env (usd t) s = (g, s1)" by fastforce
  show ?thesis
  proof (cases g)
    case Granted
    then show ?thesis using run g granted [OF h] rest by (simp add: authorized_then_def)
  next
    case (Declined r)
    then have "res = Inl (Refused r)" "holds a s'" using run g refused [OF h(1)] by (auto simp: authorized_then_def)
    then show ?thesis using h by (intro exI [of _ a]) (simp add: charge_covered_def)
  next
    case Broken
    then have "res = Inl Unexpected" "holds a s'" using run g refused [OF h(1)] by (auto simp: authorized_then_def)
    then show ?thesis using h by (intro exI [of _ a]) (simp add: charge_covered_def)
  qed
qed

lemma transform_covered:
  assumes "transform env source system (usd budget) s = (res, s')" "holds 0 s" "0 \<le> budget" "budget < 10 ^ 27"
  shows "\<exists>a. holds a s' \<and> 0 \<le> a \<and> a \<le> budget \<and> charge_covered a res"
proof -
  let ?src = "ulit ''BEGIN_SELECTED_SOURCE'' @ [10] @ source @ [10] @ ulit ''END_SELECTED_SOURCE''"
  note run = assms(1) [unfolded transform_def Let_def]
  show ?thesis
  proof (cases "\<exists>i b c. chat_plan system ?src (usd budget) = Inr (Some (i, b, c))")
    case False
    then have "s' = s \<and> charge_covered 0 res" using run by (auto simp: charge_covered_def split: sum.splits option.splits)
    then show ?thesis using assms by auto
  next
    case True
    then obtain i b c where plan: "chat_plan system ?src (usd budget) = Inr (Some (i, b, c))" by blast
    note p = chat_plan_within [OF plan assms(3,4)]
    have c: "0 < c" using p by simp
    show ?thesis
    proof (rule authorized_rule [OF run [unfolded plan sum.case option.case prod.case] assms(2) _ _ p(6)])
      fix s1 assume h: "holds c s1"
        and r: "(case perform env (chat_request system ?src b) s1 of (Inl e, s2) \<Rightarrow> (Inl e, s2)
          | (Inr answer, s2) \<Rightarrow> (transform_answer answer i b, s2)) = (res, s')"
      obtain x s2 where pf: "perform env (chat_request system ?src b) s1 = (x, s2)" by fastforce
      have "holds c s'" "charge_covered c res"
      proof -
        show "holds c s'" using r pf perform_holds [OF h c pf] by (auto split: sum.splits)
        show "charge_covered c res"
        proof (cases x)
          case (Inl e)
          then show ?thesis using r pf perform_error [OF pf [unfolded Inl]] by (auto simp: charge_covered_def)
        next
          case (Inr d)
          then have res: "res = transform_answer d i b" using r pf by simp
          show ?thesis
          proof (cases "token_usage d i b")
            case None
            then show ?thesis by (simp add: res transform_answer_def charge_covered_def)
          next
            case (Some xy)
            obtain x y where xy: "xy = (x, y)" by fastforce
            note u = used_cost [OF plan assms(3,4) Some [unfolded xy]]
            show ?thesis using Some u c
              by (auto simp: res xy transform_answer_def Let_def charge_covered_def split: option.splits prod.splits pyval.splits)
          qed
        qed
      qed
      then show "\<exists>a. holds a s' \<and> 0 \<le> a \<and> a \<le> budget \<and> charge_covered a res" using c p(6) by (intro exI [of _ c]) simp
    qed (use c in simp_all)
  qed
qed

lemma add_members_covered: "add_members ms (res, s) = (res', s') \<Longrightarrow> charge_covered a res \<Longrightarrow> s' = s \<and> charge_covered a res'"
  by (auto simp: add_members_def charge_covered_def Let_def split: sum.splits)

lemma text_operation_covered:
  assumes "text_operation env source task language style (usd budget) s = (res, s')" "holds 0 s" "0 \<le> budget" "budget < 10 ^ 27"
  shows "\<exists>a. holds a s' \<and> 0 \<le> a \<and> a \<le> budget \<and> charge_covered a res"
proof (cases "map_of action_languages language")
  case None
  then show ?thesis using assms by (intro exI [of _ 0]) (auto simp: text_operation_def charge_covered_def)
next
  case (Some label)
  obtain system ms where run: "add_members ms (transform env source system (usd budget) s) = (res, s')"
    using assms(1) Some by (auto simp: text_operation_def Let_def)
  obtain r1 s1 where t: "transform env source system (usd budget) s = (r1, s1)" by fastforce
  show ?thesis using transform_covered [OF t assms(2-4)] add_members_covered [OF run [unfolded t]] by blast
qed

lemma action_operation_covered:
  assumes "action_operation env source action language style (usd budget) s = (res, s')" "holds 0 s" "0 \<le> budget" "budget < 10 ^ 27"
  shows "\<exists>a. holds a s' \<and> 0 \<le> a \<and> a \<le> budget \<and> charge_covered a res"
proof (cases "instruction (fst action) language = None \<or> map_of action_languages language = None")
  case True
  then show ?thesis using assms by (intro exI [of _ 0]) (auto simp: action_operation_def charge_covered_def split: option.splits)
next
  case False
  then obtain src system ms where run: "add_members ms (transform env src system (usd budget) s) = (res, s')"
    using assms(1) by (auto simp: action_operation_def Let_def)
  obtain r1 s1 where t: "transform env src system (usd budget) s = (r1, s1)" by fastforce
  show ?thesis using transform_covered [OF t assms(2-4)] add_members_covered [OF run [unfolded t]] by blast
qed

lemma refinement_answer_covered:
  assumes plan: "chat_plan system message (usd B) = Inr (Some (i, b, c))" "0 \<le> B" "B < 10 ^ 27" and C: "0 < C" "C < 10 ^ 27"
    and ans: "\<And>e. answer = Inl e \<Longrightarrow> e = Provider_failure None 0 0 \<or> e = Unexpected"
  shows "charge_covered (C + c) (refinement_answer u opts source tried (usd C) (dec_add (usd C) (usd c)) i b answer)"
proof -
  note p = chat_plan_within [OF plan]
  have add: "dec_add (usd C) (usd n) = usd (C + n)" if "0 \<le> n" "n \<le> c" for n
    using dec28_usd [of "C + n"] that C p(6) plan(3) by (simp add: dec_add_def flip: usd_add)
  have pos: "0 < c" using p by simp
  show ?thesis
  proof (cases answer)
    case (Inl e)
    then show ?thesis using ans [OF Inl] add [of c] pos C
      by (auto simp: refinement_answer_def charge_covered_def Let_def)
  next
    case (Inr d)
    show ?thesis
    proof (cases "token_usage d i b")
      case None
      then show ?thesis using add [of c] pos C by (auto simp: Inr refinement_answer_def charge_covered_def Let_def)
    next
      case (Some xy)
      obtain x y where xy: "xy = (x, y)" by fastforce
      note u = used_cost [OF plan Some [unfolded xy]]
      have fit: "0 \<le> dec_add (usd C) (usd (chat_cost x y)) \<and> dec_add (usd C) (usd (chat_cost x y)) \<le> usd (C + c)"
        using add [OF u] u C by simp
      have "0 < C + c" using C pos by simp
      then show ?thesis using fit
        by (auto simp: Inr Some xy refinement_answer_def charge_covered_def Let_def split: option.splits prod.splits pyval.splits)
    qed
  qed
qed

lemma refine_covered:
  assumes "refine env opts active source result (usd C) (usd budget) s = (res, s')" "holds C s"
    and C: "0 < C" "C \<le> budget" "budget < 10 ^ 27"
  shows "\<exists>a. holds a s' \<and> 0 \<le> a \<and> a \<le> budget \<and> charge_covered a res"
proof -
  have sub: "dec_sub (usd budget) (usd C) = usd (budget - C)" using dec_sub_usd [of budget C] C by simp
  note run = assms(1) [unfolded refine_def Let_def sub]
  show ?thesis
  proof (cases "\<exists>system message i b c. refinement_system opts active = Some system \<and> refinement_source opts source = Some message
      \<and> chat_plan system message (usd (budget - C)) = Inr (Some (i, b, c))")
    case False
    then have "s' = s \<and> charge_covered C res" using run C by (auto simp: charge_covered_def split: sum.splits option.splits)
    then show ?thesis using assms by auto
  next
    case True
    then obtain system message i b c where sy: "refinement_system opts active = Some system" "refinement_source opts source = Some message"
      and plan: "chat_plan system message (usd (budget - C)) = Inr (Some (i, b, c))" by blast
    have B: "0 \<le> budget - C" "budget - C < 10 ^ 27" using C by auto
    note p = chat_plan_within [OF plan B]
    have c: "0 < c" using p by simp
    have lim: "dec_add (usd C) (usd c) = usd (C + c)"
      using dec28_usd [of "C + c"] c C p(6) by (simp add: dec_add_def flip: usd_add)
    show ?thesis
    proof (rule authorized_rule [OF run [unfolded sy plan sum.case option.case prod.case lim] assms(2)])
      fix s1 assume h: "holds (C + c) s1"
        and r: "(case perform env (chat_request system message b) s1 of (answer, s2) \<Rightarrow>
           (refinement_answer (he_unicode env) opts source (provenance opts False False True result) (usd C) (usd (C + c)) i b answer, s2)) = (res, s')"
      obtain x s2 where pf: "perform env (chat_request system message b) s1 = (x, s2)" by fastforce
      have pos: "0 < C + c" using C c by simp
      have "holds (C + c) s'" using r pf perform_holds [OF h pos pf] by simp
      moreover have "charge_covered (C + c) res"
        using refinement_answer_covered [OF plan B C(1), of x "he_unicode env" opts source "provenance opts False False True result"]
          perform_error [of "chat_request system message b" s1 _ s2] pf r C by (auto simp: lim)
      ultimately show "\<exists>a. holds a s' \<and> 0 \<le> a \<and> a \<le> budget \<and> charge_covered a res"
        using pos p(6) by (intro exI [of _ "C + c"]) simp
    qed (use C c p(6) in simp_all)
  qed
qed

lemma after_transcript_covered:
  assumes "after_transcript env opts l active transcript (usd C) (usd budget) s = (res, s')" "holds C s"
    and C: "0 < C" "C \<le> budget" "budget < 10 ^ 27"
  shows "\<exists>a. holds a s' \<and> 0 \<le> a \<and> a \<le> budget \<and> charge_covered a res"
proof -
  have "(s' = s \<and> charge_covered C res) \<or> (\<exists>source result. refine env opts active source result (usd C) (usd budget) s = (res, s'))"
    using assms(1) C by (auto simp: after_transcript_def Let_def charge_covered_def split: sum.splits option.splits if_splits)
  then show ?thesis using refine_covered assms(2) C by fastforce
qed

lemma dictation_covered:
  assumes "dictation env audio ms vocabulary snippets opts (usd budget) s = (res, s')" "holds 0 s" "0 \<le> budget" "budget < 10 ^ 27"
    and cost: "0 < asr_cost ms"
  shows "\<exists>a. holds a s' \<and> 0 \<le> a \<and> a \<le> budget \<and> charge_covered a res"
proof -
  let ?C = "asr_cost ms"
  have "(s' = s \<and> charge_covered 0 res) \<or> (\<exists>l active. ?C \<le> budget \<and>
    authorized_then env (usd ?C) s (\<lambda>s1. case perform env (Transcribe (transcription_fields opts active) audio) s1 of
           (Inl e, s2) \<Rightarrow> (Inl e, s2)
         | (Inr answer, s2) \<Rightarrow> recognized env opts l active answer (usd ?C) (usd budget) s2) = (res, s'))"
    using assms(1) by (auto simp: dictation_def Let_def charge_covered_def split: sum.splits if_splits)
  then show ?thesis
  proof (elim disjE exE conjE)
    fix l active assume C: "?C \<le> budget"
      and run: "authorized_then env (usd ?C) s (\<lambda>s1. case perform env (Transcribe (transcription_fields opts active) audio) s1 of
           (Inl e, s2) \<Rightarrow> (Inl e, s2)
         | (Inr answer, s2) \<Rightarrow> recognized env opts l active answer (usd ?C) (usd budget) s2) = (res, s')"
    show ?thesis
    proof (rule authorized_rule [OF run assms(2)])
      fix s1 assume h: "holds ?C s1" and r: "(case perform env (Transcribe (transcription_fields opts active) audio) s1 of
           (Inl e, s2) \<Rightarrow> (Inl e, s2)
         | (Inr answer, s2) \<Rightarrow> recognized env opts l active answer (usd ?C) (usd budget) s2) = (res, s')"
      obtain x s2 where pf: "perform env (Transcribe (transcription_fields opts active) audio) s1 = (x, s2)" by fastforce
      have h2: "holds ?C s2" by (rule perform_holds [OF h cost pf])
      show "\<exists>a. holds a s' \<and> 0 \<le> a \<and> a \<le> budget \<and> charge_covered a res"
      proof (cases x)
        case (Inl e)
        then have "s' = s2" "charge_covered ?C res" using r pf perform_error [OF pf [unfolded Inl]] by (auto simp: charge_covered_def)
        then show ?thesis using h2 C cost by (intro exI [of _ ?C]) simp
      next
        case (Inr answer)
        then have "recognized env opts l active answer (usd ?C) (usd budget) s2 = (res, s')" using r pf by simp
        then have "(s' = s2 \<and> charge_covered ?C res) \<or>
            (\<exists>t. after_transcript env opts l active t (usd ?C) (usd budget) s2 = (res, s'))"
          using cost by (auto simp: recognized_def Let_def charge_covered_def split: option.splits pyval.splits if_splits)
        then show ?thesis using after_transcript_covered h2 C cost assms(4) by fastforce
      qed
    qed (use cost C in simp_all)
  qed (use assms(2,3) in auto)
qed

end

lemma asr_cost_pos: "0 < asr_cost ms"
proof -
  let ?m = "max ((ms + 999) div 1000) 10"
  have pos: "0 < dec28 q" if "0 < q" for q
  proof -
    have "q - dec28 q \<le> \<bar>dec28 q - q\<bar>" by linarith
    also have "\<dots> \<le> q / (2 * 10 ^ 27)" using dec28_err [of q] that by simp
    also have "\<dots> < q" using that by (simp add: field_simps)
    finally show ?thesis by simp
  qed
  have "0 < dec_div (dec_mul (of_int ?m) (4 / 100)) 3600"
    unfolding dec_div_def dec_mul_def by (intro pos divide_pos_pos mult_pos_pos) auto
  then show ?thesis by (simp add: asr_cost_def money_up_def quantize_up_def)
qed

section \<open>Jobs and their traces\<close>

datatype hosted_job = Dictate bytes int "pyval list" "pyval list" dictation_options
  | Rewrite ustr text_task ustr "writing_choice option"
  | Act ustr versioned_action ustr "writing_choice option"

definition run_job :: "'s hosted_env \<Rightarrow> hosted_job \<Rightarrow> rat \<Rightarrow> 's \<Rightarrow> (hosted_error + outcome) \<times> 's" where
  "run_job env job budget s = (case job of
     Dictate audio ms vocabulary snippets opts \<Rightarrow> dictation env audio ms vocabulary snippets opts budget s
   | Rewrite source task language style \<Rightarrow> text_operation env source task language style budget s
   | Act source action language style \<Rightarrow> action_operation env source action language style budget s)"

context hosted_account
begin

lemma job_covered:
  assumes "run_job env job (usd budget) s = (res, s')" "holds 0 s" "0 \<le> budget" "budget < 10 ^ 27"
  shows "\<exists>a. holds a s' \<and> 0 \<le> a \<and> a \<le> budget \<and> charge_covered a res"
  using assms
  by (cases job) (auto simp: run_job_def dest: dictation_covered [OF _ _ _ _ asr_cost_pos] text_operation_covered action_operation_covered)

end

datatype hosted_call = Authorized rat | Called provider_request

definition traced ::
  "(rat \<Rightarrow> hosted_call list \<Rightarrow> grant_answer) \<Rightarrow> (provider_request \<Rightarrow> hosted_call list \<Rightarrow> http_reply option)
     \<Rightarrow> (bytes \<Rightarrow> loaded) \<Rightarrow> unicode \<Rightarrow> hosted_call list hosted_env" where
  "traced allow reply loads u = \<lparr>
     he_post = (\<lambda>r es. (reply r es, es @ [Called r])),
     he_grant = (\<lambda>q es. (allow q es, if allow q es = Granted then es @ [Authorized q] else es)),
     he_loads = loads, he_unicode = u\<rparr>"

text \<open>
  From an authorization of \<open>c\<close> nanodollars to one of \<open>a\<close>: authorizations grow within the budget, and no call
  goes out before the first.
\<close>

fun paid_trace :: "int \<Rightarrow> int \<Rightarrow> int \<Rightarrow> hosted_call list \<Rightarrow> bool" where
  "paid_trace B c a [] = (c = a)"
| "paid_trace B c a (Authorized q # es) = (q = usd (money q) \<and> c \<le> money q \<and> money q \<le> B \<and> paid_trace B (money q) a es)"
| "paid_trace B c a (Called r # es) = (0 < c \<and> paid_trace B c a es)"

lemma money_usd [simp]: "money (usd n) = n"
  by (simp add: money_def)

lemma paid_trace_append: "paid_trace B c a es \<Longrightarrow> paid_trace B a b fs \<Longrightarrow> paid_trace B c b (es @ fs)"
  by (induction B c a es rule: paid_trace.induct) auto

interpretation traced: hosted_account "traced allow reply loads u" "\<lambda>a es. paid_trace B 0 a es" B
proof unfold_locales
  fix a t :: int and s s' assume "paid_trace B 0 a s" "0 \<le> a" "a \<le> t" "t \<le> B"
    "he_grant (traced allow reply loads u) (usd t) s = (Granted, s')"
  then show "paid_trace B 0 t s'" by (auto simp: traced_def intro!: paid_trace_append [of B 0 a _ t])
next
  fix a r s reply' s' assume "paid_trace B 0 a s" "0 < a" "he_post (traced allow reply loads u) r s = (reply', s')"
  then show "paid_trace B 0 a s'" by (auto simp: traced_def intro!: paid_trace_append [of B 0 a _ a])
qed (auto simp: traced_def split: if_splits)

end
