(* ===== verification/Hosted_Requests.thy ===== *)
theory Hosted_Requests
  imports Hosted_Costs Scenario
begin

text \<open>
  The processing views of \<^verbatim>\<open>server/cloud/service/api.py\<close> from the reservation on: an operation is reserved, the
  job runs against the provider while the rest of the service goes on, and its outcome or failure is settled. A
  state is the database and the clock. \<open>tick\<close> gives the clock readings that follow a time; \<open>rendered\<close> is the
  size of the response in the web framework.
\<close>

section \<open>The ledger as the account of a job\<close>

type_synonym world = "db \<times> time"

definition ledger_env ::
  "nat \<Rightarrow> (provider_request \<Rightarrow> world \<Rightarrow> http_reply option \<times> world) \<Rightarrow> (bytes \<Rightarrow> loaded) \<Rightarrow> unicode \<Rightarrow> world hosted_env" where
  "ledger_env pk post loads u = \<lparr>he_post = post,
     he_grant = (\<lambda>q (d, T). case authorize pk q T d of
        Inl _ \<Rightarrow> (Broken, (d, T)) | Inr (Inl r) \<Rightarrow> (Declined r, (d, T)) | Inr (Inr d') \<Rightarrow> (Granted, (d', T))),
     he_loads = loads, he_unicode = u\<rparr>"

text \<open>Reachable from a state by steps of the service, and what an operation holds as long as it runs.\<close>

definition reach :: "settings \<Rightarrow> world \<Rightarrow> world \<Rightarrow> bool" where
  "reach st s s' \<longleftrightarrow> (\<exists>es. run_of (service_step st) s es s')"

definition holds_authorized :: "settings \<Rightarrow> world \<Rightarrow> nat \<Rightarrow> int \<Rightarrow> int \<Rightarrow> world \<Rightarrow> bool" where
  "holds_authorized st s0 pk B a s \<longleftrightarrow> reach st s0 s \<and> pk < next_operation_pk (fst s)
     \<and> (case get_row operation_pk (operations (fst s)) pk of None \<Rightarrow> False
        | Some r \<Rightarrow> reserved_cost r = B \<and> (running r \<longrightarrow> authorized_cost r = a))"

text \<open>
  What happens during a call: any steps of the service except an authorization of this operation, whose row is
  kept (only settled rows of the last month are forgotten, and a call ends within 45 seconds).
\<close>

definition meanwhile :: "settings \<Rightarrow> nat \<Rightarrow> world \<Rightarrow> world \<Rightarrow> bool" where
  "meanwhile st pk s s' \<longleftrightarrow> (\<exists>es. run_of (service_step st) s es s' \<and> (\<forall>q. Authorize pk q \<notin> set es))
     \<and> get_row operation_pk (operations (fst s')) pk \<noteq> None"

text \<open>Steps leave a row that still runs as it was, apart from its owner and its reply.\<close>

definition same_hold :: "operation_row \<Rightarrow> operation_row \<Rightarrow> bool" where
  "same_hold a b \<longleftrightarrow> operation_pk b = operation_pk a \<and> reserved_cost b = reserved_cost a
     \<and> (running b \<longrightarrow> running a \<and> authorized_cost b = authorized_cost a)"

definition untouched :: "nat \<Rightarrow> db \<Rightarrow> db \<Rightarrow> bool" where
  "untouched pk d d' \<longleftrightarrow> next_operation_pk d \<le> next_operation_pk d'
     \<and> (\<forall>b \<in> set (operations d'). operation_pk b = pk \<longrightarrow> next_operation_pk d \<le> pk \<or> (\<exists>a \<in> set (operations d). same_hold a b))"

lemma same_hold_refl [simp]: "same_hold a a"
  by (simp add: same_hold_def)

lemma same_hold_settled [simp]: "st \<noteq> Running \<Longrightarrow> same_hold o' (settled_operation o' c res i p st est now)"
  by (simp add: same_hold_def)

lemma same_hold_expired [simp]: "same_hold o' (expired_row now o')"
  by (simp add: expired_row_def)

lemma reach_refl [simp]: "reach st s s"
  by (auto simp: reach_def intro: run_of.intros)

lemma reach_trans [trans]: "reach st s t \<Longrightarrow> reach st t u \<Longrightarrow> reach st s u"
  by (auto simp: reach_def intro: run_of_append)

lemma reach_step: "service_step st s e t \<Longrightarrow> reach st s t"
  by (auto simp: reach_def intro: run_of.intros)

lemma reach_inv: "reach st s t \<Longrightarrow> settings_ok st \<Longrightarrow> service_inv st s \<Longrightarrow> service_inv st t"
  using service.run_preserves [of st s _ t] by (auto simp: reach_def)

lemma untouched_trans:
  assumes "untouched pk a b" "untouched pk b c"
  shows "untouched pk a c"
  unfolding untouched_def
proof (intro conjI ballI impI)
  show "next_operation_pk a \<le> next_operation_pk c" using assms by (auto simp: untouched_def)
  fix z assume z: "z \<in> set (operations c)" "operation_pk z = pk"
  then consider "next_operation_pk b \<le> pk" | y where "y \<in> set (operations b)" "same_hold y z"
    using assms(2) by (auto simp: untouched_def)
  then show "next_operation_pk a \<le> pk \<or> (\<exists>x \<in> set (operations a). same_hold x z)"
  proof cases
    case 1
    then show ?thesis using assms(1) by (auto simp: untouched_def)
  next
    case 2
    then have "operation_pk y = pk" using z(2) by (simp add: same_hold_def)
    then have "next_operation_pk a \<le> pk \<or> (\<exists>x \<in> set (operations a). same_hold x y)"
      using 2(1) assms(1) by (auto simp: untouched_def)
    then show ?thesis using 2(2) by (auto simp: same_hold_def)
  qed
qed

lemma untouched_map:
  assumes "operations d' = map f (operations d)" "\<And>x. same_hold x (f x)" "next_operation_pk d' = next_operation_pk d"
  shows "untouched pk d d'"
  using assms by (auto simp: untouched_def)

lemma untouched_same:
  "operations d' = operations d \<Longrightarrow> next_operation_pk d' = next_operation_pk d \<Longrightarrow> untouched pk d d'"
  using untouched_map [of d' "\<lambda>x. x" d pk] by simp

lemma untouched_put:
  assumes "operations d' = put_row operation_pk r (operations d)" "next_operation_pk d' = next_operation_pk d"
    and "\<And>x. x \<in> set (operations d) \<Longrightarrow> operation_pk x = operation_pk r \<Longrightarrow> operation_pk x = pk \<Longrightarrow> same_hold x r"
  shows "untouched pk d d'"
  unfolding untouched_def
proof (intro conjI ballI impI disjI2)
  fix b assume b: "b \<in> set (operations d')" "operation_pk b = pk"
  then obtain x where x: "x \<in> set (operations d)" "b = (if operation_pk x = operation_pk r then r else x)"
    unfolding assms(1) put_row_def by auto
  then show "\<exists>a \<in> set (operations d). same_hold a b"
    using assms(3) [of x] b(2) by (intro bexI [of _ x]) (auto split: if_splits)
qed (simp add: assms(2))

lemma untouched_new:
  assumes "operations d' = operations d @ [r]" "next_operation_pk d \<le> operation_pk r" "next_operation_pk d \<le> next_operation_pk d'"
  shows "untouched pk d d'"
  unfolding untouched_def
proof (intro conjI ballI impI)
  fix b assume b: "b \<in> set (operations d')" "operation_pk b = pk"
  then consider "b = r" | "b \<in> set (operations d)" unfolding assms(1) by auto
  then show "next_operation_pk d \<le> pk \<or> (\<exists>a \<in> set (operations d). same_hold a b)"
    using assms(2) b(2) same_hold_refl by cases blast+
qed (rule assms(3))

lemma expire_untouched:
  assumes "service_inv st (d, T)" "T \<le> t" "expire_leases t d = Inr d'"
  shows "untouched pk d d'" "service_inv st (d', t)"
proof -
  note base = service_invI [OF assms(1,2)]
  obtain d2 where "expire_leases t d = Inr d2" "operations d2 = map (expired_row t) (operations d)"
    "next_operation_pk d2 = next_operation_pk d"
    by (rule expire_leases_inv [OF base(1)]) blast
  then show "untouched pk d d'" using assms(3) by (intro untouched_map [of d' "expired_row t"]) simp_all
  show "service_inv st (d', t)" by (rule expire_final(2) [OF assms])
qed

lemma purge_untouched: "untouched pk d (purge_operations now d)"
proof -
  have "same_hold o' (clear_result now o')" for o'
    by (simp add: same_hold_def)
  then show ?thesis by (auto simp: untouched_def purge_operations_def)
qed

lemma reserve_locked_untouched:
  assumes inv: "service_inv st (d, clk 0)" and ck: "clock_from T clk"
    and r: "reserve_locked st user opid fp ms txt clk d = Inr ((o', fresh), d')"
  shows "untouched pk d d'" "fresh \<Longrightarrow> operation_pk o' = next_operation_pk d \<and> next_operation_pk d < next_operation_pk d'"
proof -
  have both: "untouched pk d d' \<and> (fresh \<longrightarrow> operation_pk o' = next_operation_pk d \<and> next_operation_pk d < next_operation_pk d')"
    using r
  proof (cases rule: reserve_locked_cases)
    case replayed
    then show ?thesis by (simp add: untouched_same)
  next
    case (admitted q p s d1)
    have t: "clk 0 \<le> clk 2" using clock_from_mono [OF ck] by auto
    note base = service_invI [OF inv t]
    have "ledger_inv d (clk 2) \<and> cash_bound d (clk 2)" using base by simp
    note ad = quota.admitted_inv [OF this admitted(5,6)]
    have n1: "next_operation_pk d1 = next_operation_pk d" using quota_locked_frame [OF admitted(5)] by simp
    have "operation_pk o' = next_operation_pk d \<and> next_operation_pk d' = Suc (next_operation_pk d)"
      using admitted(6)
    proof (rule admit_cases)
      fix b d2 a d3 cap
      assume 1: "get_or_create_budget (month_start (clk 3)) d1 = (b, d2)"
        and 2: "get_or_create_allowance user (month_start (clk 3)) d2 = (a, d3)"
        and o': "o' = new_operation d3 user opid (month_start (clk 3)) fp ms
          (money (min (min MAX_COST (usd (allocated_usd q - used_usd q - reserved_usd q))) cap)) (quota_pk q) (clk 4)"
        and d': "d' = book_operation o' q a b (clk 4) d3"
      have "next_operation_pk d2 = next_operation_pk d1"
        using 1 by (auto simp: get_or_create_budget_def Let_def split: option.splits)
      moreover have "next_operation_pk d3 = next_operation_pk d2" using get_or_create_allowance_frame [OF 2] by auto
      ultimately have "next_operation_pk d3 = next_operation_pk d" using n1 by simp
      then show ?thesis unfolding d' by (simp add: o' book_operation_def)
    qed
    then show ?thesis using untouched_new [OF ad(2)] by auto
  qed
  then show "untouched pk d d'" "fresh \<Longrightarrow> operation_pk o' = next_operation_pk d \<and> next_operation_pk d < next_operation_pk d'"
    by auto
qed

lemma reserve_untouched:
  assumes inv: "service_inv st (d, T)" and ck: "clock_from T clk"
    and r: "reserve st u opid fp ms txt clk d = Inr (d', res)"
  shows "untouched pk d d'" "res = Inr (o', True) \<Longrightarrow> operation_pk o' < next_operation_pk d'"
proof -
  have t: "T \<le> clk 0" using clock_from_mono [OF ck] by auto
  obtain d1 where e: "expire_leases (clk 0) d = Inr d1"
    using expire_service [OF inv t] by blast
  note ef = expire_untouched [OF inv t e]
  consider "d' = d \<and> (\<forall>o'. res \<noteq> Inr (o', True))" | "d' = d1 \<and> (\<forall>o'. res \<noteq> Inr (o', True))"
    | o' f where "reserve_locked st (user_pk u) opid fp ms txt clk d1 = Inr ((o', f), d')" "res = Inr (o', f)"
    using r e by (auto simp: reserve_def split: if_splits sum.splits prod.splits)
  then have "untouched pk d d' \<and> (res = Inr (o', True) \<longrightarrow> operation_pk o' < next_operation_pk d')"
  proof cases
    case (3 o1 f)
    note rl = reserve_locked_untouched [OF ef(2) ck 3(1)]
    show ?thesis using untouched_trans [OF ef(1) rl(1)] rl(2) 3(2) by auto
  qed (use ef(1) untouched_same in auto)
  then show "untouched pk d d'" "res = Inr (o', True) \<Longrightarrow> operation_pk o' < next_operation_pk d'" by auto
qed

lemma maintain_untouched:
  assumes inv: "service_inv st (d, T)" and ck: "clock_from T clk" and m: "maintain st clk d = Inr d'"
  shows "untouched pk d d'"
proof -
  have t: "T \<le> clk 0" "clk 0 \<le> clk 1" using clock_from_mono [OF ck] by auto
  obtain d1 where e: "expire_leases (clk 0) d = Inr d1" using expire_service [OF inv t(1)] by blast
  note ef = expire_untouched [OF inv t(1) e]
  obtain p d2 where di: "distribute_locked (iexact st) (clk 1) d1 = (p, d2)" by fastforce
  have "untouched pk d1 d2" using distribute_frame [OF di] by (simp add: untouched_same)
  moreover have "d' = purge_operations (clk 2) d2" using m e di by (simp add: maintain_def distribute_def)
  ultimately show ?thesis using ef(1) purge_untouched by (blast intro: untouched_trans)
qed

lemma service_step_untouched:
  assumes "service_step st (d, T) ev (d', T')" "service_inv st (d, T)" "\<forall>q. ev \<noteq> Authorize pk q"
  shows "untouched pk d d'"
  using assms(1)
proof cases
  case (contribute t0 a r oc s e c)
  have l: "ledger_inv d T" using assms(2) by (simp add: service_inv_def)
  have "record_entry Contribution a r oc s t0 T' d = Inr (e, c, d')" using contribute by (simp add: record_contribution_def)
  from record_entry_ledger(2) [OF l contribute(2,3) _ this] record_entry_next [OF l contribute(2,3) this]
  show ?thesis by (simp add: untouched_same)
next
  case (operate t0 k a r oc s e c)
  have l: "ledger_inv d T" using assms(2) by (simp add: service_inv_def)
  obtain kind where "kind \<in> {Contribution, Operating_expense, Operating_reserve, Operating_release}"
    and "record_entry kind a r oc s t0 T' d = Inr (e, c, d')"
    using operate(4) by (auto simp: record_operating_def operating_kind_def split: if_splits option.splits)
  from record_entry_ledger(2) [OF l operate(2,3) this] record_entry_next [OF l operate(2,3) this(2)]
  show ?thesis by (simp add: untouched_same)
next
  case (approve n)
  then show ?thesis
    by (intro untouched_same) (auto simp: approve_funding_def approve_locked_def split: if_splits)
next
  case (distribute conf p)
  then have "distribute_locked (iexact st) T' (if conf then touch T' (snd (approve_locked T' d)) else d) = (p, d')"
    by (simp add: distribute_def)
  from distribute_frame [OF this] show ?thesis
    by (intro untouched_same) (simp_all add: approve_locked_def split: if_splits)
next
  case (replay clk u opid fp r)
  have "d' = d \<or> expire_leases (clk 0) d = Inr d'" using replay by (auto simp: replay_def split: sum.splits)
  then show ?thesis
    using expire_untouched(1) [OF assms(2)] replay clock_from_mono [of T clk 0 0] untouched_same by blast
next
  case (authorize pk' a)
  then have ne: "pk' \<noteq> pk" using assms(3) by auto
  show ?thesis using authorize(3)
  proof (rule authorize_cases)
    fix o' assume o': "get_row operation_pk (operations d) pk' = Some o'"
      and d': "d' = d\<lparr>operations := put_row operation_pk (o'\<lparr>authorized_cost := money_up a\<rparr>) (operations d)\<rparr>"
    have "operation_pk o' = pk'" using get_row_Some [OF o'] by simp
    then show "untouched pk d d'"
      using ne by (intro untouched_put [of d' "o'\<lparr>authorized_cost := money_up a\<rparr>"]) (simp_all add: d')
  qed
next
  case (settle pk' res cost i p est)
  note base = service_invI [OF assms(2) settle(2)]
  show ?thesis using base(1) settle(3)
  proof (cases rule: settle_cases)
    case (final o')
    then show ?thesis by (simp add: untouched_same)
  next
    case (settled o' c)
    have k: "keyed operation_pk (operations d)" using base(1) by (simp add: ledger_defs)
    have "x = o'" if "x \<in> set (operations d)" "operation_pk x = operation_pk o'" for x
      using get_row_keyed [OF k that(1)] that(2) settled(1) get_row_Some [OF settled(1)] by simp
    then show ?thesis
      by (intro untouched_put [OF settled(7,8)]) (auto simp: same_hold_def)
  qed
next
  case (usage clk u report)
  obtain q p s d1 where ql: "quota_locked (iexact st) u (clk 0) d = (q, p, s, d1)"
    by (cases "quota_locked (iexact st) u (clk 0) d")
  have "d' = d1" using usage ql by (auto simp: usage_def Let_def split: prod.splits)
  then show ?thesis using quota_locked_frame [OF ql] by (simp add: untouched_same)
next
  case (delete_account u r)
  have "same_hold o' (forget_user u o')" for o'
    by (simp add: same_hold_def)
  moreover have "operations d' = operations d \<or> operations d' = map (forget_user u) (operations d)"
    and "next_operation_pk d' = next_operation_pk d"
    using delete_account(3) by (auto simp: delete_account_def split: if_splits)
  ultimately show ?thesis by (auto intro: untouched_same untouched_map)
qed (use assms(2) in \<open>auto intro: reserve_untouched maintain_untouched untouched_same\<close>)

lemma run_untouched:
  assumes "run_of (service_step st) s es s'" "settings_ok st" "service_inv st s" "\<forall>q. Authorize pk q \<notin> set es"
  shows "untouched pk (fst s) (fst s') \<and> service_inv st s'"
  using assms
proof (induction rule: run_of.induct)
  case (run_nil s)
  then show ?case by (simp add: untouched_same)
next
  case (run_cons s e t es u)
  have "service_inv st t" using service_step_inv run_cons by blast
  then have "untouched pk (fst t) (fst u) \<and> service_inv st u" using run_cons by simp
  moreover have "\<forall>q. e \<noteq> Authorize pk q" using run_cons by auto
  then have "untouched pk (fst s) (fst t)"
    using service_step_untouched [of st "fst s" "snd s" e "fst t" "snd t" pk] run_cons by simp
  ultimately show ?case using untouched_trans by blast
qed

definition served :: "settings \<Rightarrow> nat \<Rightarrow> (provider_request \<Rightarrow> world \<Rightarrow> http_reply option \<times> world) \<Rightarrow> bool" where
  "served st pk post \<longleftrightarrow> (\<forall>r s. get_row operation_pk (operations (fst s)) pk \<noteq> None \<longrightarrow> meanwhile st pk s (snd (post r s)))"

lemma holds_after:
  assumes ok: "settings_ok st" "service_inv st s0" and h: "holds_authorized st s0 pk B a s" and m: "meanwhile st pk s s'"
  shows "holds_authorized st s0 pk B a s'"
proof -
  obtain es where es: "run_of (service_step st) s es s'" "\<forall>q. Authorize pk q \<notin> set es"
    using m by (auto simp: meanwhile_def)
  obtain o' where o': "get_row operation_pk (operations (fst s)) pk = Some o'" "reserved_cost o' = B" "running o' \<longrightarrow> authorized_cost o' = a"
    and re: "reach st s0 s" "pk < next_operation_pk (fst s)"
    using h by (auto simp: holds_authorized_def split: option.splits)
  have inv: "service_inv st s" by (rule reach_inv [OF re(1) ok])
  have un: "untouched pk (fst s) (fst s')" using run_untouched [OF es(1) ok(1) inv es(2)] by auto
  obtain b where b: "get_row operation_pk (operations (fst s')) pk = Some b" using m by (auto simp: meanwhile_def)
  have mem: "b \<in> set (operations (fst s'))" "operation_pk b = pk" using get_row_Some [OF b] by auto
  then obtain x where x: "x \<in> set (operations (fst s))" "same_hold x b"
    using un re(2) by (force simp: untouched_def)
  have "ledger_inv (fst s) (snd s)" using inv by (simp add: service_inv_def split: prod.splits)
  then have "keyed operation_pk (operations (fst s))" by (simp add: ledger_defs)
  from get_row_keyed [OF this x(1)] have "x = o'" using x(2) mem(2) o'(1) by (simp add: same_hold_def)
  then have "reserved_cost b = B \<and> (running b \<longrightarrow> authorized_cost b = a)" using x(2) o' by (auto simp: same_hold_def)
  moreover have "pk < next_operation_pk (fst s')" using un re(2) by (simp add: untouched_def)
  moreover have "reach st s0 s'" using re(1) es(1) reach_trans by (auto simp: reach_def intro: run_of_append)
  ultimately show ?thesis using b by (simp add: holds_authorized_def)
qed

text \<open>The ledger keeps the contract of \<open>hosted_account\<close>.\<close>

lemma ledger_account:
  assumes ok: "settings_ok st" "service_inv st s0" and sv: "served st pk post"
  shows "hosted_account (ledger_env pk post loads u) (holds_authorized st s0 pk B) B"
proof unfold_locales
  fix a s t s' assume h: "holds_authorized st s0 pk B a s" and g: "he_grant (ledger_env pk post loads u) (usd t) s = (Granted, s')"
  obtain d T where s: "s = (d, T)" by fastforce
  obtain d' where d': "authorize pk (usd t) T d = Inr (Inr d')" "s' = (d', T)"
    using g by (auto simp: ledger_env_def s split: sum.splits)
  have re: "reach st s0 (d, T)" "pk < next_operation_pk d" using h by (auto simp: holds_authorized_def s)
  have "service_step st (d, T) (Authorize pk (usd t)) (d', T)" by (rule service_step.authorize [OF order_refl d'(1)])
  then have re': "reach st s0 (d', T)" using re(1) reach_trans reach_step by blast
  show "holds_authorized st s0 pk B t s'"
    using d'(1)
  proof (rule authorize_cases)
    fix o' assume o': "get_row operation_pk (operations d) pk = Some o'" "running o'"
      and e: "d' = d\<lparr>operations := put_row operation_pk (o'\<lparr>authorized_cost := money_up (usd t)\<rparr>) (operations d)\<rparr>"
    have pk: "operation_pk o' = pk" using get_row_Some [OF o'(1)] by simp
    have "get_row operation_pk (operations d') pk = Some (o'\<lparr>authorized_cost := t\<rparr>)"
      using o'(1) get_row_Some [OF o'(1)] by (auto simp: e get_put_row)
    moreover have "reserved_cost o' = B" using h o' by (simp add: holds_authorized_def s)
    ultimately show ?thesis using re re' by (simp add: holds_authorized_def d'(2)) (simp add: e)
  qed
next
  fix a s q g s' assume h: "holds_authorized st s0 pk B a s"
    and g: "he_grant (ledger_env pk post loads u) q s = (g, s')" "g \<noteq> Granted"
  then have "s' = s" by (cases s) (auto simp: ledger_env_def split: sum.splits)
  then show "holds_authorized st s0 pk B a s'" using h by simp
next
  fix a s r reply s' assume h: "holds_authorized st s0 pk B a s" and p: "he_post (ledger_env pk post loads u) r s = (reply, s')"
  have "get_row operation_pk (operations (fst s)) pk \<noteq> None" using h by (auto simp: holds_authorized_def split: option.splits)
  then have "meanwhile st pk s (snd (post r s))" using sv unfolding served_def by blast
  moreover have "snd (post r s) = s'" using p by (simp add: ledger_env_def)
  ultimately show "holds_authorized st s0 pk B a s'" using holds_after [OF ok h] by simp
qed

section \<open>The views\<close>

record hosted_request =
  hq_user :: user_row
  hq_id :: nat
  hq_fingerprint :: ustr
  hq_job :: hosted_job

record hosted_world =
  hw_post :: "nat \<Rightarrow> provider_request \<Rightarrow> world \<Rightarrow> http_reply option \<times> world"
  hw_loads :: "bytes \<Rightarrow> loaded"
  hw_unicode :: unicode
  hw_rendered :: "(ustr \<times> pyval) list \<Rightarrow> usage_report \<Rightarrow> nat"
  hw_tick :: "time \<Rightarrow> nat \<Rightarrow> time"

datatype view_answer = Answered "(ustr \<times> pyval) list" usage_report | Repeated operation_row usage_report
  | Failed hosted_error usage_report | Crashed

definition stored_result :: "(ustr \<times> pyval) list \<Rightarrow> (ustr \<times> ustr) list" where
  "stored_result d = map (\<lambda>(k, v). (k, compact_json (\<lambda>_. []) v)) d"

definition is_dictation :: "hosted_job \<Rightarrow> bool" where
  "is_dictation job \<longleftrightarrow> (case job of Dictate _ _ _ _ _ \<Rightarrow> True | _ \<Rightarrow> False)"

definition job_ms :: "hosted_job \<Rightarrow> int" where
  "job_ms job = (case job of Dictate _ ms _ _ _ \<Rightarrow> ms | _ \<Rightarrow> 0)"

text \<open>
  \<^verbatim>\<open>processing_failure\<close>: the operation, if there is one, is settled. \<open>outcome\<close> is what the job had produced when
  its result turned out too large. An exception in here is not caught.
\<close>

definition failure_charge :: "hosted_job \<Rightarrow> hosted_error \<Rightarrow> outcome option \<Rightarrow> rat option \<times> int \<times> int \<times> bool" where
  "failure_charge job e produced = (case e of
     No_speech c \<Rightarrow> (Some c, 0, 0, False)
   | Snippet_too_large \<Rightarrow> (case produced of None \<Rightarrow> (None, 0, 0, False)
       | Some oc \<Rightarrow> (Some (oc_cost oc), oc_input oc, oc_output oc, oc_estimated oc))
   | Provider_failure c i p \<Rightarrow> if is_dictation job then (c, 0, 0, False) else (c, i, p, False)
   | _ \<Rightarrow> (None, 0, 0, False))"

definition failure_result :: "nat \<Rightarrow> hosted_error \<Rightarrow> (ustr \<times> ustr) list" where
  "failure_result opid e = (if e = Snippet_too_large
     then [(ulit ''code'', ulit ''snippet_result_too_large''), (ulit ''phase'', ulit ''processing''), (ulit ''operation_id'', digits_of opid)]
     else [])"

definition processing_failure ::
  "settings \<Rightarrow> hosted_world \<Rightarrow> hosted_request \<Rightarrow> nat option \<Rightarrow> hosted_error \<Rightarrow> outcome option \<Rightarrow> world \<Rightarrow> view_answer \<times> world" where
  "processing_failure st w q pk e produced s = (case s of (d, T) \<Rightarrow>
     let clk = hw_tick w T;
         settled = (case pk of None \<Rightarrow> Inr d | Some k \<Rightarrow>
           (case failure_charge (hq_job q) e produced of (cost, i, p, est) \<Rightarrow>
              settle k (failure_result (hq_id q) e) cost i p est (clk 0) d)) in
     case settled of Inl _ \<Rightarrow> (Crashed, (d, clk 0))
     | Inr d1 \<Rightarrow> (case usage st (user_pk (hq_user q)) (\<lambda>k. clk (Suc k)) d1 of (report, d2) \<Rightarrow> (Failed e report, (d2, clk 3))))"

text \<open>
  The end of a job that returned: under the admission lock the operation must still run, then it is settled; a
  response that is too large undoes that.
\<close>

definition result_bytes :: "outcome \<Rightarrow> string \<Rightarrow> nat option" where
  "result_bytes oc name = (case map_of (oc_result oc) (ulit name) of Some (PStr t) \<Rightarrow> utf8_len t | _ \<Rightarrow> None)"

definition result_check :: "outcome \<Rightarrow> hosted_error option" where
  "result_check oc = (if map_of (oc_result oc) (ulit ''snippet_expanded'') \<noteq> Some (PBool True) then None
     else (case result_bytes oc ''transcript'' of None \<Rightarrow> Some Unexpected
       | Some n \<Rightarrow> if 32768 < n then Some Snippet_too_large
           else (case result_bytes oc ''text'' of None \<Rightarrow> Some Unexpected
             | Some m \<Rightarrow> if 32768 < m then Some Snippet_too_large else None)))"

definition finish_request ::
  "settings \<Rightarrow> hosted_world \<Rightarrow> hosted_request \<Rightarrow> nat \<Rightarrow> outcome \<Rightarrow> world \<Rightarrow> view_answer \<times> world" where
  "finish_request st w q pk oc s = (case s of (d, T) \<Rightarrow>
     let clk = hw_tick w T; failed = (\<lambda>e produced. processing_failure st w q (Some pk) e produced (d, clk 1)) in
     if is_dictation (hq_job q) \<and> result_check oc \<noteq> None then failed (the (result_check oc)) (Some oc)
     else (case get_row operation_pk (operations d) pk of None \<Rightarrow> failed Unexpected None
       | Some current \<Rightarrow>
           if \<not> running current \<or> lease_until current \<le> clk 0 then failed (Refused (Rejected Operation_expired 410)) None
           else (case settle pk (stored_result (oc_result oc)) (Some (oc_cost oc)) (oc_input oc) (oc_output oc) (oc_estimated oc) (clk 1) d of
               Inl _ \<Rightarrow> failed Unexpected None
             | Inr d1 \<Rightarrow> (case usage st (user_pk (hq_user q)) (\<lambda>k. clk (k + 2)) d1 of (report, d2) \<Rightarrow>
                 if is_dictation (hq_job q) \<and> 393216 < hw_rendered w (oc_result oc) report
                 then processing_failure st w q (Some pk) Snippet_too_large (Some oc) (d, clk 4)
                 else (Answered (oc_result oc) report, (d2, clk 4))))))"

definition handle_request :: "settings \<Rightarrow> hosted_world \<Rightarrow> hosted_request \<Rightarrow> world \<Rightarrow> view_answer \<times> world" where
  "handle_request st w q s = (case s of (d, T) \<Rightarrow>
     let clk = hw_tick w T in
     case reserve st (hq_user q) (hq_id q) (hq_fingerprint q) (job_ms (hq_job q)) (\<not> is_dictation (hq_job q)) clk d of
       Inl _ \<Rightarrow> processing_failure st w q None Unexpected None (d, clk 4)
     | Inr (d1, Inl r) \<Rightarrow> processing_failure st w q None (Refused r) None (d1, clk 4)
     | Inr (d1, Inr (o', fresh)) \<Rightarrow>
         if \<not> fresh then
           (case usage st (user_pk (hq_user q)) (\<lambda>k. clk (k + 4)) d1 of (report, d2) \<Rightarrow> (Repeated o' report, (d2, clk 6)))
         else let pk = operation_pk o' in
           (case run_job (ledger_env pk (hw_post w pk) (hw_loads w) (hw_unicode w)) (hq_job q) (usd (reserved_cost o')) (d1, clk 4) of
             (Inl e, s2) \<Rightarrow> processing_failure st w q (Some pk) e None s2
           | (Inr oc, s2) \<Rightarrow> finish_request st w q pk oc s2))"

section \<open>Every request ends settled\<close>

definition settled_row :: "int \<Rightarrow> nat \<Rightarrow> db \<Rightarrow> bool" where
  "settled_row B pk d \<longleftrightarrow> (case get_row operation_pk (operations d) pk of None \<Rightarrow> False
     | Some r \<Rightarrow> \<not> running r \<and> reserved_cost r = B)"

definition payable :: "int \<Rightarrow> rat option \<Rightarrow> bool" where
  "payable a cost \<longleftrightarrow> (case cost of None \<Rightarrow> True | Some c \<Rightarrow> 0 \<le> c \<and> c \<le> usd a)"

lemma money_up_between: "0 \<le> c \<Longrightarrow> c \<le> usd a \<Longrightarrow> 0 \<le> money_up c \<and> money_up c \<le> a"
  by (simp add: money_up_def quantize_up_def usd_def ceiling_le_iff field_simps)

lemma settle_final:
  assumes ok: "settings_ok st" "service_inv st s0" and h: "holds_authorized st s0 pk B a (d, T)"
    and t: "T \<le> t" and c: "payable a cost"
  obtains d' where "settle pk res cost i p est t d = Inr d'" "settled_row B pk d'" "reach st (d, T) (d', t)"
    "\<forall>r r'. get_row operation_pk (operations d) pk = Some r \<and> running r
      \<and> get_row operation_pk (operations d') pk = Some r' \<longrightarrow> operation_result r' = res"
proof -
  obtain o' where o': "get_row operation_pk (operations d) pk = Some o'" "reserved_cost o' = B" "running o' \<longrightarrow> authorized_cost o' = a"
    and re: "reach st s0 (d, T)"
    using h by (auto simp: holds_authorized_def split: option.splits)
  have inv: "ledger_inv d t" using service_invI(1) [OF reach_inv [OF re ok] t] .
  show thesis
  proof (cases "running o'")
    case False
    then have s: "settle pk res cost i p est t d = Inr d" using o'(1) by (simp add: settle_def settle_locked_def)
    show thesis
      by (rule that [OF s]) (use False o' reach_step [OF service_step.settle [OF t s]] in \<open>auto simp: settled_row_def\<close>)
  next
    case True
    have op: "op_ok d o'" by (rule ledger_op_ok [OF inv]) (use get_row_Some [OF o'(1)] in simp)
    have "case cost of None \<Rightarrow> True | Some c \<Rightarrow> 0 \<le> money_up c \<and> money_up c \<le> reserved_cost o'"
      using c money_up_between o' True op by (fastforce simp: payable_def op_ok_def split: option.splits)
    from settle_succeeds [OF inv o'(1) True this, of res i p est] obtain d' o1 where s: "settle pk res cost i p est t d = Inr d'"
      and o1: "get_row operation_pk (operations d') pk = Some o1" "operation_state o1 = (if res \<noteq> [] then Complete else Uncertain)"
        "operation_result o1 = res" by metis
    have "reserved_cost o1 = B" using inv s
    proof (cases rule: settle_cases)
      case (settled o2 c)
      then have "o2 = o'" using o'(1) by simp
      then show ?thesis using o1(1) o'(2) settled(1) get_row_Some [OF o'(1)] by (auto simp: settled(7) get_put_row)
    qed (use o'(1) True in simp)
    moreover have "\<not> running o1" using o1(2) by (simp split: if_splits)
    ultimately show thesis
      by (intro that [OF s]) (use o1 reach_step [OF service_step.settle [OF t s]] in \<open>simp_all add: settled_row_def\<close>)
  qed
qed

lemma usage_after:
  assumes "usage st user clk d = (report, d')" "clock_from T clk"
  shows "reach st (d, T) (d', clk 2)" "operations d' = operations d"
proof -
  show "reach st (d, T) (d', clk 2)" by (rule reach_step [OF service_step.usage [OF assms(2,1)]])
  obtain q p s d1 where ql: "quota_locked (iexact st) user (clk 0) d = (q, p, s, d1)"
    by (cases "quota_locked (iexact st) user (clk 0) d")
  have "d' = d1" using assms(1) ql by (auto simp: usage_def Let_def split: prod.splits)
  then show "operations d' = operations d" using quota_locked_frame [OF ql] by simp
qed

lemma clock_later: "clock_from T clk \<Longrightarrow> clock_from (clk k) (\<lambda>j. clk (j + k))"
  by (simp add: clock_from_def)

lemma reach_raised: "T \<le> t \<Longrightarrow> reach st (d, T) (d, t)"
  by (rule reach_step [OF service_step.raised])

lemma failure_ends:
  assumes ok: "settings_ok st" "service_inv st s0" and h: "holds_authorized st s0 pk B a (d, T)" and ck: "clock_from T (hw_tick w T)"
    and c: "payable a (fst (failure_charge (hq_job q) e produced))"
    and run: "processing_failure st w q (Some pk) e produced (d, T) = (ans, (d', T'))"
  shows "ans \<noteq> Crashed \<and> (\<forall>r u. ans \<noteq> Answered r u) \<and> reach st (d, T) (d', T') \<and> settled_row B pk d'"
proof -
  let ?clk = "hw_tick w T"
  obtain cost i p est where fc: "failure_charge (hq_job q) e produced = (cost, i, p, est)" by (cases "failure_charge (hq_job q) e produced")
  have t: "T \<le> ?clk 0" using ck by (simp add: clock_from_def)
  have c: "payable a cost" using c fc by simp
  obtain d1 where s: "settle pk (failure_result (hq_id q) e) cost i p est (?clk 0) d = Inr d1" "settled_row B pk d1" "reach st (d, T) (d1, ?clk 0)"
    by (rule settle_final [OF ok h t c, of "failure_result (hq_id q) e" i p est])
  obtain report d2 where u: "usage st (user_pk (hq_user q)) (\<lambda>k. ?clk (Suc k)) d1 = (report, d2)" by fastforce
  have "clock_from (?clk 0) (\<lambda>k. ?clk (Suc k))" using ck by (auto simp: clock_from_def)
  note us = usage_after [OF u this]
  have "ans = Failed e report \<and> d' = d2 \<and> T' = ?clk 3"
    using run by (simp add: processing_failure_def Let_def fc s(1) u eval_nat_numeral)
  moreover have "reach st (d, T) (d2, ?clk 3)" using reach_trans [OF s(3) us(1)] by (simp add: eval_nat_numeral)
  moreover have "settled_row B pk d2" using s(2) us(2) by (simp add: settled_row_def)
  ultimately show ?thesis by simp
qed

lemma failed_charge_payable:
  "charge_covered a (Inl e) \<Longrightarrow> payable a (fst (failure_charge job e None))"
  "charge_covered a (Inr oc) \<Longrightarrow> e = Snippet_too_large \<or> e = Unexpected \<or> e = Refused r \<Longrightarrow> payable a (fst (failure_charge job e (Some oc)))"
  "e = Unexpected \<or> e = Refused r \<Longrightarrow> payable a (fst (failure_charge job e None))"
  by (auto simp: charge_covered_def Let_def failure_charge_def payable_def split: hosted_error.splits option.splits)

lemma holds_later:
  assumes "holds_authorized st s0 pk B a (d, T)" "T \<le> t"
  shows "holds_authorized st s0 pk B a (d, t)"
  using assms reach_trans [OF _ reach_raised [OF assms(2)]] by (auto simp: holds_authorized_def)

lemma finish_ends:
  assumes ok: "settings_ok st" "service_inv st s0" and h: "holds_authorized st s0 pk B a (d, T)" and ck: "\<And>T. clock_from T (hw_tick w T)"
    and c: "charge_covered a (Inr oc)"
    and run: "finish_request st w q pk oc (d, T) = (ans, (d', T'))"
  shows "ans \<noteq> Crashed \<and> reach st (d, T) (d', T') \<and> settled_row B pk d'
    \<and> (\<forall>result u. ans = Answered result u \<longrightarrow> result = oc_result oc
        \<and> (\<forall>r. get_row operation_pk (operations d') pk = Some r \<longrightarrow> operation_result r = stored_result result))"
proof -
  let ?clk = "hw_tick w T"
  have t: "T \<le> ?clk 0" "T \<le> ?clk 1" "T \<le> ?clk 4" using clock_from_mono [OF ck, of _ _ T] by auto
  note h1 = holds_later [OF h t(2)] and h4 = holds_later [OF h t(3)]
  have failed: ?thesis if f: "processing_failure st w q (Some pk) e produced (d, t') = (ans, (d', T'))"
    and p: "payable a (fst (failure_charge (hq_job q) e produced))" and t': "t' = ?clk 1 \<or> t' = ?clk 4" for e produced t'
  proof -
    have ht: "holds_authorized st s0 pk B a (d, t')" "T \<le> t'" using t' h1 h4 t by auto
    note fe = failure_ends [OF ok ht(1) ck p f]
    then show ?thesis using reach_trans [OF reach_raised [OF ht(2)], of st d "(d', T')"] by auto
  qed
  have oc: "payable a (Some (oc_cost oc))" using c by (simp add: charge_covered_def payable_def)
  note run' = run [unfolded finish_request_def Let_def prod.case]
  show ?thesis
  proof (cases "is_dictation (hq_job q) \<and> result_check oc \<noteq> None")
    case True
    then have "the (result_check oc) = Snippet_too_large \<or> the (result_check oc) = Unexpected"
      by (auto simp: result_check_def split: if_splits option.splits)
    from failed [OF run' [unfolded if_P [OF True]] failed_charge_payable(2) [OF c]] this show ?thesis by blast
  next
    case False
    note run2 = run' [unfolded if_not_P [OF False]]
    obtain current where cur: "get_row operation_pk (operations d) pk = Some current"
      using h by (auto simp: holds_authorized_def split: option.splits)
    show ?thesis
    proof (cases "\<not> running current \<or> lease_until current \<le> ?clk 0")
      case True
      from failed [OF run2 [unfolded cur option.case if_P [OF True]] failed_charge_payable(3)] show ?thesis by blast
    next
      case False
      note run3 = run2 [unfolded cur option.case if_not_P [OF False]]
      obtain d1 where s: "settle pk (stored_result (oc_result oc)) (Some (oc_cost oc)) (oc_input oc) (oc_output oc) (oc_estimated oc) (?clk 1) d = Inr d1"
        "settled_row B pk d1" "reach st (d, T) (d1, ?clk 1)"
        and res: "\<forall>r r'. get_row operation_pk (operations d) pk = Some r \<and> running r
          \<and> get_row operation_pk (operations d1) pk = Some r' \<longrightarrow> operation_result r' = stored_result (oc_result oc)"
        by (rule settle_final [OF ok h t(2) oc, of "stored_result (oc_result oc)" "oc_input oc" "oc_output oc" "oc_estimated oc"])
      obtain report d2 where u: "usage st (user_pk (hq_user q)) (\<lambda>k. ?clk (k + 2)) d1 = (report, d2)" by fastforce
      have "clock_from (?clk 1) (\<lambda>k. ?clk (k + 2))" using ck [of T] by (simp add: clock_from_def numeral_2_eq_2)
      note us = usage_after [OF u this]
      note run4 = run3 [unfolded s(1) sum.case u prod.case]
      show ?thesis
      proof (cases "is_dictation (hq_job q) \<and> 393216 < hw_rendered w (oc_result oc) report")
        case True
        from failed [OF run4 [unfolded if_P [OF True]] failed_charge_payable(2) [OF c]] show ?thesis by blast
      next
        case no: False
        have a: "ans = Answered (oc_result oc) report" "d' = d2" "T' = ?clk 4" using run4 [unfolded if_not_P [OF no]] by auto
        have "reach st (d, T) (d2, ?clk 4)" using reach_trans [OF s(3) us(1)] by (simp add: eval_nat_numeral)
        then show ?thesis using a s(2) us(2) res cur False by (auto simp: settled_row_def)
      qed
    qed
  qed
qed

lemma no_operation_ends:
  assumes ck: "clock_from T (hw_tick w T)" and run: "processing_failure st w q None e None (d, T) = (ans, (d', T'))"
  shows "ans \<noteq> Crashed \<and> (\<forall>r u. ans \<noteq> Answered r u) \<and> reach st (d, T) (d', T')"
proof -
  let ?clk = "hw_tick w T"
  obtain report d2 where u: "usage st (user_pk (hq_user q)) (\<lambda>k. ?clk (Suc k)) d = (report, d2)" by fastforce
  have "clock_from T (\<lambda>k. ?clk (Suc k))" using clock_from_mono [OF ck, of 1 1] ck by (simp add: clock_from_def)
  note us = usage_after [OF u this]
  have "ans = Failed e report \<and> d' = d2 \<and> T' = ?clk 3"
    using run by (simp add: processing_failure_def Let_def u eval_nat_numeral)
  then show ?thesis using us by (simp add: eval_nat_numeral)
qed

lemma reserve_unauthorized:
  assumes "reserve st u opid fp ms txt clk d = Inr (d1, Inr (o', True))"
  shows "authorized_cost o' = 0"
proof -
  obtain d0 where "reserve_locked st (user_pk u) opid fp ms txt clk d0 = Inr ((o', True), d1)"
    using assms by (auto simp: reserve_def split: if_splits sum.splits prod.splits)
  then show ?thesis
  proof (cases rule: reserve_locked_cases)
    case (admitted q p s d2)
    from admitted(6) show ?thesis by (rule admit_cases) (simp add: new_operation_def)
  qed simp
qed

lemma admitted_holds:
  assumes ok: "settings_ok st" "service_inv st (d, T)" and ck: "clock_from T clk"
    and r: "reserve st u opid fp ms txt clk d = Inr (d1, Inr (o', True))"
  shows "holds_authorized st (d, T) (operation_pk o') (reserved_cost o') 0 (d1, clk 4)"
    "0 \<le> reserved_cost o'" "reserved_cost o' \<le> 20000000"
proof -
  have "\<exists>d0 :: db. running o' \<and> operations d1 = operations d0 @ [o'] \<and> reserved_cost o' \<le> 20000000"
    by (rule reserve_fresh [OF ok(2) ck ok(1) r]) blast
  then obtain d0 :: db where f: "running o'" "operations d1 = operations d0 @ [o']" "reserved_cost o' \<le> 20000000" by blast
  have st: "service_step st (d, T) (Reserve u opid fp ms txt) (d1, clk 4)" by (rule service_step.reserve [OF ck r])
  have inv: "service_inv st (d1, clk 4)" by (rule reserve_service [OF ok(2) ck ok(1) r])
  then have l: "ledger_inv d1 (clk 4)" by (simp add: service_inv_def)
  have mem: "o' \<in> set (operations d1)" using f(2) by simp
  have g: "get_row operation_pk (operations d1) (operation_pk o') = Some o'"
    by (rule get_row_keyed [OF _ mem]) (use l in \<open>simp add: ledger_defs\<close>)
  have op: "op_ok d1 o'" by (rule ledger_op_ok [OF l mem])
  have a0: "authorized_cost o' = 0" by (rule reserve_unauthorized [OF r])
  show "holds_authorized st (d, T) (operation_pk o') (reserved_cost o') 0 (d1, clk 4)"
    using reach_step [OF st] g a0 op by (simp add: holds_authorized_def op_ok_def)
  show "0 \<le> reserved_cost o'" "reserved_cost o' \<le> 20000000" using op f(3) by (simp_all add: op_ok_def)
qed

lemma request_ends:
  assumes ok: "settings_ok st" "service_inv st (d, T)" and ck: "\<And>T. clock_from T (hw_tick w T)"
    and sv: "\<And>pk. served st pk (hw_post w pk)"
    and run: "handle_request st w q (d, T) = (ans, (d', T'))"
  shows "ans \<noteq> Crashed \<and> reach st (d, T) (d', T') \<and>
    (\<forall>d1 o'. reserve st (hq_user q) (hq_id q) (hq_fingerprint q) (job_ms (hq_job q)) (\<not> is_dictation (hq_job q)) (hw_tick w T) d
        = Inr (d1, Inr (o', True)) \<longrightarrow> settled_row (reserved_cost o') (operation_pk o') d'
      \<and> (\<forall>result u. ans = Answered result u \<longrightarrow>
          (\<forall>r. get_row operation_pk (operations d') (operation_pk o') = Some r \<longrightarrow> operation_result r = stored_result result)))"
proof -
  let ?clk = "hw_tick w T"
  let ?res = "reserve st (hq_user q) (hq_id q) (hq_fingerprint q) (job_ms (hq_job q)) (\<not> is_dictation (hq_job q)) ?clk d"
  have t: "T \<le> ?clk 4" using clock_from_mono [OF ck, of 4 4 T] by auto
  note run' = run [unfolded handle_request_def Let_def prod.case]
  show ?thesis
  proof (cases ?res)
    case (Inl e)
    note n = no_operation_ends [OF ck run' [unfolded Inl sum.case]]
    then show ?thesis using Inl reach_trans [OF reach_raised [OF t], of st d "(d', T')"] by auto
  next
    case (Inr x)
    obtain d1 y where x: "x = (d1, y)" by fastforce
    have st: "reach st (d, T) (d1, ?clk 4)"
      by (rule reach_step [OF service_step.reserve [OF ck Inr [unfolded x]]])
    note run2 = run' [unfolded Inr x sum.case prod.case]
    show ?thesis
    proof (cases y)
      case (Inl r)
      note n = no_operation_ends [OF ck run2 [unfolded Inl sum.case]]
      then show ?thesis using Inl Inr x reach_trans [OF st, of "(d', T')"] by auto
    next
      case y: (Inr z)
      obtain o' fresh where z: "z = (o', fresh)" by fastforce
      note run3 = run2 [unfolded y z sum.case prod.case]
      show ?thesis
      proof (cases fresh)
        case False
        obtain report d2 where u: "usage st (user_pk (hq_user q)) (\<lambda>k. ?clk (k + 4)) d1 = (report, d2)" by fastforce
        note us = usage_after [OF u clock_later [OF ck]]
        have "ans = Repeated o' report" "d' = d2" "T' = ?clk 6" using run3 False u by auto
        then show ?thesis using us reach_trans [OF st us(1)] Inr x y z False by simp
      next
        case True
        have fr: "fresh = True" using True by simp
        note ad = admitted_holds [OF ok ck Inr [unfolded x y z fr]]
        let ?env = "ledger_env (operation_pk o') (hw_post w (operation_pk o')) (hw_loads w) (hw_unicode w)"
        obtain res s2 where j: "run_job ?env (hq_job q) (usd (reserved_cost o')) (d1, ?clk 4) = (res, s2)"
          by (rule prod.exhaust)
        obtain d2 T2 where s2: "s2 = (d2, T2)" by fastforce
        have B: "reserved_cost o' < 10 ^ 27" using ad(3) by simp
        obtain a where a: "holds_authorized st (d, T) (operation_pk o') (reserved_cost o') a (d2, T2)" "charge_covered a res"
          using hosted_account.job_covered [OF ledger_account [OF ok sv] j ad(1,2) B] s2 by blast
        have re: "reach st (d, T) (d2, T2)" using a(1) by (simp add: holds_authorized_def)
        have goal: "ans \<noteq> Crashed \<and> reach st (d2, T2) (d', T') \<and> settled_row (reserved_cost o') (operation_pk o') d'
          \<and> (\<forall>result u. ans = Answered result u \<longrightarrow>
              (\<forall>r. get_row operation_pk (operations d') (operation_pk o') = Some r \<longrightarrow> operation_result r = stored_result result))"
        proof (cases res)
          case (Inl e)
          have "processing_failure st w q (Some (operation_pk o')) e None (d2, T2) = (ans, (d', T'))"
            using run3 True j by (simp add: Inl s2)
          from failure_ends [OF ok a(1) ck _ this] failed_charge_payable(1) [OF a(2) [unfolded Inl]] show ?thesis by blast
        next
          case (Inr oc)
          have "finish_request st w q (operation_pk o') oc (d2, T2) = (ans, (d', T'))"
            using run3 True j by (simp add: Inr s2)
          from finish_ends [OF ok a(1) ck a(2) [unfolded Inr] this] show ?thesis by blast
        qed
        then show ?thesis using reach_trans [OF re, of "(d', T')"] Inr x y z True by auto
      qed
    qed
  qed
qed

section \<open>The properties\<close>

text \<open>
  C5. Whatever the provider answers and whatever the ledger allows, a hosted job (dictation, rewrite or text action)
  sends no request before an authorization, its authorizations never shrink and never exceed its budget, and what it
  finally charges, in its outcome or in the failure it reports, is at most what it was last authorized to spend.
\<close>

theorem hosted_calls_authorized:
  assumes "run_job (traced allow reply loads u) job (usd B) [] = (res, calls)" "0 \<le> B" "B < 10 ^ 27"
  shows "\<exists>a. paid_trace B 0 a calls \<and> 0 \<le> a \<and> a \<le> B \<and> charge_covered a res"
  by (rule traced.job_covered [OF assms(1) _ assms(2,3)]) simp

definition demo_options :: dictation_options where
  "demo_options = \<lparr>do_level = None, do_style = None, do_target = None, do_language = ulit ''auto'', do_action = None,
     do_action_language = ulit ''auto''\<rparr>"

lemma hosted_calls_authorized_witness:
  "\<exists>res calls a. run_job (traced (\<lambda>_ _. Granted) (\<lambda>_ _. None) (\<lambda>_. Not_json) ascii_unicode)
      (Dictate [1, 2] 5000 [] [] demo_options) (usd 1000000) [] = (res, calls)
    \<and> paid_trace 1000000 0 a calls \<and> 0 \<le> a \<and> a \<le> 1000000 \<and> charge_covered a res"
proof -
  obtain res calls where run: "run_job (traced (\<lambda>_ _. Granted) (\<lambda>_ _. None) (\<lambda>_. Not_json) ascii_unicode)
      (Dictate [1, 2] 5000 [] [] demo_options) (usd 1000000) [] = (res, calls)"
    by (rule prod.exhaust)
  show ?thesis using hosted_calls_authorized [OF run] run by (intro exI [of _ res] exI [of _ calls]) simp
qed

text \<open>
  C4. A processing request on any state the service can reach never crashes and leaves a reachable state, whatever
  else the service does while the provider answers. If it was admitted, its operation ends settled, charged between
  nothing and its reservation; and if the request is answered, with the answered result stored for a replay.
\<close>

theorem hosted_request_settles:
  assumes "fresh_service st s0" "run_of (service_step st) s0 es (d, T)"
    and "\<forall>T. clock_from T (hw_tick w T)" "\<forall>pk. served st pk (hw_post w pk)"
    and "handle_request st w q (d, T) = (ans, (d', T'))"
  shows "ans \<noteq> Crashed \<and> (\<exists>es'. run_of (service_step st) s0 es' (d', T'))
    \<and> (\<forall>d1 o'. reserve st (hq_user q) (hq_id q) (hq_fingerprint q) (job_ms (hq_job q)) (\<not> is_dictation (hq_job q)) (hw_tick w T) d
          = Inr (d1, Inr (o', True)) \<longrightarrow>
        (\<exists>r. get_row operation_pk (operations d') (operation_pk o') = Some r \<and> \<not> running r
          \<and> 0 \<le> operation_cost r \<and> operation_cost r \<le> reserved_cost o'
          \<and> (\<forall>result report. ans = Answered result report \<longrightarrow> operation_result r = stored_result result)))"
proof -
  note ok = reachable_service(5,6) [OF assms(1,2)]
  note e = request_ends [OF ok assms(3) [rule_format] assms(4) [rule_format] assms(5)]
  then have re: "reach st (d, T) (d', T')" by blast
  have l: "ledger_inv d' T'" using reach_inv [OF re ok] by (simp add: service_inv_def)
  have ex: "\<exists>es'. run_of (service_step st) s0 es' (d', T')"
    using re assms(2) by (auto simp: reach_def intro: run_of_append)
  have paid: "0 \<le> operation_cost r \<and> operation_cost r \<le> reserved_cost r"
    if "get_row operation_pk (operations d') pk = Some r" for pk r
    using ledger_op_ok [OF l] get_row_Some [OF that] by (auto simp: op_ok_def)
  show ?thesis
  proof (intro conjI allI impI)
    fix d1 o' assume r: "reserve st (hq_user q) (hq_id q) (hq_fingerprint q) (job_ms (hq_job q)) (\<not> is_dictation (hq_job q)) (hw_tick w T) d
          = Inr (d1, Inr (o', True))"
    then have "settled_row (reserved_cost o') (operation_pk o') d'"
      and res: "\<And>result u r. ans = Answered result u \<Longrightarrow>
          get_row operation_pk (operations d') (operation_pk o') = Some r \<Longrightarrow> operation_result r = stored_result result"
      using e by blast+
    then obtain x where x: "get_row operation_pk (operations d') (operation_pk o') = Some x" "\<not> running x" "reserved_cost x = reserved_cost o'"
      by (auto simp: settled_row_def split: option.splits)
    then show "\<exists>r. get_row operation_pk (operations d') (operation_pk o') = Some r \<and> \<not> running r
          \<and> 0 \<le> operation_cost r \<and> operation_cost r \<le> reserved_cost o'
          \<and> (\<forall>result report. ans = Answered result report \<longrightarrow> operation_result r = stored_result result)"
      using paid [OF x(1)] x res by (intro exI [of _ x]) simp
  qed (use e ex in auto)
qed

definition hosted_demo :: hosted_request where
  "hosted_demo = \<lparr>hq_user = demo_user, hq_id = 1, hq_fingerprint = ulit ''f'',
     hq_job = Dictate [1, 2] 5000 [] [] demo_options\<rparr>"

definition demo_world :: hosted_world where
  "demo_world = \<lparr>hw_post = \<lambda>_ _ s. (None, s), hw_loads = \<lambda>_. Not_json, hw_unicode = ascii_unicode,
     hw_rendered = \<lambda>_ _. 0, hw_tick = \<lambda>T. if T = 1749513600000000 then demo_clk else (\<lambda>_. T)\<rparr>"

lemma hosted_request_settles_witness:
  "\<exists>ans d' T' r. handle_request demo_settings demo_world hosted_demo (demo_week, 1749513600000000) = (ans, (d', T'))
    \<and> ans \<noteq> Crashed \<and> get_row operation_pk (operations d') 1 = Some r \<and> \<not> running r
    \<and> 0 \<le> operation_cost r \<and> operation_cost r \<le> 20000000"
proof -
  obtain ans s where "handle_request demo_settings demo_world hosted_demo (demo_week, 1749513600000000) = (ans, s)"
    by (rule prod.exhaust)
  moreover obtain d' T' where "s = (d', T')" by (rule prod.exhaust)
  ultimately have run: "handle_request demo_settings demo_world hosted_demo (demo_week, 1749513600000000) = (ans, (d', T'))"
    by simp
  have tick: "\<forall>T. clock_from T (hw_tick demo_world T)"
    using demo_clock by (simp add: demo_world_def clock_from_def)
  have served: "\<forall>pk. served demo_settings pk (hw_post demo_world pk)"
    by (auto simp: served_def demo_world_def meanwhile_def intro: run_of.intros exI [of _ "[]"])
  have clk: "hw_tick demo_world 1749513600000000 = demo_clk" by (simp add: demo_world_def)
  have q: "hq_user hosted_demo = demo_user" "hq_id hosted_demo = 1" "hq_fingerprint hosted_demo = ulit ''f''"
    "job_ms (hq_job hosted_demo) = 5000" "\<not> is_dictation (hq_job hosted_demo) \<longleftrightarrow> False"
    by (simp_all add: hosted_demo_def job_ms_def is_dictation_def)
  note s = hosted_request_settles [OF demo_fresh demo_run_week tick served run, unfolded q clk]
  have "operation_pk demo_operation = 1" "reserved_cost demo_operation = 20000000" by (simp_all add: demo_operation_def)
  then have "\<exists>r. get_row operation_pk (operations d') 1 = Some r \<and> \<not> running r \<and> 0 \<le> operation_cost r \<and> operation_cost r \<le> 20000000"
    using s demo_reserve by auto
  then show ?thesis using run s by blast
qed

end
