(* ===== verification/Spec2Isabelle.thy ===== *)
theory Spec2Isabelle
  imports Scenario Policies History_Service Relay_Budget Relay_Server Relay_Switchboard Snippet_Expansion Vocabulary
    Text_Actions Account_Documents Account_Sync Update_Security Recording_Activation Hosted_Requests
begin

text \<open>
  Clarify is a dictation program: a desktop application that records, transcribes, rewrites and pastes
  text, and a Django service that gives signed-in accounts a funded allowance of hosted processing and
  keeps their history, dictionary, snippets and text actions in step across devices. A third program,
  the relay, lets a phone reach the owner's computer. This development models the parts that decide
  about money, limits, shared state, identity and text; its theories follow the Python modules.

  \<^bold>\<open>Shared ground.\<close> \<open>Prelude\<close> has Python text as code points (a lone surrogate cannot be
  encoded), tables as keyed lists, runs of a step relation, and the locale \<open>stateful_component\<close> that turns a one-step
  invariant into one of every reachable state; each state machine below interprets it. \<open>Py_Value\<close> has the
  values that cross a JSON boundary, with Python's types kept apart; \<open>Codecs\<close> reads and writes UTF-8,
  base64 and JSON; \<open>Py_Decimal\<close> has \<^verbatim>\<open>decimal\<close> with 28 digits; \<open>Calendar\<close> has dates from days.

  \<^bold>\<open>Money\<close> (\<^verbatim>\<open>server/cloud/service\<close>: \<^verbatim>\<open>funding.py\<close>, \<^verbatim>\<open>ledger.py\<close>, \<^verbatim>\<open>models.py\<close>, parts of \<^verbatim>\<open>api.py\<close> and
  \<^verbatim>\<open>maintenance.py\<close>). \<open>Server_Models\<close> are the tables; \<open>Funding\<close> the treasury, the journal, weekly distributions and
  newcomer grants; \<open>Ledger\<close> admission, authorization, settlement and lease expiry of an operation. Amounts
  are the stored decimals as integers of their last digit; a transaction that raises leaves the database as it
  was. \<open>Funding_Safety\<close> and \<open>Ledger_Safety\<close> prove one lemma per operation for the books, the solvency, the reservations and
  the caps; \<open>Service\<close> interleaves all operations of all accounts under a clock that does not run backwards;
  \<open>Scenario\<close> is one concrete run for the witnesses. \<open>Hosted_Processing\<close> is \<^verbatim>\<open>groq.py\<close>: a dictation, rewrite or text action
  planned within its reservation, with the provider behind it. \<open>Hosted_Costs\<close> shows, over the locale \<open>hosted_account\<close>, that
  it never spends more than it was authorized to; \<open>Hosted_Requests\<close> interprets that locale on the ledger while the rest of the
  service runs on, and follows a request of \<^verbatim>\<open>api.py\<close> from its reservation to its settlement. The 28 digits of the decimal context are enough: while the
  cash and the configured limits stay below \<open>10 ^ 18\<close> dollars (\<open>cash_bound\<close>, \<open>settings_ok\<close>) every sum is exact.

  \<^bold>\<open>Policies\<close> (\<^verbatim>\<open>shared\<close>: \<^verbatim>\<open>dictation_policy.py\<close>, \<^verbatim>\<open>output_preferences.py\<close>, \<^verbatim>\<open>writing_style_policy.py\<close>,
  \<^verbatim>\<open>processing_contract.py\<close>, \<^verbatim>\<open>rewrite_prompts.py\<close>). \<open>Policies\<close> and \<open>Prompts\<close>: cleanup of a transcript, choices with their
  fallbacks, capabilities, and the texts of the prompts.

  \<^bold>\<open>History.\<close> \<open>History_Service\<close> is \<^verbatim>\<open>server/cloud/service/history.py\<close>: validation, revisions, tombstones, clears, capacity and pages,
  with an abstract client that converges. \<open>Account_History\<close> is the device's cache, \<^verbatim>\<open>account_history.py\<close>; \<open>Account_Sync\<close> runs the
  two together with other devices, lost messages and local changes, and shows that the device accepts what the
  service sends, the service accepts what the device sends, deletions stay, and both agree when a synchronization ends.

  \<^bold>\<open>The account's documents\<close> (\<^verbatim>\<open>server/cloud/service/text_actions.py\<close>, \<^verbatim>\<open>api.py\<close>). \<open>Text_Library\<close> has the versioned text
  actions; \<open>Account_Documents\<close> states optimistic replacement once, as the locale \<open>versioned_document\<close>, and interprets it
  on the dictionary, the snippets and the text actions.

  \<^bold>\<open>The device\<close> (\<^verbatim>\<open>dictionary_snippets.py\<close>, \<^verbatim>\<open>hotkey_config.py\<close>, \<^verbatim>\<open>text_actions.py\<close>, \<^verbatim>\<open>workflow_config.py\<close>,
  \<^verbatim>\<open>update_security.py\<close>). \<open>Dictionary\<close>: the
  validated library and its file; \<open>Snippet_Expansion\<close>: the trie walk, equal to a linear scan of the rules;
  \<open>Vocabulary\<close>: hints for transcription; \<open>Hotkeys\<close>: shortcuts, their collisions and the settings draft;
  \<open>Text_Actions\<close> and \<open>Workflow_Routes\<close>: settings of text actions, profiles and routes with their migrations.
  \<open>Recording_Activation\<close> is the \<^verbatim>\<open>RecordingActivationController\<close>, its critical sections interleaved over any number of
  threads. \<open>Update_Security\<close> is \<^verbatim>\<open>update_security.py\<close>: policy, manifest, downloads, signatures and the start of an installer, with
  PowerShell, SignTool, \<^verbatim>\<open>expand.exe\<close> and the network as parameters.

  \<^bold>\<open>The relay\<close> (\<^verbatim>\<open>computer_relay_protocol.py\<close>, \<^verbatim>\<open>computer_relay_server.py\<close>). \<open>Relay_Protocol\<close>: frames, tokens and signed
  challenges; \<open>Relay_Budget\<close>: the monthly cap on bytes, paid before they are sent and kept in a database across
  restarts; \<open>Relay_Server\<close>: admission of sockets; \<open>Relay_Switchboard\<close>: tunnels, streams and attachments.

  \<^bold>\<open>Bounds and fuel.\<close> Python's integers are \<open>int\<close>, times are whole microseconds, floats that cross
  JSON are exact rationals whose rendering is the parameter \<open>frepr\<close>. The JSON reader takes fuel
  \<open>2 * length + 1\<close>, which is proved enough for every text the writer produces. Loops over text and tries
  terminate by the length that is left.

  \<^bold>\<open>Parameters.\<close> Unicode tables (normalization, case, white space beyond the listed code points), \<^verbatim>\<open>str()\<close> of values,
  signatures and hashes, the JSON renderer of the web framework, UUIDs and float rendering are not code of the
  repository: they are arguments, and the laws a theorem uses of them are its hypotheses.
  \<open>Account_Sync\<close> assumes that a request the device has given up on is not processed later, and that random
  identifiers are fresh. Without the first, a late upload could bring back a record after a clear. \<open>Hosted_Requests\<close>
  takes the provider, the JSON reader, the renderer and the readings of the clock as arguments; it assumes that the row
  of an operation is not purged during its calls, which the month that rows are kept implies.

  \<^bold>\<open>Not modelled.\<close> User interfaces (\<^verbatim>\<open>app.py\<close>, \<^verbatim>\<open>clarify/desktop\<close>, audio, microphone and clipboard code), bindings to
  Windows, local models and their processes, HTTP adapters of the providers on the
  device, parsing of request forms and decoding of audio, sign-in (which rests on a package
  whose code is not here), public finance pages and analytics, portable updates, build, release and
  signing scripts, and the mobile application in Swift. They are input and output around the parts above or calls into
  libraries whose behaviour is not in the repository.
\<close>

section \<open>The account service\<close>

text \<open>
  C1. Solvency. In every state the account service can reach, whatever the order of receipts,
  expenses, distributions, admissions, authorizations, settlements, lease expiries, account
  deletions and maintenance, the processing basis of the receipts equals the received cash that
  operating entries have not taken, and the cash covers every charge, every reservation, every open
  weekly grant and the newcomer pool.
\<close>

theorem service_always_solvent:
  assumes "fresh_service st s" "run_of (service_step st) s es (d, T)"
  shows "books_balance d T \<and> solvent d T"
  using reachable_service(1) [OF assms] by (simp add: ledger_inv_def fund_inv_def)

theorem service_always_solvent_witness:
  "books_balance demo_settled 1749513600000020 \<and> solvent demo_settled 1749513600000020"
  using service_always_solvent [OF demo_fresh demo_run] .

text \<open>
  C2. Every reservation is backed. In every reachable state the treasury's reserved amount is the sum
  of the reservations of the running operations, so is each weekly quota's and each monthly budget's
  for its own operations, and the treasury has spent exactly what the funding journal shows as
  processing costs and estimates.
\<close>

theorem reservations_always_backed:
  assumes "fresh_service st s" "run_of (service_step st) s es (d, T)"
  shows "reservations_backed d"
  using reachable_service(1) [OF assms] by (simp add: ledger_inv_def)

theorem reservations_always_backed_witness: "reservations_backed demo_admitted"
  using reservations_always_backed [OF demo_fresh demo_run_admitted] .

text \<open>
  C3. Limits on spending. In every reachable state each month's charges and reservations together stay
  within the configured monthly budget, and no weekly quota is used and reserved beyond its grant.
\<close>

theorem spending_within_limits:
  assumes "fresh_service st s" "run_of (service_step st) s es (d, T)"
  shows "(\<forall>b \<in> set (budgets d). usd (budget_spent b + budget_reserved b) \<le> monthly_budget st)
    \<and> (\<forall>q \<in> set (quotas d). used_usd q + reserved_usd q \<le> allocated_usd q)"
  using reachable_service(1,3) [OF assms]
  by (auto simp: cap_ok_def ledger_inv_def fund_inv_def fund_wf_def quota_ok_def)

theorem spending_within_limits_witness:
  "usd (budget_spent (hd (budgets demo_admitted)) + budget_reserved (hd (budgets demo_admitted)))
     \<le> monthly_budget demo_settings"
proof -
  have "hd (budgets demo_admitted) \<in> set (budgets demo_admitted)" by (simp add: demo_admitted_def)
  with spending_within_limits [OF demo_fresh demo_run_admitted] show ?thesis by blast
qed

text \<open>
  C6. Concurrency. In every reachable state at most the configured number of operations run, at most
  one of them per account, and no account has two operations with the same identifier.
\<close>

theorem concurrency_limits:
  assumes "fresh_service st s" "run_of (service_step st) s es (d, T)"
  shows "length (filter running (operations d)) \<le> global_concurrency st
    \<and> distinct (map operation_user (filter (\<lambda>o'. running o' \<and> operation_user o' \<noteq> None) (operations d)))
    \<and> distinct (map (\<lambda>o'. (operation_user o', operation_id o'))
         (filter (\<lambda>o'. operation_user o' \<noteq> None) (operations d)))"
  using reachable_service(2) [OF assms] by (simp add: slots_ok_def)

theorem concurrency_limits_witness: "length (filter running (operations demo_admitted)) \<le> global_concurrency demo_settings"
  using concurrency_limits [OF demo_fresh demo_run_admitted] by blast

text \<open>
  C7. Settlement always returns. For every running operation of a reachable state, settling it with no
  reported cost, or with a cost that rounds up into its reservation, succeeds: the operation is charged
  that cost, or the authorized cost when none is reported, and is complete exactly when it has a result.
\<close>

theorem settlement_returns:
  assumes "fresh_service st s" "run_of (service_step st) s es (d, T)" "T \<le> now"
    and "get_row operation_pk (operations d) pk = Some o'" "running o'"
    and "case cost of None \<Rightarrow> True | Some c \<Rightarrow> 0 \<le> money_up c \<and> money_up c \<le> reserved_cost o'"
  shows "\<exists>d' o1. settle pk res cost i p est now d = Inr d'
    \<and> get_row operation_pk (operations d') pk = Some o1
    \<and> operation_cost o1 = (case cost of None \<Rightarrow> authorized_cost o' | Some c \<Rightarrow> money_up c)
    \<and> operation_state o1 = (if res \<noteq> [] then Complete else Uncertain)"
  using settle_succeeds [OF ledger_inv_later [OF reachable_service(1) [OF assms(1,2)] assms(3)] assms(4-6),
      of res i p est] by blast

theorem settlement_returns_witness:
  "\<exists>d' o1. settle 1 [] None 0 0 False 1749513600000004 demo_admitted = Inr d'
    \<and> get_row operation_pk (operations d') 1 = Some o1
    \<and> operation_cost o1 = authorized_cost demo_operation \<and> operation_state o1 = Uncertain"
proof -
  have "get_row operation_pk (operations demo_admitted) 1 = Some demo_operation" "running demo_operation"
    by (simp_all add: demo_admitted_def demo_operation_def get_row_def)
  from settlement_returns [OF demo_fresh demo_run_admitted order_refl this, of None "[]" 0 0 False]
  show ?thesis by simp
qed

text \<open>
  Settlement happens once. Settling an operation again, with whatever result, cost and time, changes
  nothing.
\<close>

theorem settlement_once:
  assumes "fresh_service st s" "run_of (service_step st) s es (d, T)" "T \<le> now"
    and "settle pk res cost i p est now d = Inr d'"
  shows "settle pk res' cost' i' p' est' now' d' = Inr d'"
  using settle_twice [OF ledger_inv_later [OF reachable_service(1) [OF assms(1,2)] assms(3)] assms(4)] .

lemma demo_run_authorized:
  "run_of (service_step demo_settings) (demo_empty, 0) (take 3 demo_events @ [Authorize 1 (1 / 1000)])
     (demo_authorized, 1749513600000010)"
proof (rule run_of_append [OF demo_run_admitted])
  have "service_step demo_settings (demo_admitted, 1749513600000004) (Authorize 1 (1 / 1000)) (demo_authorized, 1749513600000010)"
    by (rule service_step.authorize [OF _ demo_authorize]) simp
  then show "run_of (service_step demo_settings) (demo_admitted, 1749513600000004) [Authorize 1 (1 / 1000)]
     (demo_authorized, 1749513600000010)" by (auto intro: run_of.intros)
qed

theorem settlement_once_witness: "settle 1 [] (Some 0) 5 6 True 1749513600000099 demo_settled = Inr demo_settled"
  using settlement_once [OF demo_fresh demo_run_authorized _ demo_settle(1)] by simp

text \<open>
  C8. A settled operation is final. Once an operation has left the running state, every later state of
  the service that still has the operation shows the same state, charge, quota debit and reservation.
\<close>

theorem settled_is_final:
  assumes "fresh_service st s" "run_of (service_step st) s es (d, T)" "run_of (service_step st) (d, T) es' (d', T')"
    and "a \<in> set (operations d)" "\<not> running a" "b \<in> set (operations d')" "operation_pk b = operation_pk a"
  shows "operation_state b = operation_state a \<and> operation_cost b = operation_cost a
    \<and> quota_debit b = quota_debit a \<and> reserved_cost b = reserved_cost a"
proof -
  note inv = reachable_service [OF assms(1,2)]
  have "table_final d d'" using run_final [OF assms(3) inv(5,6)] by simp
  then have "next_operation_pk d \<le> operation_pk b \<or> (\<exists>x \<in> set (operations d). settled_same x b)"
    using assms(6) by (simp add: table_final_def)
  moreover have "operation_pk a < next_operation_pk d" using ledger_op_ok [OF inv(1) assms(4)] by (simp add: op_ok_def)
  ultimately obtain x where x: "x \<in> set (operations d)" "settled_same x b" using assms(7) by auto
  have k: "keyed operation_pk (operations d)" using inv(1) by (simp add: ledger_defs)
  have "operation_pk x = operation_pk a" using x(2) assms(7) by (simp add: settled_same_def)
  then have "x = a" using get_row_keyed [OF k x(1)] get_row_keyed [OF k assms(4)] by (metis option.inject)
  then show ?thesis using x(2) assms(5) by (simp add: settled_same_def)
qed

theorem settled_is_final_witness:
  "operation_cost (hd (operations (snd (delete_account 7 demo_settled)))) = operation_cost (hd (operations demo_settled))"
proof -
  let ?d = "snd (delete_account 7 demo_settled)"
  have "service_step demo_settings (demo_settled, 1749513600000020) (Delete_account 7) (?d, 1749513600000020)"
    by (rule service_step.delete_account [where r = "fst (delete_account 7 demo_settled)"]) simp_all
  then have run: "run_of (service_step demo_settings) (demo_settled, 1749513600000020) [Delete_account 7] (?d, 1749513600000020)"
    by (auto intro: run_of.intros)
  have "hd (operations demo_settled) \<in> set (operations demo_settled)" "\<not> running (hd (operations demo_settled))"
    "hd (operations ?d) \<in> set (operations ?d)"
    "operation_pk (hd (operations ?d)) = operation_pk (hd (operations demo_settled))"
    by code_simp+
  with settled_is_final [OF demo_fresh demo_run run] show ?thesis by blast
qed

text \<open>
  C9. Lease expiry always returns: in a reachable state it settles every expired lease at the cost that
  was authorized for it, leaves every other operation as it was, and afterwards no running operation
  has an expired lease.
\<close>

theorem expiry_returns:
  assumes "fresh_service st s" "run_of (service_step st) s es (d, T)" "T \<le> now"
  shows "\<exists>d'. expire_leases now d = Inr d' \<and> operations d' = map (expired_row now) (operations d)
    \<and> (\<forall>o' \<in> set (operations d'). running o' \<longrightarrow> now \<le> lease_until o')"
proof -
  obtain d' where "expire_leases now d = Inr d'" "operations d' = map (expired_row now) (operations d)"
    by (rule expire_service [OF reachable_service(6) [OF assms(1,2)] assms(3)])
  then show ?thesis by (auto dest: expired_row_running)
qed

theorem expiry_returns_witness: "\<exists>d'. expire_leases 1749519600000004 demo_admitted = Inr d'"
  using expiry_returns [OF demo_fresh demo_run_admitted, of 1749519600000004] by auto



text \<open>
  C11. What an admission reserves. A newly admitted operation reserves at most two cents, and after it
  the charges of the current month together with everything still running, also of earlier months, stay
  within the monthly budget.
\<close>

theorem admission_limits:
  assumes "fresh_service st s" "run_of (service_step st) s es (d, T)" "clock_from T clk"
    and "reserve st u opid fp ms txt clk d = Inr (d', Inr (o', True))"
  shows "reserved_cost o' \<le> 20000000
    \<and> (\<exists>b \<in> set (budgets d'). budget_month b = month_start (clk 3)
        \<and> usd (budget_spent b + held (\<lambda>_. True) (operations d')) \<le> monthly_budget st)"
proof -
  note inv = reachable_service [OF assms(1,2)]
  show ?thesis by (rule reserve_fresh [OF inv(6) assms(3) inv(5) assms(4)]) blast
qed

theorem admission_limits_witness: "reserved_cost demo_operation \<le> 20000000"
  using admission_limits [OF demo_fresh demo_run_week demo_clock demo_reserve] by blast

text \<open>
  C12. An operating entry always finds its cash. In a reachable state, recording an expense, a provision
  or a release never fails for lack of a matching processing basis: the admission rules already refuse
  everything the receipts cannot carry.
\<close>

theorem operating_finds_basis:
  assumes "fresh_service st s" "run_of (service_step st) s es (d, T)" "T \<le> now"
  shows "record_operating kind amount reference occurred source checked now d \<noteq> Inl No_matching_basis"
proof
  assume bad: "record_operating kind amount reference occurred source checked now d = Inl No_matching_basis"
  have inv: "fund_inv d now"
    using ledger_inv_later [OF reachable_service(1) [OF assms(1,2)] assms(3)] by (simp add: ledger_inv_def)
  obtain k q t where q: "amount = Finite q" "valid_amount amount"
    and rl: "record_locked k (money q) reference t source now d = Inl No_matching_basis"
    using bad by (auto simp: record_operating_def operating_kind_def record_entry_def validate_entry_def valid_amount_def
        split: if_splits option.splits decimal.splits datetime_arg.splits)
  have "0 < money q" using q by (simp add: valid_amount_pos)
  from record_locked_finds_basis [OF inv this] rl show False by blast
qed

theorem operating_finds_basis_witness:
  "record_operating (ulit ''expense'') (Finite 5) (ulit ''e1'') (Aware 0) (ulit ''bank'') 1749513600000000
     1749513600000000 demo_week \<noteq> Inl No_matching_basis"
  using operating_finds_basis [OF demo_fresh demo_run_week order_refl] .

text \<open>
  The weekly split. For any released amount below \<open>10 ^ 18\<close> dollars and any number of
  regular users, the equal regular shares and the newcomer pool together never exceed what is released,
  in spite of the 28-digit rounding of every decimal step.
\<close>

theorem weekly_split_within_release:
  assumes "0 \<le> R" "R < 10 ^ 27"
  shows "0 \<le> regular_share R n \<and> 0 \<le> newcomer_share R \<and> regular_share R n * int n + newcomer_share R \<le> R"
  using share_bounds [OF assms] by simp

theorem weekly_split_within_release_witness: "regular_share 100000000000 3 * 3 + newcomer_share 100000000000 \<le> 100000000000"
  using weekly_split_within_release [of 100000000000 3] by simp

text \<open>
  The accounting week. The week of an instant contains it, starts on a Monday at midnight UTC and
  lasts seven days.
\<close>

theorem week_bounds_correct:
  "fst (week_bounds now) \<le> now \<and> now < snd (week_bounds now) \<and> snd (week_bounds now) = fst (week_bounds now) + week_us
     \<and> weekday (fst (week_bounds now)) = 0 \<and> fst (week_bounds now) mod day_us = 0"
  using week_bounds_spec [OF prod.collapse [symmetric], of now] by blast






end
